(* ===== verification/Bank_Prelude.thy ===== *)
theory Bank_Prelude
  imports Main "HOL-Library.Word" "HOL-Library.Signed_Division" "HOL-Library.Char_ord"
begin

text \<open>
  What every component shares: the machine integers, the C++ exceptions as values, decimal and
  hexadecimal text, and the named collections the component proofs draw on.
  A C++ function that may throw returns \<open>exn + 'a\<close>; \<open>Inl e\<close> is the thrown exception.
\<close>

section \<open>Proof collections\<close>

named_theorems bank_defs \<open>definitions of the model, unfolded by the component proofs\<close>
named_theorems bank_inv \<open>facts of the form: an operation keeps an invariant\<close>

section \<open>Machine integers\<close>

text \<open>
  Both 64-bit integer types of the source are 64-bit words, so \<open>static_cast\<close> between
  \<open>int64_t\<close> and \<open>uint64_t\<close> is the identity on the bits; what differs is how the word is
  read: \<open>unat\<close> for \<open>uint64_t\<close>, \<open>sint\<close> for \<open>int64_t\<close>.
\<close>

type_synonym u64 = "64 word"
type_synonym i64 = "64 word"
type_synonym byte = "8 word"

abbreviation i64_max :: i64 where "i64_max \<equiv> 9223372036854775807"
abbreviation i64_min :: i64 where "i64_min \<equiv> 9223372036854775808"

lemma sint_i64_range: "- (2 ^ 63) \<le> sint (w :: i64)" "sint (w :: i64) < 2 ^ 63"
  using sint_ge [of w] sint_lt [of w] by simp_all

lemma sint_i64_max [simp]: "sint i64_max = 9223372036854775807"
  by simp

lemma sint_word_of_int_i64:
  "- (2 ^ 63) \<le> k \<Longrightarrow> k < 2 ^ 63 \<Longrightarrow> sint (word_of_int k :: i64) = k"
  by (simp add: signed_take_bit_int_eq_self sint_sbintrunc')

lemma sint_add_i64:
  assumes "- (2 ^ 63) \<le> sint a + sint b" "sint a + sint b < 2 ^ 63"
  shows "sint (a + b :: i64) = sint a + sint b"
  using assms by (simp add: sint_word_add signed_take_bit_int_eq_self)

lemma sint_diff_i64:
  assumes "- (2 ^ 63) \<le> sint a - sint b" "sint a - sint b < 2 ^ 63"
  shows "sint (a - b :: i64) = sint a - sint b"
  using assms by (simp add: sint_word_diff signed_take_bit_int_eq_self)

lemma sint_eq_iff_i64: "sint a = sint b \<longleftrightarrow> a = (b :: i64)"
  by (auto intro: signed_word_eqI)

lemma uint_sint_i64: "0 \<le> sint (w :: i64) \<Longrightarrow> uint w = sint w"
  using sint_i64_range(2) [of w] by (simp add: uint_sint take_bit_int_eq_self)

section \<open>Exceptions as values\<close>

text \<open>The standard exception classes the source throws; each carries its \<open>what()\<close>.\<close>

datatype exn =
    Invalid_argument (exn_what: string)
  | Domain_error (exn_what: string)
  | Overflow_error (exn_what: string)
  | Underflow_error (exn_what: string)
  | Out_of_range (exn_what: string)
  | Runtime_error (exn_what: string)
  | Logic_error (exn_what: string)

text \<open>Sequencing of two computations that may throw: the first exception ends the block.\<close>

fun bind_exn :: "'e + 'a \<Rightarrow> ('a \<Rightarrow> 'e + 'b) \<Rightarrow> 'e + 'b" where
  "bind_exn (Inl e) f = Inl e"
| "bind_exn (Inr x) f = f x"

lemma bind_exn_Inr_iff: "bind_exn m f = Inr y \<longleftrightarrow> (\<exists>x. m = Inr x \<and> f x = Inr y)"
  by (cases m) auto

lemma bind_exn_Inl_iff: "bind_exn m f = Inl e \<longleftrightarrow> m = Inl e \<or> (\<exists>x. m = Inr x \<and> f x = Inl e)"
  by (cases m) auto

lemma bind_exn_cong [fundef_cong]:
  "m = m' \<Longrightarrow> (\<And>x. m' = Inr x \<Longrightarrow> f x = g x) \<Longrightarrow> bind_exn m f = bind_exn m' g"
  by (cases m') auto

text \<open>
  Code that also changes a state of type \<open>'s\<close>: the state reached is kept when an exception is thrown,
  and a handler runs in it.
\<close>

type_synonym ('s, 'a) io = "'s \<Rightarrow> (exn + 'a) \<times> 's"

definition io_return :: "'a \<Rightarrow> ('s, 'a) io" where
  "io_return x s = (Inr x, s)"

definition io_bind :: "('s, 'a) io \<Rightarrow> ('a \<Rightarrow> ('s, 'b) io) \<Rightarrow> ('s, 'b) io" where
  "io_bind m f s = (case m s of (Inl e, s) \<Rightarrow> (Inl e, s) | (Inr x, s) \<Rightarrow> f x s)"

definition io_catch :: "('s, 'a) io \<Rightarrow> (exn \<Rightarrow> ('s, 'a) io) \<Rightarrow> ('s, 'a) io" where
  "io_catch m h s = (case m s of (Inl e, s) \<Rightarrow> h e s | (Inr x, s) \<Rightarrow> (Inr x, s))"

lemma io_return_simp [simp]: "io_return x s = (Inr x, s)"
  by (simp add: io_return_def)

lemma io_bind_simps:
  "m s = (Inr x, s') \<Longrightarrow> io_bind m f s = f x s'"
  "m s = (Inl e, s') \<Longrightarrow> io_bind m f s = (Inl e, s')"
  by (simp_all add: io_bind_def)

lemma io_bind_cases:
  assumes "io_bind m f s = (r, s')"
  obtains (throws) e where "m s = (Inl e, s')" "r = Inl e"
  | (runs) x s1 where "m s = (Inr x, s1)" "f x s1 = (r, s')"
  using assms by (auto simp: io_bind_def split: prod.splits sum.splits)

lemma io_catch_cases:
  assumes "io_catch m h s = (r, s')"
  obtains (caught) e s1 where "m s = (Inl e, s1)" "h e s1 = (r, s')"
  | (returns) x where "m s = (Inr x, s')" "r = Inr x"
  using assms by (auto simp: io_catch_def split: prod.splits sum.splits)

text \<open>A property of the state that every part keeps is kept by the whole.\<close>

definition io_keeps :: "('s \<Rightarrow> 's \<Rightarrow> bool) \<Rightarrow> ('s, 'a) io \<Rightarrow> bool" where
  "io_keeps R m \<longleftrightarrow> (\<forall>s. R s (snd (m s)))"

lemma io_keepsD: "io_keeps R m \<Longrightarrow> m s = (r, s') \<Longrightarrow> R s s'"
  by (metis io_keeps_def snd_conv)

lemma io_keeps_return: "reflp R \<Longrightarrow> io_keeps R (io_return x)"
  by (simp add: io_keeps_def reflpD)

lemma io_keeps_bind:
  assumes "transp R" "io_keeps R m" "\<And>x. io_keeps R (f x)"
  shows "io_keeps R (io_bind m f)"
  unfolding io_keeps_def
proof
  fix s
  obtain r s' where run: "io_bind m f s = (r, s')" by fastforce
  then show "R s (snd (io_bind m f s))"
    by (cases rule: io_bind_cases)
      (use run in \<open>auto dest: io_keepsD [OF assms(2)] io_keepsD [OF assms(3)] intro: transpD [OF assms(1)]\<close>)
qed

lemma io_keeps_catch:
  assumes "transp R" "io_keeps R m" "\<And>e. io_keeps R (h e)"
  shows "io_keeps R (io_catch m h)"
  unfolding io_keeps_def
proof
  fix s
  obtain r s' where run: "io_catch m h s = (r, s')" by fastforce
  then show "R s (snd (io_catch m h s))"
    by (cases rule: io_catch_cases)
      (use run in \<open>auto dest: io_keepsD [OF assms(2)] io_keepsD [OF assms(3)] intro: transpD [OF assms(1)]\<close>)
qed

section \<open>Characters, decimal and hexadecimal text\<close>

text \<open>A C++ \<open>char\<close> is a byte; \<open>code c\<close> is its unsigned value.\<close>

abbreviation code :: "char \<Rightarrow> nat" where "code c \<equiv> of_char c"

lemma code_char_of: "n < 256 \<Longrightarrow> code (char_of n) = n"
  by simp

definition digit_char :: "nat \<Rightarrow> char" where
  "digit_char n = char_of (48 + n)"

text \<open>\<open>std::to_string\<close> of an unsigned value, and of a signed one.\<close>

fun dec_of_nat :: "nat \<Rightarrow> string" where
  "dec_of_nat n = (if n < 10 then [digit_char n] else dec_of_nat (n div 10) @ [digit_char (n mod 10)])"

declare dec_of_nat.simps [simp del]

definition dec_of_int :: "int \<Rightarrow> string" where
  "dec_of_int k = (if k < 0 then CHR ''-'' # dec_of_nat (nat (- k)) else dec_of_nat (nat k))"

definition to_string_u64 :: "u64 \<Rightarrow> string" where
  "to_string_u64 w = dec_of_nat (unat w)"

definition to_string_i64 :: "i64 \<Rightarrow> string" where
  "to_string_i64 w = dec_of_int (sint w)"

definition is_dec :: "char \<Rightarrow> bool" where
  "is_dec c \<longleftrightarrow> 48 \<le> code c \<and> code c \<le> 57"

lemma is_dec_digit_char: "n < 10 \<Longrightarrow> is_dec (digit_char n)"
  by (simp add: is_dec_def digit_char_def)

lemma code_digit_char: "n < 10 \<Longrightarrow> code (digit_char n) = 48 + n"
  by (simp add: digit_char_def)

lemma dec_of_nat_digits: "\<forall>c \<in> set (dec_of_nat n). is_dec c"
proof (induction n rule: dec_of_nat.induct)
  case (1 n)
  then show ?case
    by (subst dec_of_nat.simps) (auto simp: is_dec_digit_char)
qed

lemma dec_of_nat_not_Nil [simp]: "dec_of_nat n \<noteq> []"
  by (subst dec_of_nat.simps) simp

text \<open>Reading decimal text back, most significant digit first.\<close>

definition dec_value :: "string \<Rightarrow> nat" where
  "dec_value s = foldl (\<lambda>v c. v * 10 + (code c - 48)) 0 s"

lemma dec_value_snoc: "dec_value (s @ [c]) = dec_value s * 10 + (code c - 48)"
  by (simp add: dec_value_def)

lemma dec_value_dec_of_nat: "dec_value (dec_of_nat n) = n"
proof (induction n rule: dec_of_nat.induct)
  case (1 n)
  show ?case
  proof (cases "n < 10")
    case True
    then show ?thesis
      by (subst dec_of_nat.simps) (simp add: dec_value_def code_digit_char)
  next
    case False
    with 1 have "dec_value (dec_of_nat (n div 10)) = n div 10" by simp
    with False show ?thesis
      by (subst dec_of_nat.simps) (simp add: dec_value_snoc code_digit_char)
  qed
qed

text \<open>The table \<open>kHex\<close> of the source: the lowercase hexadecimal digit of a nibble.\<close>

definition hex_digit :: "nat \<Rightarrow> char" where
  "hex_digit n = ''0123456789abcdef'' ! n"

text \<open>A digit of either case, or of lowercase only; \<open>None\<close> where the source rejects.\<close>

definition hex_nibble :: "char \<Rightarrow> nat option" where
  "hex_nibble c =
     (if 48 \<le> code c \<and> code c \<le> 57 then Some (code c - 48)
      else if 97 \<le> code c \<and> code c \<le> 102 then Some (code c - 97 + 10)
      else if 65 \<le> code c \<and> code c \<le> 70 then Some (code c - 65 + 10)
      else None)"

definition hex_nibble_lower :: "char \<Rightarrow> nat option" where
  "hex_nibble_lower c =
     (if 48 \<le> code c \<and> code c \<le> 57 then Some (code c - 48)
      else if 97 \<le> code c \<and> code c \<le> 102 then Some (code c - 97 + 10)
      else None)"

lemma less_16_cases: "n < 16 \<Longrightarrow> n \<in> {0, 1, 2, 3, 4, 5, 6, 7, 8, 9, 10, 11, 12, 13, 14, 15 :: nat}"
  by (simp only: insert_iff empty_iff) arith

lemma hex_nibble_digit [simp]: "n < 16 \<Longrightarrow> hex_nibble (hex_digit n) = Some n"
  using less_16_cases [of n] by (auto simp: hex_digit_def hex_nibble_def)

lemma hex_nibble_lower_digit [simp]: "n < 16 \<Longrightarrow> hex_nibble_lower (hex_digit n) = Some n"
  using less_16_cases [of n] by (auto simp: hex_digit_def hex_nibble_lower_def)

lemma hex_nibble_less: "hex_nibble c = Some n \<Longrightarrow> n < 16"
  by (auto simp: hex_nibble_def split: if_splits)

lemma hex_nibble_lower_less: "hex_nibble_lower c = Some n \<Longrightarrow> n < 16"
  by (auto simp: hex_nibble_lower_def split: if_splits)

end
