(* ===== verification/Bank_Core.thy ===== *)
theory Bank_Core
  imports Bank_Prelude
begin

text \<open>
  src/core: the service-layer \<open>Result\<close> and the wall-clock helpers.
\<close>

section \<open>Result.h\<close>

text \<open>
  \<open>Result<T>\<close> keeps an optional value and an error string; \<open>ok()\<close> reads the value.
  The specialization \<open>Result<void>\<close> keeps only the error string; \<open>ok()\<close> reads that.
\<close>

record 'a result =
  res_value :: "'a option"
  res_error :: string

definition result_success :: "'a \<Rightarrow> 'a result" where
  "result_success v = \<lparr>res_value = Some v, res_error = []\<rparr>"

definition result_failure :: "string \<Rightarrow> 'a result" where
  "result_failure e = \<lparr>res_value = None, res_error = e\<rparr>"

definition result_ok :: "'a result \<Rightarrow> bool" where
  "result_ok r \<longleftrightarrow> res_value r \<noteq> None"

definition result_failed :: "'a result \<Rightarrow> bool" where
  "result_failed r \<longleftrightarrow> res_value r = None"

record void_result =
  void_error :: string

definition void_success :: void_result where
  "void_success = \<lparr>void_error = []\<rparr>"

definition void_failure :: "string \<Rightarrow> void_result" where
  "void_failure e = \<lparr>void_error = e\<rparr>"

definition void_ok :: "void_result \<Rightarrow> bool" where
  "void_ok r \<longleftrightarrow> void_error r = []"

definition void_failed :: "void_result \<Rightarrow> bool" where
  "void_failed r \<longleftrightarrow> void_error r \<noteq> []"

lemma result_success_simps [simp]:
  "result_ok (result_success v)" "\<not> result_failed (result_success v)"
  "res_value (result_success v) = Some v" "res_error (result_success v) = []"
  by (simp_all add: result_success_def result_ok_def result_failed_def)

lemma result_failure_simps [simp]:
  "\<not> result_ok (result_failure e)" "result_failed (result_failure e)"
  "res_value (result_failure e) = None" "res_error (result_failure e) = e"
  by (simp_all add: result_failure_def result_ok_def result_failed_def)

lemma result_success_not_failure [simp]:
  "result_success v \<noteq> result_failure e" "result_failure e \<noteq> result_success v"
  by (simp_all add: result_success_def result_failure_def)

lemma result_success_inject [simp]: "result_success v = result_success w \<longleftrightarrow> v = w"
  by (simp add: result_success_def)

lemma result_failure_inject [simp]: "result_failure e = result_failure f \<longleftrightarrow> e = f"
  by (simp add: result_failure_def)

lemma result_ok_not_failed: "result_ok r \<longleftrightarrow> \<not> result_failed r"
  by (simp add: result_ok_def result_failed_def)

lemma void_simps [simp]:
  "void_ok void_success" "\<not> void_failed void_success" "void_error (void_failure e) = e"
  "void_ok (void_failure e) \<longleftrightarrow> e = []" "void_failed (void_failure e) \<longleftrightarrow> e \<noteq> []"
  by (simp_all add: void_success_def void_failure_def void_ok_def void_failed_def)

section \<open>TimeUtil.h\<close>

text \<open>
  A \<open>system_clock::time_point\<close> is a signed 64-bit count of clock ticks since the epoch; the
  clock of libstdc++ ticks in nanoseconds. \<open>duration_cast\<close> to milliseconds truncates
  towards zero. \<open>from_unix_ms\<close> multiplies; where the product leaves the 64-bit range the C++
  has undefined behaviour (the model wraps), so every lemma about it asks for \<open>ms_ok\<close>.
  \<open>now()\<close> is the environment's: operations that read the clock take the time as an argument.
\<close>

type_synonym time_point = i64

abbreviation ticks_per_ms :: int where "ticks_per_ms \<equiv> 1000000"

definition to_unix_ms :: "time_point \<Rightarrow> i64" where
  "to_unix_ms t = word_of_int (sint t sdiv ticks_per_ms)"

definition from_unix_ms :: "i64 \<Rightarrow> time_point" where
  "from_unix_ms ms = ms * word_of_int ticks_per_ms"

definition ms_ok :: "i64 \<Rightarrow> bool" where
  "ms_ok ms \<longleftrightarrow> - (2 ^ 63) \<le> sint ms * ticks_per_ms \<and> sint ms * ticks_per_ms < 2 ^ 63"

lemma sint_from_unix_ms: "ms_ok ms \<Longrightarrow> sint (from_unix_ms ms) = sint ms * ticks_per_ms"
  by (simp add: ms_ok_def from_unix_ms_def sint_word_mult signed_take_bit_int_eq_self)

lemma sdiv_ticks_bounds:
  assumes "- (2 ^ 63) \<le> k" "k < 2 ^ 63"
  shows "\<bar>k sdiv ticks_per_ms\<bar> < 2 ^ 44"
  using assms by (simp add: signed_divide_int_def abs_mult sgn_if) arith

lemma sint_to_unix_ms: "sint (to_unix_ms t) = sint t sdiv ticks_per_ms"
  using sdiv_ticks_bounds [OF sint_i64_range, of t]
  by (simp add: to_unix_ms_def sint_word_of_int_i64)

lemma mult_sdiv_ticks: "k * ticks_per_ms sdiv ticks_per_ms = k"
  by (simp add: signed_divide_int_def abs_mult sgn_if)

lemma to_from_unix_ms: "ms_ok ms \<Longrightarrow> to_unix_ms (from_unix_ms ms) = ms"
  by (simp add: sint_eq_iff_i64 [symmetric] sint_to_unix_ms sint_from_unix_ms
        mult_sdiv_ticks)

lemma sdiv_mult_abs_le: "\<bar>k sdiv ticks_per_ms\<bar> * ticks_per_ms \<le> \<bar>k\<bar>"
  by (simp add: signed_divide_int_def abs_mult sgn_if) arith

lemma ms_ok_to_unix_ms: "ms_ok (to_unix_ms t)"
proof -
  have "\<bar>sint t\<bar> \<le> 2 ^ 63" using sint_i64_range [of t] by simp
  with sdiv_mult_abs_le [of "sint t"]
  have "\<bar>sint t sdiv ticks_per_ms\<bar> * ticks_per_ms \<le> 2 ^ 63" by linarith
  then have "\<bar>sint t sdiv ticks_per_ms\<bar> \<le> 9223372036854" by simp
  then show ?thesis by (simp add: ms_ok_def sint_to_unix_ms) arith
qed

text \<open>The instant a time point is stored as: the multiple of a millisecond it is cut to.\<close>

definition ms_trunc :: "time_point \<Rightarrow> time_point" where
  "ms_trunc t = from_unix_ms (to_unix_ms t)"

lemma to_unix_ms_trunc: "to_unix_ms (ms_trunc t) = to_unix_ms t"
  by (simp add: ms_trunc_def to_from_unix_ms ms_ok_to_unix_ms)

lemma ms_trunc_idem: "ms_trunc (ms_trunc t) = ms_trunc t"
  unfolding ms_trunc_def [of "ms_trunc t"] by (simp only: to_unix_ms_trunc) (simp only: ms_trunc_def)

lemma ms_trunc_within: "\<bar>sint t - sint (ms_trunc t)\<bar> < ticks_per_ms"
proof -
  have "sint (ms_trunc t) = (sint t sdiv ticks_per_ms) * ticks_per_ms"
    by (simp add: ms_trunc_def sint_from_unix_ms ms_ok_to_unix_ms sint_to_unix_ms)
  then have "sint t - sint (ms_trunc t) = sint t smod ticks_per_ms"
    using minus_sdiv_mult_eq_smod [of "sint t" ticks_per_ms] by simp
  then show ?thesis
    by (simp add: signed_modulo_int_def abs_mult sgn_if)
qed

end
