(* ===== verification/Bank_Types.thy ===== *)
theory Bank_Types
  imports Bank_Core
begin

text \<open>
  src/domain/Types.h: the tagged identifiers, the enumerations and their canonical on-disk text.
\<close>

section \<open>Identifiers\<close>

text \<open>
  \<open>template <typename Tag> class Id\<close>: the tag is a phantom parameter, so an account id and
  a customer id are values of different types here too.
\<close>

datatype 'tag ident = Id (id_value: u64)

typedecl customer_tag
typedecl account_tag
typedecl transaction_tag

type_synonym customer_id = "customer_tag ident"
type_synonym account_id = "account_tag ident"
type_synonym transaction_id = "transaction_tag ident"

text \<open>The defaulted \<open>operator<=>\<close> compares the values.\<close>

definition id_at_most :: "'a ident \<Rightarrow> 'a ident \<Rightarrow> bool" where
  "id_at_most a b \<longleftrightarrow> id_value a \<le> id_value b"

definition id_below :: "'a ident \<Rightarrow> 'a ident \<Rightarrow> bool" where
  "id_below a b \<longleftrightarrow> id_value a < id_value b"

instantiation ident :: (type) linorder
begin

definition less_eq_ident :: "'a ident \<Rightarrow> 'a ident \<Rightarrow> bool" where
  "less_eq_ident = id_at_most"

definition less_ident :: "'a ident \<Rightarrow> 'a ident \<Rightarrow> bool" where
  "less_ident = id_below"

lemmas ident_order_defs = less_eq_ident_def less_ident_def id_at_most_def id_below_def

instance
  by standard (auto simp: ident_order_defs ident.expand)

end

section \<open>Enumerations\<close>

datatype role = Role_Customer | Role_Teller | Role_Admin
datatype account_status = Active | Frozen | Closed
datatype transaction_type = Type_Deposit | Type_Withdraw | Type_Transfer
datatype transaction_state = Pending | Validated | WalWritten | Applied | Committed | Failed | RolledBack
datatype session_state = Anonymous | Authenticated | Expired | Revoked

text \<open>\<open>static_cast<int>(state)\<close>: the position of the enumerator, which is written to disk.\<close>

fun state_index :: "transaction_state \<Rightarrow> nat" where
  "state_index Pending = 0"
| "state_index Validated = 1"
| "state_index WalWritten = 2"
| "state_index Applied = 3"
| "state_index Committed = 4"
| "state_index Failed = 5"
| "state_index RolledBack = 6"

text \<open>\<open>to_string\<close> of each enumeration.\<close>

fun role_to_string :: "role \<Rightarrow> string" where
  "role_to_string Role_Customer = ''customer''"
| "role_to_string Role_Teller = ''teller''"
| "role_to_string Role_Admin = ''admin''"

fun status_to_string :: "account_status \<Rightarrow> string" where
  "status_to_string Active = ''active''"
| "status_to_string Frozen = ''frozen''"
| "status_to_string Closed = ''closed''"

fun type_to_string :: "transaction_type \<Rightarrow> string" where
  "type_to_string Type_Deposit = ''deposit''"
| "type_to_string Type_Withdraw = ''withdraw''"
| "type_to_string Type_Transfer = ''transfer''"

fun state_to_string :: "transaction_state \<Rightarrow> string" where
  "state_to_string Pending = ''pending''"
| "state_to_string Validated = ''validated''"
| "state_to_string WalWritten = ''wal_written''"
| "state_to_string Applied = ''applied''"
| "state_to_string Committed = ''committed''"
| "state_to_string Failed = ''failed''"
| "state_to_string RolledBack = ''rolled_back''"

fun session_state_to_string :: "session_state \<Rightarrow> string" where
  "session_state_to_string Anonymous = ''anonymous''"
| "session_state_to_string Authenticated = ''authenticated''"
| "session_state_to_string Expired = ''expired''"
| "session_state_to_string Revoked = ''revoked''"

definition role_from_string :: "string \<Rightarrow> role option" where
  "role_from_string text =
     (if text = ''customer'' then Some Role_Customer
      else if text = ''teller'' then Some Role_Teller
      else if text = ''admin'' then Some Role_Admin
      else None)"

definition account_status_from_string :: "string \<Rightarrow> account_status option" where
  "account_status_from_string text =
     (if text = ''active'' then Some Active
      else if text = ''frozen'' then Some Frozen
      else if text = ''closed'' then Some Closed
      else None)"

definition transaction_type_from_string :: "string \<Rightarrow> transaction_type option" where
  "transaction_type_from_string text =
     (if text = ''deposit'' then Some Type_Deposit
      else if text = ''withdraw'' then Some Type_Withdraw
      else if text = ''transfer'' then Some Type_Transfer
      else None)"

definition transaction_state_from_string :: "string \<Rightarrow> transaction_state option" where
  "transaction_state_from_string text =
     (if text = ''pending'' then Some Pending
      else if text = ''validated'' then Some Validated
      else if text = ''wal_written'' then Some WalWritten
      else if text = ''applied'' then Some Applied
      else if text = ''committed'' then Some Committed
      else if text = ''failed'' then Some Failed
      else if text = ''rolled_back'' then Some RolledBack
      else None)"

definition session_state_from_string :: "string \<Rightarrow> session_state option" where
  "session_state_from_string text =
     (if text = ''anonymous'' then Some Anonymous
      else if text = ''authenticated'' then Some Authenticated
      else if text = ''expired'' then Some Expired
      else if text = ''revoked'' then Some Revoked
      else None)"

text \<open>
  An enumeration and its text form a codec: the text determines the member and every other text
  is rejected. Each of the five is an instance, so the round trips are proved once.
\<close>

locale text_codec =
  fixes print :: "'a \<Rightarrow> string"
    and parse :: "string \<Rightarrow> 'a option"
  assumes parse_print: "parse (print x) = Some x"
    and print_parse: "parse s = Some x \<Longrightarrow> print x = s"
begin

lemma parse_eq_Some_iff: "parse s = Some x \<longleftrightarrow> s = print x"
  using parse_print print_parse by auto

lemma print_inject: "print x = print y \<longleftrightarrow> x = y"
  by (metis parse_print option.inject)

lemma rejected: "parse s = None \<longleftrightarrow> s \<notin> range print"
  by (cases "parse s") (auto simp: parse_eq_Some_iff parse_print)

end

interpretation role_text: text_codec role_to_string role_from_string
proof unfold_locales
  show "role_from_string (role_to_string x) = Some x" for x
    by (cases x) (simp_all add: role_from_string_def)
  show "role_from_string s = Some x \<Longrightarrow> role_to_string x = s" for s x
    by (auto simp: role_from_string_def split: if_splits)
qed

interpretation status_text: text_codec status_to_string account_status_from_string
proof unfold_locales
  show "account_status_from_string (status_to_string x) = Some x" for x
    by (cases x) (simp_all add: account_status_from_string_def)
  show "account_status_from_string s = Some x \<Longrightarrow> status_to_string x = s" for s x
    by (auto simp: account_status_from_string_def split: if_splits)
qed

interpretation type_text: text_codec type_to_string transaction_type_from_string
proof unfold_locales
  show "transaction_type_from_string (type_to_string x) = Some x" for x
    by (cases x) (simp_all add: transaction_type_from_string_def)
  show "transaction_type_from_string s = Some x \<Longrightarrow> type_to_string x = s" for s x
    by (auto simp: transaction_type_from_string_def split: if_splits)
qed

interpretation state_text: text_codec state_to_string transaction_state_from_string
proof unfold_locales
  show "transaction_state_from_string (state_to_string x) = Some x" for x
    by (cases x) (simp_all add: transaction_state_from_string_def)
  show "transaction_state_from_string s = Some x \<Longrightarrow> state_to_string x = s" for s x
    by (auto simp: transaction_state_from_string_def split: if_splits)
qed

interpretation session_text: text_codec session_state_to_string session_state_from_string
proof unfold_locales
  show "session_state_from_string (session_state_to_string x) = Some x" for x
    by (cases x) (simp_all add: session_state_from_string_def)
  show "session_state_from_string s = Some x \<Longrightarrow> session_state_to_string x = s" for s x
    by (auto simp: session_state_from_string_def split: if_splits)
qed

section \<open>Property\<close>

text \<open>
  C40: every enum of the domain is printed and read back through the same table: a text is read as a value
  exactly when it is the text that value prints as, so no two values share a text and no other text is
  accepted. This holds for roles, account statuses, transaction types, transaction states and session states.
\<close>

theorem enum_text_tables:
  "(role_from_string s = Some x1 \<longleftrightarrow> s = role_to_string x1) \<and>
   (account_status_from_string s = Some x2 \<longleftrightarrow> s = status_to_string x2) \<and>
   (transaction_type_from_string s = Some x3 \<longleftrightarrow> s = type_to_string x3) \<and>
   (transaction_state_from_string s = Some x4 \<longleftrightarrow> s = state_to_string x4) \<and>
   (session_state_from_string s = Some x5 \<longleftrightarrow> s = session_state_to_string x5)"
  by (intro conjI role_text.parse_eq_Some_iff status_text.parse_eq_Some_iff type_text.parse_eq_Some_iff
      state_text.parse_eq_Some_iff session_text.parse_eq_Some_iff)

end
