(* ===== verification/Bank_Money.thy ===== *)
theory Bank_Money
  imports Bank_Types
begin

text \<open>
  src/domain/Money.h and the money formatting of Ostream.h and Transaction.cpp. A \<open>Money\<close> is a
  signed 64-bit count of cents; its constructor refuses negative counts, and addition and
  subtraction check before they compute. \<open>money_ok\<close> is the type invariant, \<open>amount\<close> the
  mathematical value.
\<close>

section \<open>The value object\<close>

datatype money = Mk_Money (cents: i64)

text \<open>The checking constructor \<open>Money(int64_t)\<close>.\<close>

definition Money :: "i64 \<Rightarrow> exn + money" where
  "Money c =
     (if c <s 0 then Inl (Invalid_argument ''Money: negative amounts are not representable'')
      else Inr (Mk_Money c))"

definition money_zero :: money where
  "money_zero = Mk_Money 0"

definition is_positive :: "money \<Rightarrow> bool" where
  "is_positive m \<longleftrightarrow> 0 <s cents m"

definition money_plus :: "money \<Rightarrow> money \<Rightarrow> exn + money" where
  "money_plus m other =
     (if i64_max - cents m <s cents other
      then Inl (Overflow_error ''Money: addition overflow'')
      else Money (cents m + cents other))"

definition money_minus :: "money \<Rightarrow> money \<Rightarrow> exn + money" where
  "money_minus m other =
     (if cents m <s cents other
      then Inl (Underflow_error ''Money: subtraction would go below zero'')
      else Money (cents m - cents other))"

definition can_subtract :: "money \<Rightarrow> money \<Rightarrow> bool" where
  "can_subtract m other \<longleftrightarrow> cents other <=s cents m"

text \<open>The defaulted comparisons compare the cents as signed integers.\<close>

definition money_at_most :: "money \<Rightarrow> money \<Rightarrow> bool" where
  "money_at_most a b \<longleftrightarrow> cents a <=s cents b"

definition money_below :: "money \<Rightarrow> money \<Rightarrow> bool" where
  "money_below a b \<longleftrightarrow> cents a <s cents b"

instantiation money :: linorder
begin

definition less_eq_money :: "money \<Rightarrow> money \<Rightarrow> bool" where
  "less_eq_money = money_at_most"

definition less_money :: "money \<Rightarrow> money \<Rightarrow> bool" where
  "less_money = money_below"

lemmas money_order_defs = less_eq_money_def less_money_def money_at_most_def money_below_def

instance
  by standard
    (auto simp: money_order_defs word_sle_eq word_sless_alt money.expand
      sint_eq_iff_i64)

end

section \<open>Abstraction: money is a bounded natural number of cents\<close>

definition amount :: "money \<Rightarrow> int" where
  "amount m = sint (cents m)"

definition money_ok :: "money \<Rightarrow> bool" where
  "money_ok m \<longleftrightarrow> 0 \<le> amount m"

abbreviation max_amount :: int where "max_amount \<equiv> 9223372036854775807"

lemma amount_le_max: "amount m \<le> max_amount"
  using sint_i64_range(2) [of "cents m"] by (simp add: amount_def)

lemma amount_inject: "amount m = amount n \<longleftrightarrow> m = n"
  by (cases m; cases n) (simp add: amount_def sint_eq_iff_i64)

lemma amount_less_eq: "m \<le> n \<longleftrightarrow> amount m \<le> amount n"
  by (simp add: money_order_defs amount_def word_sle_eq)

lemma amount_zero [simp]: "amount money_zero = 0"
  by (simp add: amount_def money_zero_def)

lemma money_zero_ok [simp]: "money_ok money_zero"
  by (simp add: money_ok_def)

lemma cents_eq_0_iff: "cents m = 0 \<longleftrightarrow> amount m = 0"
  by (cases m) (simp add: amount_def sint_eq_iff_i64 [symmetric])

lemma is_positive_iff: "is_positive m \<longleftrightarrow> 0 < amount m"
  by (simp add: is_positive_def amount_def word_sless_alt)

lemma can_subtract_iff: "can_subtract m n \<longleftrightarrow> amount n \<le> amount m"
  by (simp add: can_subtract_def amount_def word_sle_eq)

lemma Money_cases:
  "Money c = (if sint c < 0 then Inl (Invalid_argument ''Money: negative amounts are not representable'')
     else Inr (Mk_Money c))"
  by (simp add: Money_def word_sless_alt)

lemma Money_Inr: "Money c = Inr m \<longleftrightarrow> 0 \<le> sint c \<and> m = Mk_Money c"
  by (auto simp: Money_cases)

lemma Money_ok: "Money c = Inr m \<Longrightarrow> money_ok m"
  by (auto simp: Money_Inr money_ok_def amount_def)

text \<open>Addition on every branch, over the mathematical values.\<close>

lemma money_plus_cases:
  assumes "money_ok m" "money_ok n"
  shows "money_plus m n =
    (if max_amount < amount m + amount n then Inl (Overflow_error ''Money: addition overflow'')
     else Inr (Mk_Money (cents m + cents n)))"
    and "amount m + amount n \<le> max_amount \<Longrightarrow>
      amount (Mk_Money (cents m + cents n)) = amount m + amount n"
proof -
  have nn: "0 \<le> sint (cents m)" "0 \<le> sint (cents n)"
    using assms by (simp_all add: money_ok_def amount_def)
  have d: "sint (i64_max - cents m) = max_amount - sint (cents m)"
    using nn(1) sint_i64_range [of "cents m"] by (subst sint_diff_i64) simp_all
  have s: "sint (cents m + cents n) = sint (cents m) + sint (cents n)"
    if "sint (cents m) + sint (cents n) \<le> max_amount"
    using that nn by (subst sint_add_i64) simp_all
  show "money_plus m n =
    (if max_amount < amount m + amount n then Inl (Overflow_error ''Money: addition overflow'')
     else Inr (Mk_Money (cents m + cents n)))"
    using nn s d by (auto simp: money_plus_def word_sless_alt amount_def Money_cases)
  show "amount m + amount n \<le> max_amount \<Longrightarrow>
      amount (Mk_Money (cents m + cents n)) = amount m + amount n"
    using s by (simp add: amount_def)
qed

lemma money_minus_cases:
  assumes "money_ok m" "money_ok n"
  shows "money_minus m n =
    (if amount m < amount n
     then Inl (Underflow_error ''Money: subtraction would go below zero'')
     else Inr (Mk_Money (cents m - cents n)))"
    and "amount n \<le> amount m \<Longrightarrow>
      amount (Mk_Money (cents m - cents n)) = amount m - amount n"
proof -
  have nn: "0 \<le> sint (cents m)" "0 \<le> sint (cents n)"
    using assms by (simp_all add: money_ok_def amount_def)
  have s: "sint (cents m - cents n) = sint (cents m) - sint (cents n)"
    if "sint (cents n) \<le> sint (cents m)"
    using that nn sint_i64_range [of "cents m"] by (subst sint_diff_i64) simp_all
  show "money_minus m n =
    (if amount m < amount n
     then Inl (Underflow_error ''Money: subtraction would go below zero'')
     else Inr (Mk_Money (cents m - cents n)))"
    using nn s by (auto simp: money_minus_def word_sless_alt amount_def Money_cases)
  show "amount n \<le> amount m \<Longrightarrow>
      amount (Mk_Money (cents m - cents n)) = amount m - amount n"
    using s by (simp add: amount_def)
qed

lemma money_plus_Inr:
  assumes "money_plus m n = Inr r" "money_ok m" "money_ok n"
  shows "amount r = amount m + amount n" "money_ok r"
  using assms money_plus_cases [of m n] by (auto simp: money_ok_def split: if_splits)

lemma money_minus_Inr:
  assumes "money_minus m n = Inr r" "money_ok m" "money_ok n"
  shows "amount r = amount m - amount n" "money_ok r"
  using assms money_minus_cases [of m n] by (auto simp: money_ok_def split: if_splits)

lemma money_minus_ok_iff:
  "money_ok m \<Longrightarrow> money_ok n \<Longrightarrow> (\<exists>r. money_minus m n = Inr r) \<longleftrightarrow> can_subtract m n"
  using money_minus_cases(1) [of m n] by (auto simp: can_subtract_iff)

section \<open>Formatting\<close>

text \<open>
  \<open>format_money\<close> of Transaction.cpp builds the text by concatenation; \<open>operator<<\<close> of
  Ostream.h streams the dollars, a point, a padding zero and the remainder. C++ division and
  remainder truncate towards zero.
\<close>

definition format_money :: "i64 \<Rightarrow> string" where
  "format_money c =
     ''$'' @ dec_of_int (sint c sdiv 100) @ ''.'' @
     (if sint c smod 100 < 10 then ''0'' else '''') @ dec_of_int (sint c smod 100)"

definition ostream_money :: "money \<Rightarrow> string" where
  "ostream_money m =
     (let remainder = sint (cents m) smod 100;
          os = [CHR ''$''] @ dec_of_int (sint (cents m) sdiv 100) @ [CHR ''.''];
          os = (if remainder < 10 then os @ [CHR ''0''] else os)
      in os @ dec_of_int remainder)"

lemma ostream_money_format: "ostream_money m = format_money (cents m)"
  by (simp add: ostream_money_def format_money_def Let_def)

section \<open>Properties\<close>

text \<open>
  C37: money arithmetic is exact or refused. For two amounts in range, addition returns the mathematical
  sum and subtraction the mathematical difference, both again in range; addition throws exactly when the
  sum exceeds the largest 64-bit signed value, and subtraction exactly when the result would be negative.
\<close>

theorem money_arithmetic_exact:
  assumes "money_ok m" "money_ok n"
  shows "(case money_plus m n of
            Inr r \<Rightarrow> money_ok r \<and> amount r = amount m + amount n
          | Inl e \<Rightarrow> e = Overflow_error ''Money: addition overflow'' \<and> max_amount < amount m + amount n) \<and>
         (case money_minus m n of
            Inr r \<Rightarrow> money_ok r \<and> amount r = amount m - amount n
          | Inl e \<Rightarrow> e = Underflow_error ''Money: subtraction would go below zero'' \<and> amount m < amount n)"
proof (rule conjI)
  show "case money_plus m n of
            Inr r \<Rightarrow> money_ok r \<and> amount r = amount m + amount n
          | Inl e \<Rightarrow> e = Overflow_error ''Money: addition overflow'' \<and> max_amount < amount m + amount n"
  proof (cases "money_plus m n")
    case (Inl e)
    then show ?thesis using money_plus_cases(1) [OF assms] by (simp split: if_splits)
  next
    case (Inr r)
    then show ?thesis using money_plus_Inr [OF Inr assms] by simp
  qed
  show "case money_minus m n of
            Inr r \<Rightarrow> money_ok r \<and> amount r = amount m - amount n
          | Inl e \<Rightarrow> e = Underflow_error ''Money: subtraction would go below zero'' \<and> amount m < amount n"
  proof (cases "money_minus m n")
    case (Inl e)
    then show ?thesis using money_minus_cases(1) [OF assms] by (simp split: if_splits)
  next
    case (Inr r)
    then show ?thesis using money_minus_Inr [OF Inr assms] by simp
  qed
qed

theorem money_arithmetic_exact_witness:
  "case money_plus (Mk_Money 500) (Mk_Money 250) of Inr r \<Rightarrow> amount r = 750 | Inl e \<Rightarrow> False"
  using money_arithmetic_exact [of "Mk_Money 500" "Mk_Money 250"]
  by (auto simp: money_ok_def amount_def split: sum.splits)

lemma dec_of_nat_two: "n < 100 \<Longrightarrow> length ((if n < 10 then ''0'' else '''') @ dec_of_nat n) = 2"
  by (subst dec_of_nat.simps, subst dec_of_nat.simps) auto

lemma dec_value_padded: "dec_value ((if n < 10 then ''0'' else '''') @ dec_of_nat n) = n"
  using dec_value_dec_of_nat [of n] by (simp add: dec_value_def)

text \<open>
  A formatted amount denotes the amount: a dollar sign, the dollars in decimal, a point and exactly two
  digits of cents, and reading the two numbers back gives the cents. The two formatters of the source,
  the concatenating one and the streaming one, produce the same text.
\<close>

theorem format_money_denotes:
  assumes "money_ok m"
  shows "\<exists>dollars rest. format_money (cents m) = ''$'' @ dollars @ ''.'' @ rest \<and>
    (\<forall>c \<in> set (dollars @ rest). is_dec c) \<and> length rest = 2 \<and>
    int (dec_value dollars * 100 + dec_value rest) = amount m \<and>
    ostream_money m = format_money (cents m)"
proof -
  define d r where "d = nat (amount m) div 100" and "r = nat (amount m) mod 100"
  define rest where "rest = (if r < 10 then ''0'' else '''') @ dec_of_nat r"
  have nn: "0 \<le> sint (cents m)" using assms by (simp add: money_ok_def amount_def)
  then have div: "sint (cents m) sdiv 100 = int d" "sint (cents m) smod 100 = int r"
    by (simp_all add: d_def r_def amount_def signed_divide_int_def signed_modulo_int_def sgn_if
        nat_div_distrib nat_mod_distrib zdiv_int zmod_int)
  have "format_money (cents m) = ''$'' @ dec_of_nat d @ ''.'' @ rest"
    by (simp add: format_money_def div dec_of_int_def rest_def)
  moreover have "\<forall>c \<in> set (dec_of_nat d @ rest). is_dec c"
    using dec_of_nat_digits [of d] dec_of_nat_digits [of r] by (auto simp: rest_def is_dec_def)
  moreover have "length rest = 2" unfolding rest_def by (rule dec_of_nat_two) (simp add: r_def)
  moreover have "int (dec_value (dec_of_nat d) * 100 + dec_value rest) = amount m"
    using nn unfolding rest_def dec_value_padded dec_value_dec_of_nat d_def r_def by (simp add: amount_def)
  ultimately show ?thesis using ostream_money_format by blast
qed

theorem format_money_denotes_witness:
  "\<exists>dollars rest. format_money 123405 = ''$'' @ dollars @ ''.'' @ rest \<and> length rest = 2 \<and>
    int (dec_value dollars * 100 + dec_value rest) = 123405"
  using format_money_denotes [of "Mk_Money 123405"] by (auto simp: money_ok_def amount_def)

end
