(* ===== verification/Bank_Account.thy ===== *)
theory Bank_Account
  imports Bank_Money
begin

text \<open>
  src/domain/Account.h: the account with its balance, status and optimistic version counter. A
  mutator that throws leaves the account as it was: every exception is raised before the first
  assignment, so the model returns only the exception.
\<close>

section \<open>State and operations\<close>

record account =
  acc_id :: account_id
  acc_owner_id :: customer_id
  acc_balance :: money
  acc_status :: account_status
  acc_version :: u64

definition account_deposit :: "account \<Rightarrow> money \<Rightarrow> exn + account" where
  "account_deposit a amt =
     (if cents amt = 0 then Inr a
      else bind_exn (money_plus (acc_balance a) amt)
             (\<lambda>b. Inr (a\<lparr>acc_balance := b, acc_version := acc_version a + 1\<rparr>)))"

definition can_withdraw :: "account \<Rightarrow> money \<Rightarrow> bool" where
  "can_withdraw a amt \<longleftrightarrow> acc_status a = Active \<and> can_subtract (acc_balance a) amt"

definition account_withdraw :: "account \<Rightarrow> money \<Rightarrow> exn + account" where
  "account_withdraw a amt =
     (if acc_status a \<noteq> Active
      then Inl (Domain_error ''Account: transaction refused on a frozen or closed account'')
      else if \<not> can_subtract (acc_balance a) amt
      then Inl (Domain_error ''Account: insufficient funds'')
      else bind_exn (money_minus (acc_balance a) amt)
             (\<lambda>b. Inr (a\<lparr>acc_balance := b, acc_version := acc_version a + 1\<rparr>)))"

definition set_status :: "account \<Rightarrow> account_status \<Rightarrow> account" where
  "set_status a s =
     (if acc_status a = s then a
      else a\<lparr>acc_status := s, acc_version := acc_version a + 1\<rparr>)"

section \<open>Invariant and behaviour\<close>

definition account_ok :: "account \<Rightarrow> bool" where
  "account_ok a \<longleftrightarrow> money_ok (acc_balance a)"

abbreviation funds :: "account \<Rightarrow> int" where "funds a \<equiv> amount (acc_balance a)"

text \<open>What no operation changes: identity and ownership.\<close>

definition same_identity :: "account \<Rightarrow> account \<Rightarrow> bool" where
  "same_identity a b \<longleftrightarrow> acc_id a = acc_id b \<and> acc_owner_id a = acc_owner_id b"

lemma same_identity_refl [simp]: "same_identity a a"
  by (simp add: same_identity_def)

lemma account_deposit_cases:
  assumes "account_ok a" "money_ok amt"
  shows "account_deposit a amt =
    (if amount amt = 0 then Inr a
     else if max_amount < funds a + amount amt
     then Inl (Overflow_error ''Money: addition overflow'')
     else Inr (a\<lparr>acc_balance := Mk_Money (cents (acc_balance a) + cents amt),
                 acc_version := acc_version a + 1\<rparr>))"
  using assms
  by (auto simp: account_deposit_def account_ok_def money_plus_cases cents_eq_0_iff)

lemma account_withdraw_cases:
  assumes "account_ok a" "money_ok amt"
  shows "account_withdraw a amt =
    (if acc_status a \<noteq> Active
     then Inl (Domain_error ''Account: transaction refused on a frozen or closed account'')
     else if funds a < amount amt then Inl (Domain_error ''Account: insufficient funds'')
     else Inr (a\<lparr>acc_balance := Mk_Money (cents (acc_balance a) - cents amt),
                 acc_version := acc_version a + 1\<rparr>))"
  using assms
  by (auto simp: account_withdraw_def account_ok_def money_minus_cases can_subtract_iff)

lemma account_deposit_Inr:
  assumes "account_deposit a amt = Inr a'" "account_ok a" "money_ok amt"
  shows "account_ok a'" "funds a' = funds a + amount amt" "same_identity a' a"
    "acc_status a' = acc_status a"
  using assms money_plus_cases(2) [of "acc_balance a" amt]
  by (auto simp: account_deposit_cases account_ok_def money_ok_def same_identity_def
      split: if_splits)

lemma account_withdraw_Inr:
  assumes "account_withdraw a amt = Inr a'" "account_ok a" "money_ok amt"
  shows "account_ok a'" "funds a' = funds a - amount amt" "same_identity a' a"
    "acc_status a' = acc_status a"
  using assms money_minus_cases(2) [of "acc_balance a" amt]
  by (auto simp: account_withdraw_cases account_ok_def money_ok_def same_identity_def
      split: if_splits)

lemma account_withdraw_Inr_iff:
  "account_ok a \<Longrightarrow> money_ok amt \<Longrightarrow>
     (\<exists>a'. account_withdraw a amt = Inr a') \<longleftrightarrow> can_withdraw a amt"
  by (auto simp: account_withdraw_cases can_withdraw_def can_subtract_iff)

lemma account_deposit_keeps_id: "account_deposit a amt = Inr a' \<Longrightarrow> acc_id a' = acc_id a"
  by (auto simp: account_deposit_def bind_exn_Inr_iff split: if_splits)

lemma account_withdraw_keeps_id: "account_withdraw a amt = Inr a' \<Longrightarrow> acc_id a' = acc_id a"
  by (auto simp: account_withdraw_def bind_exn_Inr_iff split: if_splits)

lemma set_status_simps [simp]:
  "acc_id (set_status a s) = acc_id a" "acc_owner_id (set_status a s) = acc_owner_id a"
  "acc_balance (set_status a s) = acc_balance a" "acc_status (set_status a s) = s"
  "account_ok (set_status a s) \<longleftrightarrow> account_ok a"
  by (simp_all add: set_status_def account_ok_def)

text \<open>
  Every mutation bumps the version by one, modulo its width; an operation that leaves the version
  alone leaves the whole account alone.
\<close>

lemma account_deposit_version:
  assumes "account_deposit a amt = Inr a'"
  shows "a' = a \<or> acc_version a' = acc_version a + 1"
  using assms by (cases "cents amt = 0") (auto simp: account_deposit_def bind_exn_Inr_iff)

lemma account_withdraw_version:
  assumes "account_withdraw a amt = Inr a'"
  shows "acc_version a' = acc_version a + 1"
  using assms by (auto simp: account_withdraw_def bind_exn_Inr_iff split: if_splits)

lemma set_status_version: "set_status a s = a \<or> acc_version (set_status a s) = acc_version a + 1"
  by (simp add: set_status_def)

section \<open>Property\<close>

text \<open>
  No withdrawal overdraws an account or touches a frozen one. For an account and an amount in range,
  \<open>withdraw\<close> throws exactly when \<open>can_withdraw\<close> is false (a status that is not active, or too little
  money); otherwise the balance drops by exactly the amount and stays in range, the version is one more,
  and identity, owner and status are unchanged.
\<close>

theorem withdraw_never_overdraws:
  assumes "account_ok a" "money_ok m"
  shows "case account_withdraw a m of
      Inl e \<Rightarrow> \<not> can_withdraw a m
    | Inr a' \<Rightarrow> can_withdraw a m \<and> acc_status a = Active \<and> account_ok a' \<and> 0 \<le> funds a' \<and>
        funds a' = funds a - amount m \<and> acc_version a' = acc_version a + 1 \<and>
        same_identity a' a \<and> acc_status a' = acc_status a"
proof (cases "account_withdraw a m")
  case (Inl e)
  then show ?thesis using account_withdraw_Inr_iff [OF assms] by auto
next
  case (Inr a')
  then have "can_withdraw a m" using account_withdraw_Inr_iff [OF assms] by blast
  then show ?thesis
    using Inr account_withdraw_Inr [OF Inr assms] account_withdraw_version [OF Inr]
    by (simp add: can_withdraw_def account_ok_def money_ok_def)
qed

theorem withdraw_never_overdraws_witness:
  "case account_withdraw \<lparr>acc_id = Id 7, acc_owner_id = Id 1, acc_balance = Mk_Money 500,
        acc_status = Active, acc_version = 3\<rparr> (Mk_Money 200) of
      Inl e \<Rightarrow> False | Inr a' \<Rightarrow> funds a' = 300 \<and> acc_version a' = 4"
  using withdraw_never_overdraws [of "\<lparr>acc_id = Id 7, acc_owner_id = Id 1, acc_balance = Mk_Money 500,
        acc_status = Active, acc_version = 3\<rparr>" "Mk_Money 200"]
  by (auto simp: account_ok_def money_ok_def amount_def can_withdraw_def can_subtract_def word_sle_eq
      split: sum.splits)

end
