(* ===== verification/Bank_Transaction.thy ===== *)
theory Bank_Transaction
  imports Bank_Account
begin

text \<open>
  src/domain/Transaction.h, Transaction.cpp, TransactionOps.h and TransactionOps.cpp: the three
  kinds of transaction, the flat record they are stored as, the bank's rules (\<open>validate\<close>) and
  their effect on the accounts (\<open>apply\<close>). A span of accounts is a list; the reference that
  \<open>require_account\<close> returns is a position in it, and a mutation through the reference updates
  that position. \<open>apply\<close> returns the span as it is left, also when it throws.
\<close>

section \<open>Transactions and their records\<close>

datatype transaction =
    Deposit account_id money
  | Withdraw account_id money
  | Transfer account_id account_id money

record transaction_record =
  rec_id :: transaction_id
  rec_timestamp :: time_point
  rec_type :: transaction_type
  rec_state :: transaction_state
  rec_from :: "account_id option"
  rec_to :: "account_id option"
  rec_amount :: money

fun type_of :: "transaction \<Rightarrow> transaction_type" where
  "type_of (Deposit _ _) = Type_Deposit"
| "type_of (Withdraw _ _) = Type_Withdraw"
| "type_of (Transfer _ _ _) = Type_Transfer"

fun amount_of :: "transaction \<Rightarrow> money" where
  "amount_of (Deposit _ m) = m"
| "amount_of (Withdraw _ m) = m"
| "amount_of (Transfer _ _ m) = m"

fun debit_account :: "transaction \<Rightarrow> account_id option" where
  "debit_account (Withdraw i _) = Some i"
| "debit_account (Transfer i _ _) = Some i"
| "debit_account (Deposit _ _) = None"

fun credit_account :: "transaction \<Rightarrow> account_id option" where
  "credit_account (Deposit i _) = Some i"
| "credit_account (Transfer _ i _) = Some i"
| "credit_account (Withdraw _ _) = None"

fun push_unique :: "account_id list \<Rightarrow> account_id option \<Rightarrow> account_id list" where
  "push_unique ids None = ids"
| "push_unique ids (Some i) = (if i \<in> set ids then ids else ids @ [i])"

definition involved_accounts :: "transaction \<Rightarrow> account_id list" where
  "involved_accounts t = push_unique (push_unique [] (debit_account t)) (credit_account t)"

definition project_transaction :: "time_point \<Rightarrow> transaction_id \<Rightarrow> transaction \<Rightarrow> transaction_record" where
  "project_transaction now i t =
     \<lparr>rec_id = i, rec_timestamp = now, rec_type = type_of t, rec_state = Pending,
      rec_from = debit_account t, rec_to = credit_account t, rec_amount = amount_of t\<rparr>"

definition materialize_transaction :: "transaction_record \<Rightarrow> exn + transaction" where
  "materialize_transaction r =
     (case rec_type r of
        Type_Deposit \<Rightarrow>
          (case rec_to r of
             None \<Rightarrow> Inl (Invalid_argument ''materialize: deposit record lacks a target'')
           | Some i \<Rightarrow> Inr (Deposit i (rec_amount r)))
      | Type_Withdraw \<Rightarrow>
          (case rec_from r of
             None \<Rightarrow> Inl (Invalid_argument ''materialize: withdraw record lacks a source'')
           | Some i \<Rightarrow> Inr (Withdraw i (rec_amount r)))
      | Type_Transfer \<Rightarrow>
          (case (rec_from r, rec_to r) of
             (Some i, Some j) \<Rightarrow> Inr (Transfer i j (rec_amount r))
           | _ \<Rightarrow> Inl (Invalid_argument ''materialize: transfer record lacks a leg'')))"

fun describe :: "transaction \<Rightarrow> string" where
  "describe (Deposit i m) =
     ''deposit account '' @ to_string_u64 (id_value i) @ '' += '' @ format_money (cents m)"
| "describe (Withdraw i m) =
     ''withdraw account '' @ to_string_u64 (id_value i) @ '' -= '' @ format_money (cents m)"
| "describe (Transfer i j m) =
     ''transfer '' @ format_money (cents m) @ '' account '' @
     to_string_u64 (id_value i) @ '' -> '' @ to_string_u64 (id_value j)"

lemma involved_accounts_simps [simp]:
  "involved_accounts (Deposit i m) = [i]"
  "involved_accounts (Withdraw i m) = [i]"
  "involved_accounts (Transfer i j m) = (if i = j then [i] else [i, j])"
  by (auto simp: involved_accounts_def)

lemma distinct_involved: "distinct (involved_accounts t)"
  by (cases t) auto

lemma involved_not_Nil [simp]: "involved_accounts t \<noteq> []"
  by (cases t) auto

lemma set_involved:
  "set (involved_accounts t) = set_option (debit_account t) \<union> set_option (credit_account t)"
  by (cases t) auto

section \<open>Rules and effects\<close>

fun find_account :: "account list \<Rightarrow> account_id \<Rightarrow> account option" where
  "find_account [] i = None"
| "find_account (a # as) i = (if acc_id a = i then Some a else find_account as i)"

fun require_account :: "account list \<Rightarrow> account_id \<Rightarrow> exn + nat" where
  "require_account [] i = Inl (Out_of_range ''apply: involved account missing from span'')"
| "require_account (a # as) i =
     (if acc_id a = i then Inr 0 else bind_exn (require_account as i) (\<lambda>n. Inr (Suc n)))"

fun validate :: "transaction \<Rightarrow> account list \<Rightarrow> bool" where
  "validate (Deposit i m) accounts =
     (case find_account accounts i of
        None \<Rightarrow> False
      | Some target \<Rightarrow> acc_status target = Active \<and> is_positive m)"
| "validate (Withdraw i m) accounts =
     (case find_account accounts i of
        None \<Rightarrow> False
      | Some source \<Rightarrow> is_positive m \<and> can_withdraw source m)"
| "validate (Transfer i j m) accounts =
     (if i = j \<or> \<not> is_positive m then False
      else case (find_account accounts i, find_account accounts j) of
             (Some debit, Some credit) \<Rightarrow>
               acc_status debit = Active \<and> acc_status credit = Active \<and>
               can_subtract (acc_balance debit) m
           | _ \<Rightarrow> False)"

text \<open>\<open>require_account(accounts, id).op(amount)\<close>: one mutation through the reference.\<close>

definition mutate_account ::
  "account list \<Rightarrow> account_id \<Rightarrow> (account \<Rightarrow> exn + account) \<Rightarrow> (exn + unit) \<times> account list" where
  "mutate_account accounts i f =
     (case require_account accounts i of
        Inl e \<Rightarrow> (Inl e, accounts)
      | Inr n \<Rightarrow>
          (case f (accounts ! n) of
             Inl e \<Rightarrow> (Inl e, accounts)
           | Inr a \<Rightarrow> (Inr (), accounts[n := a])))"

definition txn_apply :: "transaction \<Rightarrow> account list \<Rightarrow> (exn + unit) \<times> account list" where
  "txn_apply t accounts =
     (if \<not> validate t accounts
      then (Inl (Domain_error ''apply: transaction violates bank rules''), accounts)
      else case t of
             Deposit i m \<Rightarrow> mutate_account accounts i (\<lambda>a. account_deposit a m)
           | Withdraw i m \<Rightarrow> mutate_account accounts i (\<lambda>a. account_withdraw a m)
           | Transfer i j m \<Rightarrow>
               (case mutate_account accounts i (\<lambda>a. account_withdraw a m) of
                  (Inl e, debited) \<Rightarrow> (Inl e, debited)
                | (Inr _, debited) \<Rightarrow> mutate_account debited j (\<lambda>a. account_deposit a m)))"

section \<open>Lemmas on spans\<close>

definition accounts_ok :: "account list \<Rightarrow> bool" where
  "accounts_ok accounts \<longleftrightarrow> list_all account_ok accounts"

definition total_funds :: "account list \<Rightarrow> int" where
  "total_funds accounts = sum_list (map funds accounts)"

lemma find_account_Some: "find_account as i = Some a \<Longrightarrow> a \<in> set as \<and> acc_id a = i"
  by (induction as) (auto split: if_splits)

lemma find_account_None: "find_account as i = None \<longleftrightarrow> i \<notin> acc_id ` set as"
  by (induction as) auto

lemma require_account_Inr:
  "require_account as i = Inr n \<Longrightarrow> n < length as \<and> find_account as i = Some (as ! n)"
  by (induction as arbitrary: n) (auto simp: bind_exn_Inr_iff split: if_splits)

lemma require_account_cases:
  "(\<exists>n. require_account as i = Inr n) \<longleftrightarrow> find_account as i \<noteq> None"
  by (induction as) (auto simp: bind_exn_Inr_iff)

lemma require_account_found:
  assumes "find_account as i = Some a"
  obtains n where "require_account as i = Inr n" "n < length as" "as ! n = a"
proof -
  from assms require_account_cases [of as i] obtain n where n: "require_account as i = Inr n"
    by auto
  with assms require_account_Inr [OF n] show ?thesis by (auto intro: that)
qed

lemma find_account_update:
  assumes "n < length as" "acc_id a = acc_id (as ! n)" "acc_id (as ! n) \<noteq> j"
  shows "find_account (as[n := a]) j = find_account as j"
  using assms
proof (induction as arbitrary: n)
  case (Cons b bs)
  then show ?case by (cases n) auto
qed simp

lemma find_account_distinct:
  "distinct (map acc_id as) \<Longrightarrow> a \<in> set as \<Longrightarrow> find_account as (acc_id a) = Some a"
  by (induction as) force+

lemma sum_list_update_int:
  "n < length xs \<Longrightarrow> sum_list (xs[n := x]) = sum_list xs - xs ! n + (x :: int)"
  by (induction xs arbitrary: n) (auto split: nat.splits)

lemma total_funds_update:
  "n < length as \<Longrightarrow> total_funds (as[n := a]) = total_funds as - funds (as ! n) + funds a"
  by (simp add: total_funds_def map_update sum_list_update_int)

lemma accounts_ok_nth: "accounts_ok as \<Longrightarrow> n < length as \<Longrightarrow> account_ok (as ! n)"
  by (simp add: accounts_ok_def list_all_length)

lemma accounts_ok_update: "accounts_ok as \<Longrightarrow> account_ok a \<Longrightarrow> accounts_ok (as[n := a])"
  by (auto simp: accounts_ok_def list_all_iff dest!: set_update_subset_insert [THEN subsetD])

lemma accounts_ok_found: "accounts_ok as \<Longrightarrow> find_account as i = Some a \<Longrightarrow> account_ok a"
  by (auto simp: accounts_ok_def list_all_iff dest: find_account_Some)

text \<open>
  One mutation: either nothing changes and the exception is reported, or exactly the first account
  with that id is replaced by the result of the operation.
\<close>

lemma mutate_account_cases:
  obtains (missing) "find_account as i = None"
      "mutate_account as i f = (Inl (Out_of_range ''apply: involved account missing from span''), as)"
  | (throws) a e where "find_account as i = Some a" "f a = Inl e"
      "mutate_account as i f = (Inl e, as)"
  | (updated) n a where "n < length as" "find_account as i = Some (as ! n)" "f (as ! n) = Inr a"
      "mutate_account as i f = (Inr (), as[n := a])"
proof (cases "find_account as i")
  case None
  then have "require_account as i = Inl (Out_of_range ''apply: involved account missing from span'')"
    by (induction as) (auto split: if_splits)
  with None missing show ?thesis by (simp add: mutate_account_def)
next
  case (Some a)
  from require_account_found [OF Some] obtain n where
    n: "require_account as i = Inr n" "n < length as" "as ! n = a" .
  show ?thesis
  proof (cases "f a")
    case (Inl e)
    with Some n throws show ?thesis by (simp add: mutate_account_def)
  next
    case (Inr b)
    with Some n updated [of n b] show ?thesis by (simp add: mutate_account_def)
  qed
qed

lemma mutate_account_ids:
  assumes "\<And>a b. f a = Inr b \<Longrightarrow> acc_id b = acc_id a"
  shows "map acc_id (snd (mutate_account as i f)) = map acc_id as"
  by (cases rule: mutate_account_cases [of as i f])
    (auto simp: map_update assms list_update_same_conv)

text \<open>With distinct ids, the account with the id is the only one that differs.\<close>

lemma mutate_account_pointwise:
  assumes "mutate_account as i f = (Inr (), as')" "distinct (map acc_id as)"
  shows "list_all2 (\<lambda>a a'. if acc_id a = i then f a = Inr a' else a' = a) as as'"
  using assms(1)
proof (cases rule: mutate_account_cases [of as i f])
  case (updated n a)
  with assms(1) have as': "as' = as[n := a]" by simp
  from updated(2) have i: "acc_id (as ! n) = i" by (auto dest: find_account_Some)
  have "acc_id (as ! k) \<noteq> i" if "k < length as" "k \<noteq> n" for k
    using that assms(2) updated(1) i by (auto simp: distinct_conv_nth)
  then show ?thesis
    using updated(1,3) i by (auto simp: as' list_all2_conv_all_nth nth_list_update)
qed simp_all

lemma mutate_account_success:
  assumes "find_account as i = Some a" "f a = Inr b"
  shows "\<exists>as'. mutate_account as i f = (Inr (), as')"
  using assms by (cases rule: mutate_account_cases [of as i f]) auto

lemma mutate_account_throws:
  assumes "find_account as i = Some a" "f a = Inl e"
  shows "mutate_account as i f = (Inl e, as)"
  using assms by (cases rule: mutate_account_cases [of as i f]) auto

lemma mutate_account_find_other:
  assumes "mutate_account as i f = (Inr (), as')" "\<And>a b. f a = Inr b \<Longrightarrow> acc_id b = acc_id a" "i \<noteq> j"
  shows "find_account as' j = find_account as j"
  using assms(1)
proof (cases rule: mutate_account_cases [of as i f])
  case (updated n a)
  with assms show ?thesis
    by (auto dest!: find_account_Some intro!: find_account_update)
qed simp_all

section \<open>What a transaction does\<close>

text \<open>
  The abstract effect of a transaction on one account: the change of its funds, and the relation
  between the account before and after. Accounts the transaction does not name are equal.
\<close>

definition txn_delta :: "transaction \<Rightarrow> account_id \<Rightarrow> int" where
  "txn_delta t i =
     (if credit_account t = Some i then amount (amount_of t) else 0) -
     (if debit_account t = Some i then amount (amount_of t) else 0)"

definition posted :: "transaction \<Rightarrow> account \<Rightarrow> account \<Rightarrow> bool" where
  "posted t a a' \<longleftrightarrow>
     (if acc_id a \<in> set (involved_accounts t)
      then same_identity a' a \<and> acc_status a' = acc_status a \<and> account_ok a' \<and>
           funds a' = funds a + txn_delta t (acc_id a) \<and> acc_version a' = acc_version a + 1
      else a' = a)"

definition credit_overflows :: "transaction \<Rightarrow> account list \<Rightarrow> bool" where
  "credit_overflows t as \<longleftrightarrow>
     (case credit_account t of
        None \<Rightarrow> False
      | Some i \<Rightarrow>
          (case find_account as i of
             None \<Rightarrow> False
           | Some a \<Rightarrow> max_amount < funds a + amount (amount_of t)))"

lemma deposit_posts:
  assumes "account_deposit a m = Inr a'" "account_ok a" "money_ok m" "is_positive m"
  shows "same_identity a' a \<and> acc_status a' = acc_status a \<and> account_ok a' \<and>
    funds a' = funds a + amount m \<and> acc_version a' = acc_version a + 1"
  using account_deposit_Inr [OF assms(1-3)] account_deposit_version [OF assms(1)] assms(4)
  by (auto simp: is_positive_iff)

lemma withdraw_posts:
  assumes "account_withdraw a m = Inr a'" "account_ok a" "money_ok m"
  shows "same_identity a' a \<and> acc_status a' = acc_status a \<and> account_ok a' \<and>
    funds a' = funds a - amount m \<and> acc_version a' = acc_version a + 1"
  using account_withdraw_Inr [OF assms] account_withdraw_version [OF assms(1)] by simp

lemma deposit_succeeds:
  assumes "account_ok a" "money_ok m" "funds a + amount m \<le> max_amount"
  shows "\<exists>a'. account_deposit a m = Inr a'"
  using assms by (auto simp: account_deposit_cases)

lemma deposit_overflows:
  assumes "account_ok a" "money_ok m" "max_amount < funds a + amount m"
  shows "account_deposit a m = Inl (Overflow_error ''Money: addition overflow'')"
  using assms amount_le_max [of "acc_balance a"] by (auto simp: account_deposit_cases)

lemma validate_amount: "validate t as \<Longrightarrow> is_positive (amount_of t)"
  by (cases t) (auto split: option.splits if_splits)

lemma validate_debit:
  assumes "validate t as" "debit_account t = Some i"
  shows "\<exists>a. find_account as i = Some a \<and> can_withdraw a (amount_of t)"
  using assms by (cases t) (auto simp: can_withdraw_def split: option.splits if_splits)

lemma validate_credit:
  assumes "validate t as" "credit_account t = Some i"
  shows "\<exists>a. find_account as i = Some a \<and> acc_status a = Active"
  using assms by (cases t) (auto split: option.splits if_splits)

lemma validate_distinct_legs: "validate (Transfer i j m) as \<Longrightarrow> i \<noteq> j"
  by auto

lemma withdraw_validated:
  assumes "validate t as" "debit_account t = Some i" "accounts_ok as" "money_ok (amount_of t)"
  shows "\<exists>as'. mutate_account as i (\<lambda>a. account_withdraw a (amount_of t)) = (Inr (), as')"
proof -
  obtain a where a: "find_account as i = Some a" "can_withdraw a (amount_of t)"
    using validate_debit [OF assms(1,2)] by blast
  then obtain b where "account_withdraw a (amount_of t) = Inr b"
    using account_withdraw_Inr_iff accounts_ok_found assms(3,4) by blast
  with a show ?thesis by (intro mutate_account_success)
qed

lemma deposit_list_posted:
  assumes "mutate_account as i (\<lambda>a. account_deposit a m) = (Inr (), as')"
    and "accounts_ok as" "distinct (map acc_id as)" "money_ok m" "is_positive m"
  shows "list_all2 (posted (Deposit i m)) as as'"
  using mutate_account_pointwise [OF assms(1,3)] deposit_posts [OF _ _ assms(4,5)]
    accounts_ok_nth [OF assms(2)]
  by (auto simp: list_all2_conv_all_nth posted_def txn_delta_def split: if_splits)

lemma withdraw_list_posted:
  assumes "mutate_account as i (\<lambda>a. account_withdraw a m) = (Inr (), as')"
    and "accounts_ok as" "distinct (map acc_id as)" "money_ok m"
  shows "list_all2 (posted (Withdraw i m)) as as'"
  using mutate_account_pointwise [OF assms(1,3)] withdraw_posts [OF _ _ assms(4)]
    accounts_ok_nth [OF assms(2)]
  by (auto simp: list_all2_conv_all_nth posted_def txn_delta_def split: if_splits)

lemma posted_ok: "posted t a a' \<Longrightarrow> account_ok a \<Longrightarrow> account_ok a'"
  by (auto simp: posted_def split: if_splits)

lemma posted_id: "posted t a a' \<Longrightarrow> acc_id a' = acc_id a"
  by (auto simp: posted_def same_identity_def split: if_splits)

lemma list_posted_ids: "list_all2 (posted t) as as' \<Longrightarrow> map acc_id as' = map acc_id as"
  by (induction rule: list_all2_induct) (auto dest: posted_id)

lemma list_posted_ok: "list_all2 (posted t) as as' \<Longrightarrow> accounts_ok as \<Longrightarrow> accounts_ok as'"
  by (induction rule: list_all2_induct) (auto simp: accounts_ok_def dest: posted_ok)

lemma posted_transfer:
  assumes "posted (Withdraw i m) a b" "posted (Deposit j m) b c" "i \<noteq> j"
  shows "posted (Transfer i j m) a c"
  using assms by (auto simp: posted_def same_identity_def txn_delta_def split: if_splits)

lemma list_posted_transfer:
  assumes "list_all2 (posted (Withdraw i m)) as bs" "list_all2 (posted (Deposit j m)) bs cs" "i \<noteq> j"
  shows "list_all2 (posted (Transfer i j m)) as cs"
  using list_all2_trans [OF _ assms(1,2)] posted_transfer [OF _ _ assms(3)] by blast

text \<open>
  The debit leg of a validated transfer always succeeds and leaves the credited account as it was.
\<close>

lemma transfer_debit:
  assumes "validate (Transfer i j m) as" "accounts_ok as" "distinct (map acc_id as)" "money_ok m"
  obtains bs where "mutate_account as i (\<lambda>a. account_withdraw a m) = (Inr (), bs)"
    "list_all2 (posted (Withdraw i m)) as bs" "accounts_ok bs" "distinct (map acc_id bs)"
    "find_account bs j = find_account as j"
proof -
  from withdraw_validated [OF assms(1) _ assms(2)] assms(4) obtain bs where
    bs: "mutate_account as i (\<lambda>a. account_withdraw a m) = (Inr (), bs)" by auto
  have posted: "list_all2 (posted (Withdraw i m)) as bs"
    using withdraw_list_posted [OF bs assms(2-4)] .
  have "find_account bs j = find_account as j"
    using validate_distinct_legs [OF assms(1)]
    by (intro mutate_account_find_other [OF bs]) (auto dest: account_withdraw_keeps_id)
  with that bs posted show ?thesis
    using list_posted_ok [OF posted assms(2)] list_posted_ids [OF posted] assms(3) by metis
qed

text \<open>A valid transaction whose credit fits is posted to every account.\<close>

lemma txn_apply_posts:
  assumes "validate t as" "\<not> credit_overflows t as" "accounts_ok as" "distinct (map acc_id as)"
    "money_ok (amount_of t)"
  shows "\<exists>as'. txn_apply t as = (Inr (), as') \<and> list_all2 (posted t) as as'"
proof -
  have credit: "\<exists>bs'. mutate_account bs j (\<lambda>a. account_deposit a m) = (Inr (), bs') \<and>
      list_all2 (posted (Deposit j m)) bs bs'"
    if j: "credit_account t = Some j" and found: "find_account bs j = find_account as j"
      and m: "m = amount_of t" and ok: "accounts_ok bs" and dist: "distinct (map acc_id bs)"
    for bs j m
  proof -
    obtain a where a: "find_account bs j = Some a"
      using validate_credit [OF assms(1) j] found by auto
    then have "funds a + amount m \<le> max_amount"
      using assms(2) j m a [unfolded found] by (simp add: credit_overflows_def)
    then obtain b where "account_deposit a m = Inr b"
      using deposit_succeeds accounts_ok_found [OF ok a] m assms(5) by blast
    then show ?thesis
      using mutate_account_success [where f = "\<lambda>a. account_deposit a m", OF a]
        deposit_list_posted [OF _ ok dist] m assms(5) validate_amount [OF assms(1)]
      by blast
  qed
  show ?thesis
  proof (cases t)
    case (Deposit i m)
    then obtain as' where
      "mutate_account as i (\<lambda>a. account_deposit a m) = (Inr (), as')"
      "list_all2 (posted (Deposit i m)) as as'"
      using credit [OF _ refl _ assms(3,4), of i] by (metis amount_of.simps(1) credit_account.simps(1))
    with Deposit assms(1) show ?thesis by (simp add: txn_apply_def del: validate.simps)
  next
    case (Withdraw i m)
    with withdraw_validated [OF assms(1) _ assms(3,5)] obtain as' where
      w: "mutate_account as i (\<lambda>a. account_withdraw a m) = (Inr (), as')" by auto
    have "list_all2 (posted (Withdraw i m)) as as'"
      using withdraw_list_posted [OF w assms(3,4)] assms(5) Withdraw by simp
    with w Withdraw assms(1) show ?thesis by (simp add: txn_apply_def del: validate.simps)
  next
    case (Transfer i j m)
    obtain bs where
      bs: "mutate_account as i (\<lambda>a. account_withdraw a m) = (Inr (), bs)"
        "list_all2 (posted (Withdraw i m)) as bs" "accounts_ok bs" "distinct (map acc_id bs)"
        "find_account bs j = find_account as j"
      using transfer_debit [of i j m as] assms Transfer by auto
    from credit [OF _ bs(5) _ bs(3,4), of m] Transfer obtain cs where
      cs: "mutate_account bs j (\<lambda>a. account_deposit a m) = (Inr (), cs)"
        "list_all2 (posted (Deposit j m)) bs cs"
      by (metis amount_of.simps(3) credit_account.simps(2))
    have "i \<noteq> j" using validate_distinct_legs assms(1) Transfer by blast
    then have "list_all2 (posted (Transfer i j m)) as cs"
      using list_posted_transfer bs(2) cs(2) by blast
    with bs(1) cs(1) assms(1) Transfer show ?thesis
      by (simp add: txn_apply_def del: validate.simps)
  qed
qed

text \<open>
  The one exception a valid transaction can still raise is the overflow of the credited balance.
  A deposit then leaves the span alone; a transfer leaves the debit in it.
\<close>

lemma credit_leg_overflows:
  assumes "validate t as" "credit_overflows t as" "accounts_ok bs" "money_ok (amount_of t)"
    "credit_account t = Some j" "find_account bs j = find_account as j"
  shows "mutate_account bs j (\<lambda>a. account_deposit a (amount_of t)) =
    (Inl (Overflow_error ''Money: addition overflow''), bs)"
proof -
  obtain a where a: "find_account bs j = Some a"
    using validate_credit [OF assms(1,5)] assms(6) by auto
  have "max_amount < funds a + amount (amount_of t)"
    using assms(2,5) a [unfolded assms(6)] by (simp add: credit_overflows_def)
  then show ?thesis
    using deposit_overflows [OF accounts_ok_found [OF assms(3) a] assms(4)]
    by (intro mutate_account_throws [OF a])
qed

lemma txn_apply_overflow:
  assumes "validate t as" "credit_overflows t as" "accounts_ok as" "distinct (map acc_id as)"
    "money_ok (amount_of t)"
  shows "\<exists>as'. txn_apply t as = (Inl (Overflow_error ''Money: addition overflow''), as') \<and>
    (case debit_account t of
       None \<Rightarrow> as' = as
     | Some i \<Rightarrow> list_all2 (posted (Withdraw i (amount_of t))) as as')"
proof (cases t)
  case (Deposit i m)
  with credit_leg_overflows [OF assms(1,2,3,5)] assms(1) show ?thesis
    by (simp add: txn_apply_def del: validate.simps)
next
  case (Withdraw i m)
  with assms(2) show ?thesis by (simp add: credit_overflows_def)
next
  case (Transfer i j m)
  obtain bs where
    bs: "mutate_account as i (\<lambda>a. account_withdraw a m) = (Inr (), bs)"
      "list_all2 (posted (Withdraw i m)) as bs" "accounts_ok bs" "find_account bs j = find_account as j"
    using transfer_debit [of i j m as] assms Transfer by auto
  with credit_leg_overflows [OF assms(1,2) bs(3) assms(5)] assms(1) Transfer show ?thesis
    by (simp add: txn_apply_def del: validate.simps)
qed

lemma txn_apply_rejects:
  "\<not> validate t as \<Longrightarrow>
     txn_apply t as = (Inl (Domain_error ''apply: transaction violates bank rules''), as)"
  by (simp add: txn_apply_def)

section \<open>Properties\<close>

text \<open>
  \<open>apply\<close> on every branch. On accounts in range with distinct ids and an amount in range: an invalid
  transaction is refused with a domain error and changes nothing; a valid one whose credit would exceed
  the largest amount fails with an overflow error; every other valid one succeeds, and then each account
  it names has moved by exactly its share, with one version step and everything else unchanged, while all
  other accounts are untouched.
\<close>

theorem apply_branches:
  assumes "accounts_ok accts" "distinct (map acc_id accts)" "money_ok (amount_of t)"
  shows "case txn_apply t accts of
      (Inr _, accts') \<Rightarrow> validate t accts \<and> \<not> credit_overflows t accts \<and> list_all2 (posted t) accts accts'
    | (Inl e, accts') \<Rightarrow>
        (\<not> validate t accts \<and> e = Domain_error ''apply: transaction violates bank rules'' \<and> accts' = accts) \<or>
        (validate t accts \<and> credit_overflows t accts \<and> e = Overflow_error ''Money: addition overflow'')"
proof (cases "validate t accts")
  case False
  then show ?thesis by (simp add: txn_apply_rejects)
next
  case True
  show ?thesis
  proof (cases "credit_overflows t accts")
    case overflow: True
    show ?thesis using txn_apply_overflow [OF True overflow assms] True overflow by auto
  next
    case False
    show ?thesis using txn_apply_posts [OF True False assms] True False by auto
  qed
qed

theorem apply_branches_witness:
  "case txn_apply (Transfer (Id 1) (Id 2) (Mk_Money 300))
      [\<lparr>acc_id = Id 1, acc_owner_id = Id 1, acc_balance = Mk_Money 500, acc_status = Active, acc_version = 0\<rparr>,
       \<lparr>acc_id = Id 2, acc_owner_id = Id 2, acc_balance = Mk_Money 0, acc_status = Active, acc_version = 0\<rparr>] of
      (Inr _, accts') \<Rightarrow> map funds accts' = [200, 300] | (Inl e, accts') \<Rightarrow> False"
  using apply_branches [of
      "[\<lparr>acc_id = Id 1, acc_owner_id = Id 1, acc_balance = Mk_Money 500, acc_status = Active, acc_version = 0\<rparr>,
        \<lparr>acc_id = Id 2, acc_owner_id = Id 2, acc_balance = Mk_Money 0, acc_status = Active, acc_version = 0\<rparr>]"
      "Transfer (Id 1) (Id 2) (Mk_Money 300)"]
  by (auto simp: accounts_ok_def account_ok_def money_ok_def amount_def is_positive_def can_withdraw_def
      can_subtract_def word_sle_eq word_sless_alt credit_overflows_def list_all2_Cons1 posted_def txn_delta_def
      split: prod.splits sum.splits)

text \<open>
  Alone, \<open>apply\<close> of a transfer is not atomic. When the credit of a valid transfer overflows, the
  span the caller passed has already been debited: the debit leg is posted and the credit leg is not. The
  caller must throw the span away, as the processor does.
\<close>

theorem apply_overflow_leaves_debit:
  assumes "validate (Transfer i j m) accts" "credit_overflows (Transfer i j m) accts"
    "accounts_ok accts" "distinct (map acc_id accts)" "money_ok m"
  shows "\<exists>accts'. txn_apply (Transfer i j m) accts = (Inl (Overflow_error ''Money: addition overflow''), accts') \<and>
    list_all2 (posted (Withdraw i m)) accts accts'"
  using txn_apply_overflow [OF assms(1-4)] assms(5) by simp

theorem apply_overflow_leaves_debit_witness:
  "\<exists>accts'. txn_apply (Transfer (Id 1) (Id 2) (Mk_Money 300))
      [\<lparr>acc_id = Id 1, acc_owner_id = Id 1, acc_balance = Mk_Money 500, acc_status = Active, acc_version = 0\<rparr>,
       \<lparr>acc_id = Id 2, acc_owner_id = Id 2, acc_balance = Mk_Money 9223372036854775807, acc_status = Active,
        acc_version = 0\<rparr>] = (Inl (Overflow_error ''Money: addition overflow''), accts') \<and> funds (accts' ! 0) = 200"
  using apply_overflow_leaves_debit [of "Id 1" "Id 2" "Mk_Money 300"
      "[\<lparr>acc_id = Id 1, acc_owner_id = Id 1, acc_balance = Mk_Money 500, acc_status = Active, acc_version = 0\<rparr>,
       \<lparr>acc_id = Id 2, acc_owner_id = Id 2, acc_balance = Mk_Money 9223372036854775807, acc_status = Active,
        acc_version = 0\<rparr>]"]
  by (auto simp: accounts_ok_def account_ok_def money_ok_def amount_def is_positive_def can_withdraw_def
      can_subtract_def word_sle_eq word_sless_alt credit_overflows_def list_all2_Cons1 posted_def txn_delta_def)

text \<open>
  Materializing the projection of a transaction gives the transaction back, whatever id and time the
  record carries and through every state it passes.
\<close>

theorem materialize_project:
  "materialize_transaction ((project_transaction now i t)\<lparr>rec_state := st\<rparr>) = Inr t"
  by (cases t) (simp_all add: materialize_transaction_def project_transaction_def)

end
