(* ===== verification/Bank_Json.thy ===== *)
theory Bank_Json
  imports Bank_Core
begin

text \<open>
  src/persistence/Json.h and Json.cpp: the JSON value, its canonical dump and the recursive-descent
  parser. The parser's state is the text that is left (\<open>text_\<close>); every method returns the value
  and the text it leaves, or \<open>None\<close> where the source returns \<open>nullopt\<close>.
  The parser is a total function: that every method leaves less text than it was given is proved
  together with its termination.
\<close>

section \<open>Values\<close>

text \<open>
  A \<open>Value\<close> of one type leaves the fields of the other types at their defaults and keeps them
  private, so a tagged union models it; the accessors return the defaults.
\<close>

datatype json =
    JNull
  | JInteger i64
  | JString string
  | JArray "json list"
  | JObject "(string \<times> json) list"

datatype json_kind = Null_type | Integer_type | String_type | Array_type | Object_type

fun json_type :: "json \<Rightarrow> json_kind" where
  "json_type JNull = Null_type"
| "json_type (JInteger _) = Integer_type"
| "json_type (JString _) = String_type"
| "json_type (JArray _) = Array_type"
| "json_type (JObject _) = Object_type"

fun as_integer :: "json \<Rightarrow> i64 option" where
  "as_integer (JInteger i) = Some i"
| "as_integer _ = None"

fun as_string :: "json \<Rightarrow> string option" where
  "as_string (JString s) = Some s"
| "as_string _ = None"

fun json_items :: "json \<Rightarrow> json list" where
  "json_items (JArray xs) = xs"
| "json_items _ = []"

fun json_members :: "json \<Rightarrow> (string \<times> json) list" where
  "json_members (JObject ms) = ms"
| "json_members _ = []"

definition json_size :: "json \<Rightarrow> nat" where
  "json_size v =
     (if json_type v = Array_type then length (json_items v)
      else if json_type v = Object_type then length (json_members v)
      else 0)"

fun find_member :: "(string \<times> json) list \<Rightarrow> string \<Rightarrow> json option" where
  "find_member [] key = None"
| "find_member ((k, v) # ms) key = (if k = key then Some v else find_member ms key)"

definition json_find :: "json \<Rightarrow> string \<Rightarrow> json option" where
  "json_find v key = find_member (json_members v) key"

fun set_member :: "(string \<times> json) list \<Rightarrow> string \<Rightarrow> json \<Rightarrow> (string \<times> json) list" where
  "set_member [] key child = [(key, child)]"
| "set_member ((k, v) # ms) key child =
     (if k = key then (k, child) # ms else (k, v) # set_member ms key child)"

definition json_set :: "json \<Rightarrow> string \<Rightarrow> json \<Rightarrow> exn + json" where
  "json_set v key child =
     (if json_type v \<noteq> Object_type then Inl (Logic_error ''Value::set on a non-object'')
      else Inr (JObject (set_member (json_members v) key child)))"

definition json_push :: "json \<Rightarrow> json \<Rightarrow> exn + json" where
  "json_push v child =
     (if json_type v \<noteq> Array_type then Inl (Logic_error ''Value::push on a non-array'')
      else Inr (JArray (json_items v @ [child])))"

section \<open>Dump\<close>

definition escape_char :: "char \<Rightarrow> string" where
  "escape_char c =
     (if c = CHR 0x22 then [CHR 0x5C, CHR 0x22]
      else if c = CHR 0x5C then [CHR 0x5C, CHR 0x5C]
      else if c = CHR 0x08 then [CHR 0x5C, CHR ''b'']
      else if c = CHR 0x0C then [CHR 0x5C, CHR ''f'']
      else if c = CHR 0x0A then [CHR 0x5C, CHR ''n'']
      else if c = CHR 0x0D then [CHR 0x5C, CHR ''r'']
      else if c = CHR 0x09 then [CHR 0x5C, CHR ''t'']
      else if code c < 32
      then [CHR 0x5C, CHR ''u'', CHR ''0'', CHR ''0'', hex_digit (code c div 16), hex_digit (code c mod 16)]
      else [c])"

text \<open>The functions below return what the source appends to \<open>out\<close>.\<close>

definition append_escaped :: "string \<Rightarrow> string" where
  "append_escaped text = [CHR 0x22] @ concat (map escape_char text) @ [CHR 0x22]"

fun dump_into :: "json \<Rightarrow> string"
  and dump_items :: "bool \<Rightarrow> json list \<Rightarrow> string"
  and dump_members :: "bool \<Rightarrow> (string \<times> json) list \<Rightarrow> string" where
  "dump_into JNull = ''null''"
| "dump_into (JInteger i) = to_string_i64 i"
| "dump_into (JString s) = append_escaped s"
| "dump_into (JArray xs) = ''['' @ dump_items True xs @ '']''"
| "dump_into (JObject ms) = ''{'' @ dump_members True ms @ ''}''"
| "dump_items first [] = []"
| "dump_items first (x # xs) =
     (if first then [] else '','') @ dump_into x @ dump_items False xs"
| "dump_members first [] = []"
| "dump_members first ((k, v) # ms) =
     (if first then [] else '','') @ append_escaped k @ '':'' @ dump_into v @ dump_members False ms"

definition json_dump :: "json \<Rightarrow> string" where
  "json_dump v = dump_into v"

section \<open>Parser\<close>

unbundle bit_operations_syntax

definition append_utf8 :: "nat \<Rightarrow> string" where
  "append_utf8 cp =
     (if cp \<le> 0x7F then [char_of cp]
      else if cp \<le> 0x7FF
      then [char_of (0xC0 OR drop_bit 6 cp), char_of (0x80 OR (cp AND 0x3F))]
      else if cp \<le> 0xFFFF
      then [char_of (0xE0 OR drop_bit 12 cp), char_of (0x80 OR (drop_bit 6 cp AND 0x3F)),
            char_of (0x80 OR (cp AND 0x3F))]
      else [char_of (0xF0 OR drop_bit 18 cp), char_of (0x80 OR (drop_bit 12 cp AND 0x3F)),
            char_of (0x80 OR (drop_bit 6 cp AND 0x3F)), char_of (0x80 OR (cp AND 0x3F))])"

definition peek :: "char \<Rightarrow> string \<Rightarrow> bool" where
  "peek c s \<longleftrightarrow> s \<noteq> [] \<and> hd s = c"

lemma peek_simps [simp]: "\<not> peek c []" "peek c (d # s) \<longleftrightarrow> d = c"
  by (auto simp: peek_def)

definition is_space :: "char \<Rightarrow> bool" where
  "is_space c \<longleftrightarrow> c = CHR '' '' \<or> c = CHR 0x09 \<or> c = CHR 0x0A \<or> c = CHR 0x0D"

fun skip_whitespace :: "string \<Rightarrow> string" where
  "skip_whitespace [] = []"
| "skip_whitespace (c # s) = (if is_space c then skip_whitespace s else c # s)"

definition parse_keyword :: "string \<Rightarrow> json \<Rightarrow> string \<Rightarrow> (json \<times> string) option" where
  "parse_keyword keyword v s =
     (if length s < length keyword \<or> take (length keyword) s \<noteq> keyword then None
      else Some (v, drop (length keyword) s))"

text \<open>
  The digit loop. The guard \<open>value > (max - digit) / 10\<close> is evaluated on non-negative numbers,
  so the truncating division is \<open>div\<close> on the value read as an integer.
\<close>

fun parse_digits :: "i64 \<Rightarrow> string \<Rightarrow> (i64 \<times> string) option" where
  "parse_digits v [] = Some (v, [])"
| "parse_digits v (c # s) =
     (if is_dec c then
        (let digit = of_nat (code c - 48) :: i64
         in if (9223372036854775807 - sint digit) sdiv 10 < sint v then None
            else parse_digits (v * 10 + digit) s)
      else Some (v, c # s))"

definition parse_integer :: "string \<Rightarrow> (json \<times> string) option" where
  "parse_integer s =
     (let negative = peek (CHR ''-'') s;
          s = (if negative then tl s else s)
      in if s = [] \<or> \<not> is_dec (hd s) then None
         else case parse_digits 0 s of
                None \<Rightarrow> None
              | Some (v, s) \<Rightarrow> Some (JInteger (if negative then - v else v), s))"

definition hex4 :: "char \<Rightarrow> char \<Rightarrow> char \<Rightarrow> char \<Rightarrow> nat option" where
  "hex4 a b c d =
     (case (hex_nibble a, hex_nibble b, hex_nibble c, hex_nibble d) of
        (Some h1, Some h2, Some h3, Some h4) \<Rightarrow> Some (((h1 * 16 + h2) * 16 + h3) * 16 + h4)
      | _ \<Rightarrow> None)"

text \<open>The character an escape other than \<open>\u\<close> stands for.\<close>

definition simple_escape :: "char \<Rightarrow> char option" where
  "simple_escape e =
     (if e = CHR 0x22 then Some (CHR 0x22)
      else if e = CHR 0x5C then Some (CHR 0x5C)
      else if e = CHR ''/'' then Some (CHR ''/'')
      else if e = CHR ''b'' then Some (CHR 0x08)
      else if e = CHR ''f'' then Some (CHR 0x0C)
      else if e = CHR ''n'' then Some (CHR 0x0A)
      else if e = CHR ''r'' then Some (CHR 0x0D)
      else if e = CHR ''t'' then Some (CHR 0x09)
      else None)"

text \<open>The body of \<open>parse_string\<close> after the opening quote; \<open>out\<close> is the text read so far.\<close>

fun string_body :: "string \<Rightarrow> string \<Rightarrow> (string \<times> string) option" where
  "string_body out [] = None"
| "string_body out (c # s) =
     (if c = CHR 0x22 then Some (out, s)
      else if c \<noteq> CHR 0x5C then string_body (out @ [c]) s
      else case s of
             [] \<Rightarrow> None
           | e # s \<Rightarrow>
               (if e = CHR ''u'' then
                  (case s of
                     h1 # h2 # h3 # h4 # s \<Rightarrow>
                       (case hex4 h1 h2 h3 h4 of
                          None \<Rightarrow> None
                        | Some cp \<Rightarrow>
                            (if 0xD800 \<le> cp \<and> cp \<le> 0xDFFF then None
                             else string_body (out @ append_utf8 cp) s))
                   | _ \<Rightarrow> None)
                else case simple_escape e of
                       None \<Rightarrow> None
                     | Some d \<Rightarrow> string_body (out @ [d]) s))"

definition parse_string :: "string \<Rightarrow> (json \<times> string) option" where
  "parse_string s =
     (case string_body [] (tl s) of None \<Rightarrow> None | Some (out, s) \<Rightarrow> Some (JString out, s))"

text \<open>What each reader leaves is no longer than what it was given.\<close>

lemma length_skip_whitespace: "length (skip_whitespace s) \<le> length s"
  by (induction s) auto

lemma skip_whitespace_Cons: "skip_whitespace s = c # r \<Longrightarrow> length r < length s"
  using length_skip_whitespace [of s] by simp

lemma length_tl_peek: "peek c s \<Longrightarrow> length (tl s) < length s"
  by (cases s) (auto simp: peek_def)

lemma parse_digits_length: "parse_digits v s = Some (w, r) \<Longrightarrow> length r \<le> length s"
  by (induction v s rule: parse_digits.induct) (auto simp: Let_def split: if_splits)

lemma parse_integer_length:
  assumes "parse_integer s = Some (v, r)"
  shows "length r < length s"
proof -
  define s' where "s' = (if peek (CHR ''-'') s then tl s else s)"
  have s': "length s' \<le> length s" by (simp add: s'_def)
  from assms obtain w where w: "s' \<noteq> []" "is_dec (hd s')" "parse_digits 0 s' = Some (w, r)"
    by (auto simp: parse_integer_def Let_def s'_def split: if_splits option.splits)
  from w(1) obtain c t where ct: "s' = c # t" by (cases s') auto
  with w have "length r \<le> length t"
    by (auto simp: Let_def split: if_splits dest: parse_digits_length)
  with ct s' show ?thesis by simp
qed

lemma string_body_length: "string_body out s = Some (t, r) \<Longrightarrow> length r < length s"
proof (induction "length s" arbitrary: out s rule: less_induct)
  case less
  then show ?case
    by (cases "(out, s)" rule: string_body.cases)
      (fastforce simp: less_Suc_eq split: if_splits list.splits option.splits)+
qed

lemma parse_string_length:
  assumes "parse_string s = Some (v, r)"
  shows "length r < length s"
proof -
  from assms obtain t where "string_body [] (tl s) = Some (t, r)"
    by (auto simp: parse_string_def split: option.splits prod.splits)
  then have "length r < length (tl s)" by (rule string_body_length)
  then show ?thesis by (cases s) auto
qed

lemma parse_keyword_length:
  "parse_keyword k v s = Some (w, r) \<Longrightarrow> k \<noteq> [] \<Longrightarrow> length r < length s"
  by (cases k; cases s) (auto simp: parse_keyword_def split: if_splits)

text \<open>
  The mutually recursive methods. \<open>parse_array\<close> and \<open>parse_object\<close> get the text after their
  opening bracket, which \<open>parse_value\<close> has just seen; the \<open>for (;;)\<close> loops are functions of
  what has been read so far.
\<close>

function (sequential) parse_value :: "string \<Rightarrow> (json \<times> string) option"
  and parse_array :: "string \<Rightarrow> (json \<times> string) option"
  and array_loop :: "json list \<Rightarrow> string \<Rightarrow> (json \<times> string) option"
  and parse_object :: "string \<Rightarrow> (json \<times> string) option"
  and object_loop :: "(string \<times> json) list \<Rightarrow> string \<Rightarrow> (json \<times> string) option" where
  "parse_value [] = None"
| "parse_value (c # s) =
     (if c = CHR ''{'' then parse_object s
      else if c = CHR ''['' then parse_array s
      else if c = CHR 0x22 then parse_string (c # s)
      else if c = CHR ''n'' then parse_keyword ''null'' JNull (c # s)
      else if is_dec c \<or> c = CHR ''-'' then parse_integer (c # s)
      else None)"
| "parse_array s =
     (let s = skip_whitespace s
      in if peek (CHR '']'') s then Some (JArray [], tl s) else array_loop [] s)"
| "array_loop items s =
     (case parse_value (skip_whitespace s) of
        None \<Rightarrow> None
      | Some (item, s) \<Rightarrow>
          (let items = items @ [item]; s = skip_whitespace s
           in if peek (CHR '','') s then array_loop items (tl s)
              else if peek (CHR '']'') s then Some (JArray items, tl s)
              else None))"
| "parse_object s =
     (let s = skip_whitespace s
      in if peek (CHR ''}'') s then Some (JObject [], tl s) else object_loop [] s)"
| "object_loop members s =
     (let s = skip_whitespace s
      in if \<not> peek (CHR 0x22) s then None
         else case parse_string s of
                None \<Rightarrow> None
              | Some (key, s) \<Rightarrow>
                  (case as_string key of
                     None \<Rightarrow> None
                   | Some key_text \<Rightarrow>
                       (let s = skip_whitespace s
                        in if \<not> peek (CHR '':'') s then None
                           else case parse_value (skip_whitespace (tl s)) of
                                  None \<Rightarrow> None
                                | Some (v, s) \<Rightarrow>
                                    (let members = set_member members key_text v; s = skip_whitespace s
                                     in if peek (CHR '','') s then object_loop members (tl s)
                                        else if peek (CHR ''}'') s then Some (JObject members, tl s)
                                        else None))))"
  by pat_completeness auto

text \<open>
  Termination: each call of \<open>parse_value\<close> that returns has consumed at least one character, so a
  loop goes round again on less text. The fact is needed inside the termination proof, hence first
  on the domain.
\<close>

lemma parser_length_partial:
  assumes "parse_value_parse_array_array_loop_parse_object_object_loop_dom (Inl (Inl s))"
  shows "\<forall>v r. parse_value s = Some (v, r) \<longrightarrow> length r < length s"
proof (rule parse_value_parse_array_array_loop_parse_object_object_loop.pinduct(1)
    [where ?P1.0 = "\<lambda>s. \<forall>v r. parse_value s = Some (v, r) \<longrightarrow> length r < length s"
       and ?P2.0 = "\<lambda>s. \<forall>v r. parse_array s = Some (v, r) \<longrightarrow> length r < length s"
       and ?P3.0 = "\<lambda>items s. \<forall>v r. array_loop items s = Some (v, r) \<longrightarrow> length r < length s"
       and ?P4.0 = "\<lambda>s. \<forall>v r. parse_object s = Some (v, r) \<longrightarrow> length r < length s"
       and ?P5.0 = "\<lambda>ms s. \<forall>v r. object_loop ms s = Some (v, r) \<longrightarrow> length r < length s",
     OF assms], goal_cases)
  case 1
  then show ?case by (simp add: parse_value.psimps)
next
  case (2 c s)
  then show ?case
    by (auto simp: parse_value.psimps less_Suc_eq split: if_splits
        dest: parse_string_length parse_integer_length parse_keyword_length)
next
  case (3 s)
  then show ?case
    using length_skip_whitespace [of s] length_tl_peek [of _ "skip_whitespace s"]
    by (fastforce simp: parse_array.psimps Let_def split: if_splits)
next
  case (4 items s)
  show ?case
  proof (intro allI impI)
    fix v r assume *: "array_loop items s = Some (v, r)"
    then obtain item t where t: "parse_value (skip_whitespace s) = Some (item, t)"
      using 4(1) by (auto simp: array_loop.psimps split: option.splits)
    with 4(2) have "length t < length (skip_whitespace s)" by blast
    then have len: "length (skip_whitespace t) < length s"
      using length_skip_whitespace [of s] length_skip_whitespace [of t] by linarith
    show "length r < length s"
    proof (cases "peek (CHR '','') (skip_whitespace t)")
      case True
      with * t 4(1) have "array_loop (items @ [item]) (tl (skip_whitespace t)) = Some (v, r)"
        by (simp add: array_loop.psimps Let_def)
      with 4(3) [OF t refl refl refl True] have "length r < length (tl (skip_whitespace t))"
        by blast
      with len show ?thesis by simp
    next
      case False
      with * t 4(1) have "r = tl (skip_whitespace t)"
        by (auto simp: array_loop.psimps Let_def split: if_splits)
      with len show ?thesis by simp
    qed
  qed
next
  case (5 s)
  then show ?case
    using length_skip_whitespace [of s] length_tl_peek [of _ "skip_whitespace s"]
    by (fastforce simp: parse_object.psimps Let_def split: if_splits)
next
  case (6 ms s)
  show ?case
  proof (intro allI impI)
    fix v r assume *: "object_loop ms s = Some (v, r)"
    then obtain key t kt where k: "peek (CHR 0x22) (skip_whitespace s)"
        "parse_string (skip_whitespace s) = Some (key, t)" "as_string key = Some kt"
        "peek (CHR '':'') (skip_whitespace t)"
      using 6(1) by (auto simp: object_loop.psimps Let_def split: option.splits if_splits)
    with * 6(1) obtain w u where u: "parse_value (skip_whitespace (tl (skip_whitespace t))) = Some (w, u)"
      by (auto simp: object_loop.psimps Let_def split: option.splits if_splits)
    have "length u < length (skip_whitespace (tl (skip_whitespace t)))"
      using 6(2) [OF refl _ k(2) refl k(3) refl] k(1,4) u by blast
    then have len: "length (skip_whitespace u) < length s"
      using parse_string_length [OF k(2)] length_skip_whitespace [of s] length_skip_whitespace [of t]
        length_skip_whitespace [of u] length_skip_whitespace [of "tl (skip_whitespace t)"]
      by simp
    show "length r < length s"
    proof (cases "peek (CHR '','') (skip_whitespace u)")
      case True
      with * k u 6(1) have "object_loop (set_member ms kt w) (tl (skip_whitespace u)) = Some (v, r)"
        by (simp add: object_loop.psimps Let_def)
      with 6(3) [OF refl _ k(2) refl k(3) refl _ u refl refl refl True] k(1,4)
      have "length r < length (tl (skip_whitespace u))" by blast
      with len show ?thesis by simp
    next
      case False
      with * k u 6(1) have "r = tl (skip_whitespace u)"
        by (auto simp: object_loop.psimps Let_def split: if_splits)
      with len show ?thesis by simp
    qed
  qed
qed

abbreviation (input) parser_dom where
  "parser_dom \<equiv> parse_value_parse_array_array_loop_parse_object_object_loop_dom"

lemma skip_whitespace_le:
  "length (skip_whitespace s) < length s \<or> length (skip_whitespace s) = length s"
  using length_skip_whitespace [of s] by (auto simp: order_le_less)

lemma array_round:
  assumes "parser_dom (Inl (Inl (skip_whitespace s)))" "parse_value (skip_whitespace s) = Some (x, y)"
  shows "length (skip_whitespace y) - Suc 0 < length s"
proof -
  have "length y < length (skip_whitespace s)"
    using parser_length_partial [OF assms(1)] assms(2) by blast
  then show ?thesis
    using length_skip_whitespace [of s] length_skip_whitespace [of y] by simp
qed

lemma key_round:
  assumes "parse_string (skip_whitespace s) = Some (k, y)"
  shows "length (skip_whitespace (tl (skip_whitespace y))) < length s"
  using parse_string_length [OF assms] length_skip_whitespace [of s] length_skip_whitespace [of y]
    length_skip_whitespace [of "tl (skip_whitespace y)"] by simp

lemma object_round:
  assumes "parser_dom (Inl (Inl (skip_whitespace (tl (skip_whitespace y)))))"
    "parse_string (skip_whitespace s) = Some (k, y)"
    "parse_value (skip_whitespace (tl (skip_whitespace y))) = Some (x, z)"
  shows "length (skip_whitespace z) - Suc 0 < length s"
proof -
  have "length z < length (skip_whitespace (tl (skip_whitespace y)))"
    using parser_length_partial [OF assms(1)] assms(3) by blast
  then show ?thesis
    using key_round [OF assms(2)] length_skip_whitespace [of z] by simp
qed

termination parse_value
  by (relation "measures [case_sum (case_sum length length)
        (case_sum (length \<circ> snd) (case_sum length (length \<circ> snd))),
      case_sum (case_sum (\<lambda>_. 0) (\<lambda>_. 2)) (case_sum (\<lambda>_. 1) (case_sum (\<lambda>_. 2) (\<lambda>_. 1)))]")
    (use skip_whitespace_le in \<open>auto intro: array_round key_round object_round\<close>)

declare parse_array.simps [simp del] array_loop.simps [simp del]
  parse_object.simps [simp del] object_loop.simps [simp del]

definition json_parse :: "string \<Rightarrow> json option" where
  "json_parse text =
     (case parse_value (skip_whitespace text) of
        None \<Rightarrow> None
      | Some (v, s) \<Rightarrow> (if skip_whitespace s \<noteq> [] then None else Some v))"

lemmas json_parser_simps =
  parse_array.simps array_loop.simps parse_object.simps object_loop.simps

end
