(* ===== verification/Bank_Json_Roundtrip.thy ===== *)
theory Bank_Json_Roundtrip
  imports Bank_Json
begin

text \<open>
  The dump and the parser of src/persistence/Json.cpp against each other. \<open>json_wf\<close> is exactly
  what survives: every value without the integer -2^63 (whose digits the parser rejects as an
  overflow) and without a repeated key (which the parser merges). The dump of any value is
  one line of printable bytes, and every value the parser returns is of this form.
\<close>

fun json_wf :: "json \<Rightarrow> bool" where
  "json_wf JNull \<longleftrightarrow> True"
| "json_wf (JInteger i) \<longleftrightarrow> i \<noteq> i64_min"
| "json_wf (JString s) \<longleftrightarrow> True"
| "json_wf (JArray xs) \<longleftrightarrow> list_all json_wf xs"
| "json_wf (JObject ms) \<longleftrightarrow> distinct (map fst ms) \<and> list_all (\<lambda>m. json_wf (snd m)) ms"

section \<open>Strings\<close>

lemma hex4_digits: "n < 32 \<Longrightarrow> hex4 (CHR ''0'') (CHR ''0'') (hex_digit (n div 16)) (hex_digit (n mod 16)) = Some n"
  by (simp add: hex4_def) (simp add: hex_nibble_def)

lemma append_utf8_ascii: "n < 32 \<Longrightarrow> append_utf8 n = [char_of n]"
  by (simp add: append_utf8_def)

lemma string_body_escape:
  "string_body out (escape_char c @ t) = string_body (out @ [c]) t"
proof (cases "code c < 32")
  case True
  then show ?thesis
    by (auto simp: escape_char_def simple_escape_def hex4_digits append_utf8_ascii)
next
  case False
  then show ?thesis
    by (auto simp: escape_char_def simple_escape_def)
qed

lemma string_body_escaped:
  "string_body out (concat (map escape_char s) @ CHR 0x22 # r) = Some (out @ s, r)"
  by (induction s arbitrary: out) (simp_all add: string_body_escape)

lemma parse_string_escaped: "parse_string (append_escaped s @ r) = Some (JString s, r)"
  by (simp add: parse_string_def append_escaped_def string_body_escaped)

section \<open>Integers\<close>

text \<open>A text a number may stop before.\<close>

definition stops :: "string \<Rightarrow> bool" where
  "stops r \<longleftrightarrow> r = [] \<or> \<not> is_dec (hd r)"

lemma sint_of_nat_i64: "n \<le> 9223372036854775807 \<Longrightarrow> sint (of_nat n :: i64) = int n"
  using sint_word_of_int_i64 [of "int n"] by simp

lemma dec_foldl_ge: "v \<le> foldl (\<lambda>v c. v * 10 + (code c - 48)) v ds"
proof (induction ds arbitrary: v)
  case (Cons c ds)
  have "v \<le> v * 10 + (code c - 48)" by simp
  also have "\<dots> \<le> foldl (\<lambda>v c. v * 10 + (code c - 48)) (v * 10 + (code c - 48)) ds"
    by (rule Cons.IH)
  finally show ?case by simp
qed simp

lemma parse_digits_step:
  assumes "is_dec c" "v * 10 + (code c - 48) \<le> 9223372036854775807"
  shows "parse_digits (of_nat v) (c # s) = parse_digits (of_nat (v * 10 + (code c - 48))) s"
proof -
  let ?d = "code c - 48"
  have d: "?d \<le> 9" using assms(1) by (auto simp: is_dec_def)
  have "int v \<le> (9223372036854775807 - int ?d) div 10" using assms(2) d by linarith
  moreover have "(9223372036854775807 - int ?d) sdiv 10 = (9223372036854775807 - int ?d) div 10"
    using d by (simp add: signed_divide_int_def)
  ultimately show ?thesis
    using assms d by (simp add: Let_def sint_of_nat_i64)
qed

lemma parse_digits_dec:
  assumes "\<forall>c \<in> set ds. is_dec c" "stops r"
    "foldl (\<lambda>v c. v * 10 + (code c - 48)) v ds \<le> 9223372036854775807"
  shows "parse_digits (of_nat v) (ds @ r) =
    Some (of_nat (foldl (\<lambda>v c. v * 10 + (code c - 48)) v ds), r)"
  using assms
proof (induction ds arbitrary: v)
  case Nil
  then show ?case by (cases r) (simp_all add: stops_def)
next
  case (Cons c ds)
  have "v * 10 + (code c - 48) \<le> 9223372036854775807"
    using dec_foldl_ge [of "v * 10 + (code c - 48)" ds] Cons.prems(3) by simp
  then show ?case
    using Cons.prems Cons.IH [of "v * 10 + (code c - 48)"]
    by (simp add: parse_digits_step del: parse_digits.simps of_nat_add of_nat_mult)
qed

lemma parse_digits_dec_of_nat:
  assumes "n \<le> 9223372036854775807" "stops r"
  shows "parse_digits 0 (dec_of_nat n @ r) = Some (of_nat n, r)"
  using parse_digits_dec [OF dec_of_nat_digits assms(2), of 0 n] assms(1) dec_value_dec_of_nat [of n]
  by (simp add: dec_value_def)

lemma dec_of_nat_hd: "\<exists>c t. dec_of_nat n = c # t \<and> is_dec c"
  using dec_of_nat_digits [of n] by (cases "dec_of_nat n") auto

lemma not_minus_dec: "is_dec c \<Longrightarrow> c \<noteq> CHR ''-''"
  by (auto simp: is_dec_def)

lemma parse_integer_dec_of_int:
  assumes "i \<noteq> i64_min" "stops r"
  shows "parse_integer (to_string_i64 i @ r) = Some (JInteger i, r)"
proof (cases "sint i < 0")
  case True
  have "sint i \<noteq> sint i64_min" using assms(1) by (simp only: sint_eq_iff_i64 not_False_eq_True)
  then have lt: "nat (- sint i) \<le> 9223372036854775807"
    using sint_i64_range(1) [of i] by simp
  obtain c t where ct: "dec_of_nat (nat (- sint i)) = c # t" "is_dec c"
    using dec_of_nat_hd by blast
  have "- (of_nat (nat (- sint i))) = i"
    using True by simp
  then show ?thesis
    using True ct parse_digits_dec_of_nat [OF lt assms(2)]
    by (simp add: parse_integer_def to_string_i64_def dec_of_int_def peek_def)
next
  case False
  have le: "nat (sint i) \<le> 9223372036854775807"
    using sint_i64_range(2) [of i] by simp
  obtain c t where ct: "dec_of_nat (nat (sint i)) = c # t" "is_dec c"
    using dec_of_nat_hd by blast
  then show ?thesis
    using False not_minus_dec parse_digits_dec_of_nat [OF le assms(2)]
    by (simp add: parse_integer_def to_string_i64_def dec_of_int_def peek_def)
qed

section \<open>Values\<close>

text \<open>
  A dump starts with a character that is neither white space nor a closing bracket, so neither
  \<open>skip_whitespace\<close> nor the test for an empty array takes anything from it.
\<close>

definition starts_value :: "string \<Rightarrow> bool" where
  "starts_value s \<longleftrightarrow> s \<noteq> [] \<and> \<not> is_space (hd s) \<and> hd s \<noteq> CHR '']''"

lemma is_dec_not_space: "is_dec c \<Longrightarrow> \<not> is_space c \<and> c \<noteq> CHR '']''"
  by (auto simp: is_dec_def is_space_def)

lemma to_string_i64_hd: "\<exists>c t. to_string_i64 i = c # t \<and> (c = CHR ''-'' \<or> is_dec c)"
  using dec_of_nat_hd [of "nat (sint i)"] by (auto simp: to_string_i64_def dec_of_int_def)

lemma starts_value_int: "starts_value (to_string_i64 i @ r)"
  using dec_of_nat_hd [of "nat (sint i)"] is_dec_not_space
  by (auto simp: starts_value_def to_string_i64_def dec_of_int_def is_space_def)

lemma starts_value_dump: "starts_value (dump_into v @ r)"
  by (cases v) (simp_all add: starts_value_int, simp_all add: starts_value_def is_space_def append_escaped_def)

lemma skip_starts_value: "starts_value s \<Longrightarrow> skip_whitespace s = s"
  by (cases s) (simp_all add: starts_value_def)

lemma not_peek_bracket: "starts_value s \<Longrightarrow> \<not> peek (CHR '']'') s"
  by (auto simp: starts_value_def peek_def)

lemma dump_items_False: "dump_items False xs = (if xs = [] then [] else CHR '','' # dump_items True xs)"
  by (cases xs) auto

lemma dump_members_False: "dump_members False ms = (if ms = [] then [] else CHR '','' # dump_members True ms)"
  by (cases ms) auto

lemma stops_simps [simp]: "stops []" "stops (CHR '','' # r)" "stops (CHR '']'' # r)" "stops (CHR ''}'' # r)"
  by (simp_all add: stops_def is_dec_def)

lemma stops_items: "stops (dump_items False xs @ CHR '']'' # r)"
  by (simp add: dump_items_False)

lemma stops_members: "stops (dump_members False ms @ CHR ''}'' # r)"
  by (simp add: dump_members_False)

lemma array_loop_dump:
  assumes "\<And>x r. x \<in> set xs \<Longrightarrow> stops r \<Longrightarrow> parse_value (dump_into x @ r) = Some (x, r)" "xs \<noteq> []"
  shows "array_loop items (dump_items True xs @ CHR '']'' # r) = Some (JArray (items @ xs), r)"
  using assms
proof (induction xs arbitrary: items)
  case (Cons x xs)
  have v: "parse_value (dump_into x @ dump_items False xs @ CHR '']'' # r) =
      Some (x, dump_items False xs @ CHR '']'' # r)"
    using Cons.prems(1) stops_items by simp
  have start: "skip_whitespace (dump_into x @ dump_items False xs @ CHR '']'' # r) =
      dump_into x @ dump_items False xs @ CHR '']'' # r"
    by (intro skip_starts_value starts_value_dump)
  show ?case
  proof (cases "xs = []")
    case True
    with v start show ?thesis
      by (simp add: array_loop.simps [of items] Let_def is_space_def)
  next
    case False
    with Cons.IH [of "items @ [x]"] Cons.prems(1) v start show ?thesis
      by (simp add: array_loop.simps [of items] dump_items_False Let_def is_space_def)
  qed
qed simp

lemma set_member_fresh: "key \<notin> fst ` set ms \<Longrightarrow> set_member ms key v = ms @ [(key, v)]"
  by (induction ms) auto

lemma object_loop_dump:
  assumes "\<And>k v r. (k, v) \<in> set ms \<Longrightarrow> stops r \<Longrightarrow> parse_value (dump_into v @ r) = Some (v, r)"
    and "ms \<noteq> []" "distinct (map fst (members @ ms))"
  shows "object_loop members (dump_members True ms @ CHR ''}'' # r) = Some (JObject (members @ ms), r)"
  using assms
proof (induction ms arbitrary: members)
  case (Cons m ms)
  obtain k x where m: "m = (k, x)" by (cases m)
  let ?rest = "dump_members False ms @ CHR ''}'' # r"
  have v: "parse_value (dump_into x @ ?rest) = Some (x, ?rest)"
    using Cons.prems(1) [of k x ?rest] stops_members m by simp
  have start: "skip_whitespace (dump_into x @ ?rest) = dump_into x @ ?rest"
    by (intro skip_starts_value starts_value_dump)
  have key: "parse_string (append_escaped k @ CHR '':'' # dump_into x @ ?rest) =
      Some (JString k, CHR '':'' # dump_into x @ ?rest)"
    by (rule parse_string_escaped)
  have quote: "skip_whitespace (append_escaped k @ s) = append_escaped k @ s"
    "peek (CHR 0x22) (append_escaped k @ s)" for s
    by (simp_all add: append_escaped_def is_space_def)
  have fresh: "set_member members k x = members @ [(k, x)]"
    using Cons.prems(3) m by (intro set_member_fresh) auto
  show ?case
  proof (cases "ms = []")
    case True
    with v start key fresh show ?thesis
      by (simp add: object_loop.simps [of members] m quote Let_def is_space_def)
  next
    case False
    have "object_loop (members @ [(k, x)]) (dump_members True ms @ CHR ''}'' # r) =
        Some (JObject ((members @ [(k, x)]) @ ms), r)"
      using Cons.prems m False by (intro Cons.IH) auto
    with False v start key fresh show ?thesis
      by (simp add: object_loop.simps [of members] m quote dump_members_False Let_def is_space_def)
  qed
qed simp

lemma parse_value_dump: "json_wf v \<Longrightarrow> stops r \<Longrightarrow> parse_value (dump_into v @ r) = Some (v, r)"
proof (induction v arbitrary: r)
  case JNull
  then show ?case by (simp add: parse_keyword_def)
next
  case (JInteger i)
  obtain c t where ct: "to_string_i64 i = c # t" "c = CHR ''-'' \<or> is_dec c"
    using to_string_i64_hd by blast
  then have "c \<noteq> CHR ''{''" "c \<noteq> CHR ''[''" "c \<noteq> CHR 0x22" "c \<noteq> CHR ''n''"
    by (auto simp: is_dec_def)
  with ct have "parse_value (to_string_i64 i @ r) = parse_integer (to_string_i64 i @ r)" by auto
  with JInteger parse_integer_dec_of_int show ?case by simp
next
  case (JString s)
  have "parse_value (append_escaped s @ r) = parse_string (append_escaped s @ r)"
    by (simp add: append_escaped_def)
  then show ?case by (simp add: parse_string_escaped)
next
  case (JArray xs)
  show ?case
  proof (cases "xs = []")
    case True
    then show ?thesis by (simp add: parse_array.simps is_space_def)
  next
    case False
    then have s: "starts_value (dump_items True xs @ CHR '']'' # r)"
      using starts_value_dump by (cases xs) auto
    have "array_loop [] (dump_items True xs @ CHR '']'' # r) = Some (JArray xs, r)"
      using JArray False array_loop_dump [of xs "[]" r] by (auto simp: list_all_iff)
    with s show ?thesis
      by (simp add: parse_array.simps skip_starts_value not_peek_bracket Let_def)
  qed
next
  case (JObject ms)
  show ?case
  proof (cases "ms = []")
    case True
    then show ?thesis by (simp add: parse_object.simps is_space_def)
  next
    case False
    then obtain t where t: "dump_members True ms = CHR 0x22 # t"
      by (cases ms) (auto simp: append_escaped_def)
    have "object_loop [] (dump_members True ms @ CHR ''}'' # r) = Some (JObject ms, r)"
      using JObject False object_loop_dump [of ms "[]" r] by (force simp: list_all_iff)
    with t show ?thesis
      by (simp add: parse_object.simps is_space_def Let_def)
  qed
qed

lemma json_parse_dump: "json_wf v \<Longrightarrow> json_parse (json_dump v) = Some v"
  using parse_value_dump [of v "[]"] skip_starts_value [OF starts_value_dump [of v "[]"]]
  by (simp add: json_parse_def json_dump_def)

text \<open>White space after a dump is skipped: a stored document ends with a newline.\<close>

lemma json_parse_dump_newline: "json_wf v \<Longrightarrow> json_parse (json_dump v @ [CHR 0x0A]) = Some v"
  using parse_value_dump [of v "[CHR 0x0A]"] skip_starts_value [OF starts_value_dump [of v "[CHR 0x0A]"]]
  by (simp add: json_parse_def json_dump_def stops_def is_dec_def is_space_def)

section \<open>What does not survive\<close>

text \<open>Every value the parser builds satisfies \<open>json_wf\<close>.\<close>

lemma parse_digits_nonneg:
  "parse_digits v s = Some (w, r) \<Longrightarrow> 0 \<le> sint v \<Longrightarrow> 0 \<le> sint w"
proof (induction v s rule: parse_digits.induct)
  case (2 v c s)
  show ?case
  proof (cases "is_dec c")
    case True
    let ?d = "of_nat (code c - 48) :: i64"
    have le9: "code c - 48 \<le> 9" using True by (auto simp: is_dec_def)
    then have d: "sint ?d = int (code c - 48)" by (intro sint_of_nat_i64) simp
    have guard: "\<not> (9223372036854775807 - sint ?d) sdiv 10 < sint v"
      and rest: "parse_digits (v * 10 + ?d) s = Some (w, r)"
      using "2.prems"(1) True by (auto simp: Let_def split: if_splits)
    from guard d le9 have "sint v \<le> (9223372036854775807 - int (code c - 48)) div 10"
      by (simp add: signed_divide_int_def)
    then have le: "sint v * 10 + sint ?d \<le> 9223372036854775807" using d le9 by linarith
    have "v * 10 + ?d = of_nat (nat (sint v) * 10 + (code c - 48))"
      using "2.prems"(2) by simp
    then have "sint (v * 10 + ?d) = int (nat (sint v) * 10 + (code c - 48))"
      using le d "2.prems"(2) by (simp only: sint_of_nat_i64)
    then show ?thesis
      using "2.IH" [OF True refl guard rest] by simp
  next
    case False
    with "2.prems" show ?thesis by simp
  qed
qed simp

lemma i64_min_neq_nonneg:
  assumes "0 \<le> sint (v :: i64)"
  shows "v \<noteq> i64_min" "- v \<noteq> i64_min"
proof -
  show "v \<noteq> i64_min" using assms by auto
  moreover have "- i64_min = (i64_min :: i64)" by simp
  ultimately show "- v \<noteq> i64_min" by (metis minus_minus)
qed

lemma parse_integer_wf:
  assumes "parse_integer s = Some (v, r)"
  shows "json_wf v"
proof -
  from assms obtain w t where w: "parse_digits 0 t = Some (w, r)" "v = JInteger w \<or> v = JInteger (- w)"
    by (auto simp: parse_integer_def Let_def split: if_splits option.splits)
  from parse_digits_nonneg [OF w(1)] have "0 \<le> sint w" by simp
  with w(2) i64_min_neq_nonneg show ?thesis by auto
qed

lemma parse_string_JString: "parse_string s = Some (v, r) \<Longrightarrow> \<exists>t. v = JString t"
  by (auto simp: parse_string_def split: option.splits prod.splits)

lemma parse_keyword_value: "parse_keyword k v s = Some (w, r) \<Longrightarrow> w = v"
  by (auto simp: parse_keyword_def split: if_splits)

lemma set_member_keys:
  "map fst (set_member ms k v) = (if k \<in> set (map fst ms) then map fst ms else map fst ms @ [k])"
  by (induction ms) (auto simp: rev_image_eqI)

lemma set_member_distinct: "distinct (map fst ms) \<Longrightarrow> distinct (map fst (set_member ms k v))"
  unfolding set_member_keys by (simp del: set_map)

lemma set_member_wf:
  "list_all (\<lambda>m. json_wf (snd m)) ms \<Longrightarrow> json_wf v \<Longrightarrow>
     list_all (\<lambda>m. json_wf (snd m)) (set_member ms k v)"
  by (induction ms) auto

abbreviation members_wf :: "(string \<times> json) list \<Rightarrow> bool" where
  "members_wf ms \<equiv> json_wf (JObject ms)"

lemma set_member_members_wf: "members_wf ms \<Longrightarrow> json_wf v \<Longrightarrow> members_wf (set_member ms k v)"
  by (simp add: set_member_distinct set_member_wf)

lemma parser_wf:
  "\<forall>v r. parse_value s = Some (v, r) \<longrightarrow> json_wf v"
  "\<forall>v r. parse_array s' = Some (v, r) \<longrightarrow> json_wf v"
  "list_all json_wf items \<longrightarrow> (\<forall>v r. array_loop items s'' = Some (v, r) \<longrightarrow> json_wf v)"
  "\<forall>v r. parse_object t = Some (v, r) \<longrightarrow> json_wf v"
  "members_wf ms \<longrightarrow> (\<forall>v r. object_loop ms t' = Some (v, r) \<longrightarrow> json_wf v)"
proof (induction s and s' and items s'' and t and ms t'
    rule: parse_value_parse_array_array_loop_parse_object_object_loop.induct)
  case 1
  then show ?case by simp
next
  case (2 c s)
  then show ?case
    by (auto split: if_splits dest: parse_integer_wf parse_string_JString parse_keyword_value)
next
  case (3 s)
  then show ?case by (auto simp: parse_array.simps Let_def split: if_splits)
next
  case (4 items s)
  show ?case
  proof (intro impI allI)
    fix v r assume wf: "list_all json_wf items" and *: "array_loop items s = Some (v, r)"
    then obtain item u where u: "parse_value (skip_whitespace s) = Some (item, u)"
      by (auto simp: array_loop.simps [of items s] split: option.splits)
    with 4(1) have item: "json_wf item" by blast
    show "json_wf v"
    proof (cases "peek (CHR '','') (skip_whitespace u)")
      case True
      with * u have "array_loop (items @ [item]) (tl (skip_whitespace u)) = Some (v, r)"
        by (simp add: array_loop.simps [of items s] Let_def)
      with 4(2) [OF u refl refl refl True] wf item show ?thesis by simp
    next
      case False
      with * u wf item show ?thesis
        by (auto simp: array_loop.simps [of items s] Let_def split: if_splits)
    qed
  qed
next
  case (5 s)
  then show ?case by (auto simp: parse_object.simps Let_def split: if_splits)
next
  case (6 ms s)
  show ?case
  proof (intro impI allI)
    fix v r assume wf: "members_wf ms" and *: "object_loop ms s = Some (v, r)"
    then obtain key t kt where k: "peek (CHR 0x22) (skip_whitespace s)"
        "parse_string (skip_whitespace s) = Some (key, t)" "as_string key = Some kt"
        "peek (CHR '':'') (skip_whitespace t)"
      by (auto simp: object_loop.simps [of ms s] Let_def split: option.splits if_splits)
    with * obtain w u where u: "parse_value (skip_whitespace (tl (skip_whitespace t))) = Some (w, u)"
      by (auto simp: object_loop.simps [of ms s] Let_def split: option.splits if_splits)
    then have "json_wf w"
      using 6(1) [OF refl _ k(2) refl k(3) refl] k(1,4) by blast
    then have new: "members_wf (set_member ms kt w)" using wf by (intro set_member_members_wf)
    show "json_wf v"
    proof (cases "peek (CHR '','') (skip_whitespace u)")
      case True
      with * k u have "object_loop (set_member ms kt w) (tl (skip_whitespace u)) = Some (v, r)"
        by (simp add: object_loop.simps [of ms s] Let_def)
      with 6(2) [OF refl _ k(2) refl k(3) refl _ u refl refl refl True] k(1,4) new
      show ?thesis by blast
    next
      case False
      with * k u new show ?thesis
        by (auto simp: object_loop.simps [of ms s] Let_def split: if_splits)
    qed
  qed
qed

lemma json_parse_wf: "json_parse s = Some v \<Longrightarrow> json_wf v"
  using parser_wf(1) [of "skip_whitespace s"]
  by (auto simp: json_parse_def split: option.splits if_splits)

lemma json_roundtrip_iff: "json_parse (json_dump v) = Some v \<longleftrightarrow> json_wf v"
  using json_parse_wf json_parse_dump by blast

section \<open>A dump is one line of printable bytes\<close>

abbreviation printable :: "string \<Rightarrow> bool" where
  "printable s \<equiv> list_all (\<lambda>c. 32 \<le> code c) s"

lemma printable_dec_of_nat [simp]: "printable (dec_of_nat n)"
  using dec_of_nat_digits [of n] by (auto simp: list_all_iff is_dec_def)

lemma printable_to_string_i64 [simp]: "printable (to_string_i64 i)"
  by (simp add: to_string_i64_def dec_of_int_def)

lemma printable_hex_digit [simp]: "n < 16 \<Longrightarrow> 32 \<le> code (hex_digit n)"
  using less_16_cases [of n] by (auto simp: hex_digit_def)

lemma printable_escape_char: "printable (escape_char c)"
  using nat_of_char_less_256 [of c] by (simp add: escape_char_def)

lemma printable_escaped [simp]: "printable (append_escaped s)"
  by (induction s) (simp_all add: append_escaped_def printable_escape_char)

lemma printable_dump_into:
  "printable (dump_into v)" "printable (dump_items f xs)" "printable (dump_members f ms)"
  by (induction v and f xs and f ms rule: dump_into_dump_items_dump_members.induct) simp_all

lemma json_dump_one_line: "CHR 0x0A \<notin> set (json_dump v)"
  using printable_dump_into(1) [of v] by (auto simp: json_dump_def list_all_iff)

section \<open>Property\<close>

text \<open>
  C24: printing and parsing of JSON values are inverse exactly on the values that some text denotes. A value
  survives \<open>dump\<close> followed by \<open>parse\<close> if and only if it is the result of parsing some text, and these are
  the values whose objects have no duplicate key and whose integers are not the smallest 64-bit one. A dump
  never contains a newline, so it can be a line of the journal.
\<close>

theorem json_dump_parse_inverse:
  "(json_parse (json_dump v) = Some v \<longleftrightarrow> (\<exists>s. json_parse s = Some v)) \<and>
   ((\<exists>s. json_parse s = Some v) \<longleftrightarrow> json_wf v) \<and> CHR 0x0A \<notin> set (json_dump v)"
  using json_parse_wf json_parse_dump json_dump_one_line by blast

end
