(* ===== verification/Bank_Serializer.thy ===== *)
theory Bank_Serializer
  imports Bank_Transaction Bank_Json_Roundtrip
begin

text \<open>
  src/persistence/Serializer.h and Serializer.cpp: transaction records and accounts as JSON
  objects, and as the one-line texts of the journal and the snapshot. \<open>record_storable\<close> and
  \<open>account_storable\<close> say exactly which values survive the round trip.
\<close>

section \<open>Encoding\<close>

text \<open>
  The encoders build an object with a sequence of \<open>set\<close> calls. \<open>set\<close> on an object never throws
  (\<open>json_set_object\<close>), so the sequence is a fold over its members.
\<close>

definition object_of :: "(string \<times> json) list \<Rightarrow> json" where
  "object_of kvs = JObject (foldl (\<lambda>ms (k, v). set_member ms k v) [] kvs)"

lemma json_set_object: "json_set (JObject ms) k v = Inr (JObject (set_member ms k v))"
  by (simp add: json_set_def)

fun opt_id_to_json :: "account_id option \<Rightarrow> json" where
  "opt_id_to_json (Some i) = JInteger (id_value i)"
| "opt_id_to_json None = JNull"

definition transaction_to_json :: "transaction_record \<Rightarrow> json" where
  "transaction_to_json r = object_of
     [(''id'', JInteger (id_value (rec_id r))),
      (''ts'', JInteger (to_unix_ms (rec_timestamp r))),
      (''type'', JString (type_to_string (rec_type r))),
      (''state'', JString (state_to_string (rec_state r))),
      (''from'', opt_id_to_json (rec_from r)),
      (''to'', opt_id_to_json (rec_to r)),
      (''amount'', JInteger (cents (rec_amount r)))]"

definition account_to_json :: "account \<Rightarrow> json" where
  "account_to_json a = object_of
     [(''id'', JInteger (id_value (acc_id a))),
      (''owner'', JInteger (id_value (acc_owner_id a))),
      (''balance'', JInteger (cents (acc_balance a))),
      (''status'', JString (status_to_string (acc_status a))),
      (''version'', JInteger (acc_version a))]"

section \<open>Decoding\<close>

definition int_of :: "json \<Rightarrow> string \<Rightarrow> i64 option" where
  "int_of value key =
     (case json_find value key of None \<Rightarrow> None | Some v \<Rightarrow> as_integer v)"

definition str_of :: "json \<Rightarrow> string \<Rightarrow> string option" where
  "str_of value key =
     (case json_find value key of None \<Rightarrow> None | Some v \<Rightarrow> as_string v)"

text \<open>
  \<open>optional<optional<AccountId>>\<close>: \<open>None\<close> for a missing or malformed key, \<open>Some None\<close> for an
  explicit null.
\<close>

definition opt_id_of :: "json \<Rightarrow> string \<Rightarrow> account_id option option" where
  "opt_id_of value key =
     (case json_find value key of
        None \<Rightarrow> None
      | Some v \<Rightarrow>
          (if json_type v = Null_type then Some None
           else case as_integer v of
                  None \<Rightarrow> None
                | Some i \<Rightarrow> (if i <s 0 then None else Some (Some (Id i)))))"

text \<open>The amount is checked before \<open>Money\<close> is built from it, so the constructor does not throw.\<close>

definition transaction_from_json :: "json \<Rightarrow> transaction_record option" where
  "transaction_from_json value =
     (if json_type value \<noteq> Object_type then None
      else case (int_of value ''id'', int_of value ''ts'', str_of value ''type'',
                 str_of value ''state'', opt_id_of value ''from'', opt_id_of value ''to'',
                 int_of value ''amount'') of
             (Some i, Some ts, Some type_s, Some state_s, Some from_id, Some to_id, Some amt) \<Rightarrow>
               (if amt <s 0 then None
                else case (transaction_type_from_string type_s, transaction_state_from_string state_s) of
                       (Some ty, Some st) \<Rightarrow>
                         Some \<lparr>rec_id = Id i, rec_timestamp = from_unix_ms ts, rec_type = ty,
                               rec_state = st, rec_from = from_id, rec_to = to_id,
                               rec_amount = Mk_Money amt\<rparr>
                     | _ \<Rightarrow> None)
           | _ \<Rightarrow> None)"

definition account_from_json :: "json \<Rightarrow> account option" where
  "account_from_json value =
     (if json_type value \<noteq> Object_type then None
      else case (int_of value ''id'', int_of value ''owner'', int_of value ''balance'',
                 str_of value ''status'', int_of value ''version'') of
             (Some i, Some owner, Some bal, Some status_s, Some ver) \<Rightarrow>
               (if i <s 0 \<or> owner <s 0 \<or> bal <s 0 \<or> ver <s 0 then None
                else case account_status_from_string status_s of
                       None \<Rightarrow> None
                     | Some st \<Rightarrow>
                         Some \<lparr>acc_id = Id i, acc_owner_id = Id owner, acc_balance = Mk_Money bal,
                               acc_status = st, acc_version = ver\<rparr>)
           | _ \<Rightarrow> None)"

definition serialize_transaction :: "transaction_record \<Rightarrow> string" where
  "serialize_transaction r = json_dump (transaction_to_json r)"

definition deserialize_transaction :: "string \<Rightarrow> transaction_record option" where
  "deserialize_transaction line =
     (case json_parse line of None \<Rightarrow> None | Some value \<Rightarrow> transaction_from_json value)"

definition serialize_account :: "account \<Rightarrow> string" where
  "serialize_account a = json_dump (account_to_json a)"

definition deserialize_account :: "string \<Rightarrow> account option" where
  "deserialize_account line =
     (case json_parse line of None \<Rightarrow> None | Some value \<Rightarrow> account_from_json value)"

section \<open>What survives\<close>

text \<open>An identifier that is non-negative when its bits are read as \<open>int64_t\<close>.\<close>

definition small_id :: "'a ident \<Rightarrow> bool" where
  "small_id i \<longleftrightarrow> 0 \<le> sint (id_value i)"

text \<open>
  A transaction id may be any word but 2^63: it is cast to \<open>int64_t\<close> and back without a sign
  check, and only -2^63 cannot be parsed. The account ids of the legs are checked for their sign.
\<close>

definition record_storable :: "transaction_record \<Rightarrow> bool" where
  "record_storable r \<longleftrightarrow>
     id_value (rec_id r) \<noteq> i64_min \<and>
     (\<forall>i \<in> set_option (rec_from r) \<union> set_option (rec_to r). small_id i) \<and> money_ok (rec_amount r)"

definition account_storable :: "account \<Rightarrow> bool" where
  "account_storable a \<longleftrightarrow>
     small_id (acc_id a) \<and> small_id (acc_owner_id a) \<and> money_ok (acc_balance a) \<and>
     0 \<le> sint (acc_version a)"

definition stored_form :: "transaction_record \<Rightarrow> transaction_record" where
  "stored_form r = r\<lparr>rec_timestamp := ms_trunc (rec_timestamp r)\<rparr>"

lemma record_storable_stored [simp]: "record_storable (stored_form r) \<longleftrightarrow> record_storable r"
  by (simp add: record_storable_def stored_form_def)

lemma stored_form_idem: "stored_form (stored_form r) = stored_form r"
  by (simp add: stored_form_def ms_trunc_idem)

lemma nonneg_not_i64_min: "0 \<le> sint (w :: i64) \<Longrightarrow> w \<noteq> i64_min"
  by auto

lemma to_unix_ms_not_min: "to_unix_ms t \<noteq> i64_min"
proof
  assume "to_unix_ms t = i64_min"
  then have "sint t sdiv ticks_per_ms = sint i64_min" by (metis sint_to_unix_ms)
  with sdiv_ticks_bounds [OF sint_i64_range, of t] show False by simp
qed

lemma cents_not_min: "money_ok m \<Longrightarrow> cents m \<noteq> i64_min"
  by (intro nonneg_not_i64_min) (simp add: money_ok_def amount_def)

lemma opt_id_wf: "\<forall>i \<in> set_option x. small_id i \<Longrightarrow> json_wf (opt_id_to_json x)"
  by (cases x) (auto simp: small_id_def nonneg_not_i64_min)

lemma transaction_to_json_wf: "record_storable r \<Longrightarrow> json_wf (transaction_to_json r)"
  by (auto simp: transaction_to_json_def object_of_def record_storable_def opt_id_wf
      to_unix_ms_not_min cents_not_min)

lemma account_to_json_wf: "account_storable a \<Longrightarrow> json_wf (account_to_json a)"
  by (auto simp: account_to_json_def object_of_def account_storable_def small_id_def
      nonneg_not_i64_min cents_not_min)

lemma opt_id_of_to_json:
  assumes "json_find v k = Some (opt_id_to_json x)" "\<forall>i \<in> set_option x. small_id i"
  shows "opt_id_of v k = Some x"
  using assms by (cases x) (auto simp: opt_id_of_def small_id_def word_sless_alt)

lemma transaction_from_to_json:
  assumes "record_storable r"
  shows "transaction_from_json (transaction_to_json r) = Some (stored_form r)"
proof -
  let ?v = "transaction_to_json r"
  have find: "json_find ?v ''id'' = Some (JInteger (id_value (rec_id r)))"
    "json_find ?v ''ts'' = Some (JInteger (to_unix_ms (rec_timestamp r)))"
    "json_find ?v ''type'' = Some (JString (type_to_string (rec_type r)))"
    "json_find ?v ''state'' = Some (JString (state_to_string (rec_state r)))"
    "json_find ?v ''from'' = Some (opt_id_to_json (rec_from r))"
    "json_find ?v ''to'' = Some (opt_id_to_json (rec_to r))"
    "json_find ?v ''amount'' = Some (JInteger (cents (rec_amount r)))"
    "json_type ?v = Object_type"
    by (simp_all add: transaction_to_json_def object_of_def json_find_def)
  have ids: "opt_id_of ?v ''from'' = Some (rec_from r)" "opt_id_of ?v ''to'' = Some (rec_to r)"
    using assms find(5,6) by (auto intro!: opt_id_of_to_json simp: record_storable_def)
  have "\<not> cents (rec_amount r) <s 0"
    using assms by (simp add: record_storable_def money_ok_def amount_def word_sless_alt)
  then show ?thesis
    using find ids
    by (simp add: transaction_from_json_def int_of_def str_of_def type_text.parse_print
        state_text.parse_print stored_form_def ms_trunc_def)
qed

lemma account_from_to_json:
  assumes "account_storable a"
  shows "account_from_json (account_to_json a) = Some a"
proof -
  let ?v = "account_to_json a"
  have find: "json_find ?v ''id'' = Some (JInteger (id_value (acc_id a)))"
    "json_find ?v ''owner'' = Some (JInteger (id_value (acc_owner_id a)))"
    "json_find ?v ''balance'' = Some (JInteger (cents (acc_balance a)))"
    "json_find ?v ''status'' = Some (JString (status_to_string (acc_status a)))"
    "json_find ?v ''version'' = Some (JInteger (acc_version a))"
    "json_type ?v = Object_type"
    by (simp_all add: account_to_json_def object_of_def json_find_def)
  with assms show ?thesis
    by (simp add: account_from_json_def int_of_def str_of_def status_text.parse_print
        account_storable_def small_id_def money_ok_def amount_def word_sless_alt)
qed

lemma deserialize_serialize_transaction:
  "record_storable r \<Longrightarrow> deserialize_transaction (serialize_transaction r) = Some (stored_form r)"
  by (simp add: deserialize_transaction_def serialize_transaction_def transaction_to_json_wf
      json_parse_dump transaction_from_to_json)

lemma deserialize_serialize_account:
  "account_storable a \<Longrightarrow> deserialize_account (serialize_account a) = Some a"
  by (simp add: deserialize_account_def serialize_account_def account_to_json_wf
      json_parse_dump account_from_to_json)

text \<open>Conversely, whatever is decoded is storable.\<close>

lemma find_member_in: "find_member ms k = Some v \<Longrightarrow> (k, v) \<in> set ms"
  by (induction ms k rule: find_member.induct) (auto split: if_splits)

lemma json_wf_find:
  assumes "json_wf v" "json_find v k = Some w"
  shows "json_wf w"
  using assms by (cases v) (auto simp: json_find_def list_all_iff dest!: find_member_in)

lemma int_of_wf: "json_wf v \<Longrightarrow> int_of v k = Some i \<Longrightarrow> i \<noteq> i64_min"
proof -
  assume wf: "json_wf v" and "int_of v k = Some i"
  then obtain w where w: "json_find v k = Some w" "as_integer w = Some i"
    by (auto simp: int_of_def split: option.splits)
  then have "w = JInteger i" by (cases w) auto
  with json_wf_find [OF wf w(1)] show ?thesis by simp
qed

lemma opt_id_of_small: "opt_id_of v k = Some x \<Longrightarrow> \<forall>i \<in> set_option x. small_id i"
  by (auto simp: opt_id_of_def small_id_def word_sless_alt split: option.splits if_splits)

lemma transaction_from_json_storable:
  assumes "transaction_from_json v = Some r" "json_wf v"
  shows "record_storable r"
  using assms(1)
  by (auto simp: transaction_from_json_def record_storable_def money_ok_def amount_def word_sless_alt
      dest: int_of_wf [OF assms(2)] opt_id_of_small split: option.splits if_splits prod.splits)

lemma deserialize_transaction_storable:
  "deserialize_transaction s = Some r \<Longrightarrow> record_storable r"
  by (auto simp: deserialize_transaction_def dest: json_parse_wf transaction_from_json_storable
      split: option.splits)

lemma deserialize_account_storable: "deserialize_account s = Some a \<Longrightarrow> account_storable a"
  by (auto simp: deserialize_account_def account_from_json_def account_storable_def small_id_def
      money_ok_def amount_def word_sless_alt split: option.splits if_splits)

lemma deserialize_account_ok: "deserialize_account s = Some a \<Longrightarrow> account_ok a"
  using deserialize_account_storable by (simp add: account_storable_def account_ok_def)

lemma serialize_transaction_one_line: "CHR 0x0A \<notin> set (serialize_transaction r)"
  by (simp add: serialize_transaction_def json_dump_one_line)

section \<open>Properties\<close>

text \<open>
  C25: the journal text of a transaction record gives the record back, its time cut to the millisecond,
  exactly when its account ids fit in a signed 64-bit integer, its amount is not negative and its own id is
  not 2^63. Every other record is refused when it is read, or comes back different: in particular a record
  that names an account id of 2^63 or more is written but can never be read.
\<close>

theorem transaction_codec_exact:
  "deserialize_transaction (serialize_transaction r) = Some (stored_form r) \<longleftrightarrow> record_storable r"
  using deserialize_transaction_storable [of "serialize_transaction r" "stored_form r"]
    deserialize_serialize_transaction [of r] by auto

text \<open>
  The text of an account gives exactly that account back if and only if its ids and version fit in a
  signed 64-bit integer and its balance is not negative.
\<close>

theorem account_codec_exact:
  "deserialize_account (serialize_account a) = Some a \<longleftrightarrow> account_storable a"
  using deserialize_account_storable [of "serialize_account a" a] deserialize_serialize_account [of a] by auto

end
