(* ===== verification/Bank_Snapshot.thy ===== *)
theory Bank_Snapshot
  imports Bank_Serializer
begin

text \<open>
  src/persistence/SnapshotStore.h and SnapshotStore.cpp: the snapshot file and its temporary
  sibling. The file system is the contents of the two paths; what the operating system answers to
  open, write, rename and remove is an argument.
\<close>

record snapshot =
  snap_lsn :: u64
  snap_accounts :: "account list"

record snapshot_files =
  snap_file :: "string option"
  snap_tmp :: "string option"

record store_io =
  open_ok :: bool
  write_reached :: "nat option"
  rename_error :: "string option"
  remove_error :: "string option"

text \<open>
  \<open>write_reached\<close> is \<open>None\<close> when the stream stays good, otherwise the number of bytes that reached
  the file. \<open>error_code::message()\<close> of a cleared code is "Success".
\<close>

definition ec_message :: "string option \<Rightarrow> string" where
  "ec_message ec = (case ec of None \<Rightarrow> ''Success'' | Some m \<Rightarrow> m)"

definition snapshot_to_json :: "snapshot \<Rightarrow> json" where
  "snapshot_to_json s = object_of
     [(''lsn'', JInteger (snap_lsn s)),
      (''accounts'', JArray (map account_to_json (snap_accounts s)))]"

definition snapshot_text :: "snapshot \<Rightarrow> string" where
  "snapshot_text s = json_dump (snapshot_to_json s) @ [CHR 0x0A]"

text \<open>
  The temporary file is truncated when it opens. The error code of the failed rename is overwritten
  by the one of \<open>remove\<close> before the message is built, as in the source.
\<close>

definition snapshot_store :: "store_io \<Rightarrow> snapshot_files \<Rightarrow> snapshot \<Rightarrow> (exn + unit) \<times> snapshot_files" where
  "snapshot_store io fs s =
     (if \<not> open_ok io then (Inl (Runtime_error ''SnapshotStore: write failed''), fs)
      else case write_reached io of
             Some n \<Rightarrow>
               (Inl (Runtime_error ''SnapshotStore: write failed''),
                fs\<lparr>snap_tmp := Some (take n (snapshot_text s))\<rparr>)
           | None \<Rightarrow>
               (case rename_error io of
                  None \<Rightarrow> (Inr (), \<lparr>snap_file = Some (snapshot_text s), snap_tmp = None\<rparr>)
                | Some _ \<Rightarrow>
                    (Inl (Runtime_error (''SnapshotStore: commit rename failed: '' @
                       ec_message (remove_error io))),
                     fs\<lparr>snap_tmp := (if remove_error io = None then None else Some (snapshot_text s))\<rparr>)))"

fun load_accounts :: "json list \<Rightarrow> account list option" where
  "load_accounts [] = Some []"
| "load_accounts (item # items) =
     (case account_from_json item of
        None \<Rightarrow> None
      | Some a \<Rightarrow> map_option (\<lambda>as. a # as) (load_accounts items))"

definition snapshot_load :: "snapshot_files \<Rightarrow> snapshot option" where
  "snapshot_load fs =
     (case snap_file fs of
        None \<Rightarrow> None
      | Some data \<Rightarrow>
          (case json_parse data of
             None \<Rightarrow> None
           | Some doc \<Rightarrow>
               (if json_type doc \<noteq> Object_type then None
                else case (json_find doc ''lsn'', json_find doc ''accounts'') of
                       (Some lsn, Some accounts) \<Rightarrow>
                         (case as_integer lsn of
                            None \<Rightarrow> None
                          | Some n \<Rightarrow>
                              (case load_accounts (json_items accounts) of
                                 None \<Rightarrow> None
                               | Some as \<Rightarrow> Some \<lparr>snap_lsn = n, snap_accounts = as\<rparr>))
                     | _ \<Rightarrow> None)))"

definition snapshot_clear :: "bool \<Rightarrow> snapshot_files \<Rightarrow> snapshot_files" where
  "snapshot_clear ok fs = (if ok then fs\<lparr>snap_file := None\<rparr> else fs)"

section \<open>Lemmas\<close>

definition snapshot_storable :: "snapshot \<Rightarrow> bool" where
  "snapshot_storable s \<longleftrightarrow>
     snap_lsn s \<noteq> i64_min \<and> list_all account_storable (snap_accounts s)"

lemma load_accounts_to_json:
  "list_all account_storable as \<Longrightarrow> load_accounts (map account_to_json as) = Some as"
  by (induction as) (simp_all add: account_from_to_json)

lemma snapshot_to_json_wf: "snapshot_storable s \<Longrightarrow> json_wf (snapshot_to_json s)"
  by (auto simp: snapshot_to_json_def object_of_def snapshot_storable_def list_all_iff account_to_json_wf)

lemma snapshot_load_text:
  assumes "snapshot_storable s" "snap_file fs = Some (snapshot_text s)"
  shows "snapshot_load fs = Some s"
proof -
  have parse: "json_parse (snapshot_text s) = Some (snapshot_to_json s)"
    unfolding snapshot_text_def by (rule json_parse_dump_newline) (rule snapshot_to_json_wf [OF assms(1)])
  have "json_find (snapshot_to_json s) ''lsn'' = Some (JInteger (snap_lsn s))"
    "json_find (snapshot_to_json s) ''accounts'' = Some (JArray (map account_to_json (snap_accounts s)))"
    "json_type (snapshot_to_json s) = Object_type"
    by (simp_all add: snapshot_to_json_def object_of_def json_find_def)
  with parse assms show ?thesis
    by (simp add: snapshot_load_def load_accounts_to_json snapshot_storable_def)
qed

lemma snapshot_store_cases:
  "(fst (snapshot_store io fs s) = Inr () \<and> snap_file (snd (snapshot_store io fs s)) = Some (snapshot_text s)) \<or>
   (\<exists>e. fst (snapshot_store io fs s) = Inl e \<and> snap_file (snd (snapshot_store io fs s)) = snap_file fs)"
  by (auto simp: snapshot_store_def split: option.splits)

lemma load_accounts_storable: "load_accounts items = Some as \<Longrightarrow> list_all account_ok as"
  by (induction items arbitrary: as)
    (auto simp: account_from_json_def account_ok_def money_ok_def amount_def word_sless_alt
      split: option.splits if_splits)

lemma snapshot_load_accounts_ok: "snapshot_load fs = Some s \<Longrightarrow> accounts_ok (snap_accounts s)"
  by (auto simp: snapshot_load_def accounts_ok_def dest: load_accounts_storable
      split: option.splits if_splits)

lemma snapshot_load_cong: "snap_file fs = snap_file gs \<Longrightarrow> snapshot_load fs = snapshot_load gs"
  by (simp add: snapshot_load_def)

section \<open>Property\<close>

text \<open>
  C23: storing a snapshot is all or nothing, whatever the operating system answers, for a snapshot that can be
  written: a log position that is not 2^63, account and owner ids and versions below 2^63, and balances that are
  not negative (\<open>snapshot_storable\<close>). If \<open>store\<close> returns, a later \<open>load\<close> gives exactly the snapshot stored; if
  it throws, at whichever of its steps, a later \<open>load\<close> gives what it gave before.
\<close>

theorem snapshot_store_atomic:
  assumes "snapshot_store io fs s = (outcome, fs')" "snapshot_storable s"
  shows "snapshot_load fs' = (case outcome of Inr _ \<Rightarrow> Some s | Inl e \<Rightarrow> snapshot_load fs)"
  using snapshot_store_cases [of io fs s] assms snapshot_load_text [OF assms(2), of fs']
    snapshot_load_cong [of fs' fs]
  by (cases outcome) auto

theorem snapshot_store_atomic_witness:
  "snapshot_load (snd (snapshot_store
     \<lparr>open_ok = True, write_reached = None, rename_error = None, remove_error = None\<rparr>
     \<lparr>snap_file = None, snap_tmp = None\<rparr>
     \<lparr>snap_lsn = 7, snap_accounts = [\<lparr>acc_id = Id 1, acc_owner_id = Id 2, acc_balance = Mk_Money 500,
        acc_status = Frozen, acc_version = 4\<rparr>]\<rparr>)) =
   Some \<lparr>snap_lsn = 7, snap_accounts = [\<lparr>acc_id = Id 1, acc_owner_id = Id 2, acc_balance = Mk_Money 500,
        acc_status = Frozen, acc_version = 4\<rparr>]\<rparr>"
  using snapshot_store_atomic [of "\<lparr>open_ok = True, write_reached = None, rename_error = None, remove_error = None\<rparr>"
      "\<lparr>snap_file = None, snap_tmp = None\<rparr>"
      "\<lparr>snap_lsn = 7, snap_accounts = [\<lparr>acc_id = Id 1, acc_owner_id = Id 2, acc_balance = Mk_Money 500,
        acc_status = Frozen, acc_version = 4\<rparr>]\<rparr>", OF prod.collapse [symmetric]]
  by (simp add: snapshot_storable_def account_storable_def small_id_def money_ok_def amount_def snapshot_store_def)

end
