(* ===== verification/Std_Map.thy ===== *)
theory Std_Map
  imports Main
begin

text \<open>
  The part of \<open>std::map\<close> the repositories use: an association list kept in strictly ascending key
  order, so that iteration is the order of the list. \<open>ordered_map\<close> states what a client may rely on,
  with \<open>map_of\<close> as the abstraction.
\<close>

fun omap_insert_or_assign :: "'k::linorder \<Rightarrow> 'v \<Rightarrow> ('k \<times> 'v) list \<Rightarrow> ('k \<times> 'v) list" where
  "omap_insert_or_assign k v [] = [(k, v)]"
| "omap_insert_or_assign k v ((k', v') # m) =
     (if k < k' then (k, v) # (k', v') # m
      else if k = k' then (k, v) # m
      else (k', v') # omap_insert_or_assign k v m)"

fun omap_find :: "'k::linorder \<Rightarrow> ('k \<times> 'v) list \<Rightarrow> 'v option" where
  "omap_find k [] = None"
| "omap_find k ((k', v') # m) = (if k = k' then Some v' else omap_find k m)"

fun omap_erase :: "'k::linorder \<Rightarrow> ('k \<times> 'v) list \<Rightarrow> ('k \<times> 'v) list" where
  "omap_erase k [] = []"
| "omap_erase k ((k', v') # m) = (if k = k' then m else (k', v') # omap_erase k m)"

definition omap_ok :: "('k::linorder \<times> 'v) list \<Rightarrow> bool" where
  "omap_ok m \<longleftrightarrow> sorted_wrt (<) (map fst m)"

lemma omap_find_map_of: "omap_find k m = map_of m k"
  by (induction m) auto

lemma omap_insert_keys: "fst ` set (omap_insert_or_assign k v m) = insert k (fst ` set m)"
proof (induction m)
  case (Cons p m)
  then show ?case by (cases p) auto
qed simp

lemma omap_insert_set: "set (omap_insert_or_assign k v m) \<subseteq> insert (k, v) (set m)"
proof (induction m)
  case (Cons p m)
  then show ?case by (cases p) auto
qed simp

lemma omap_erase_set: "set (omap_erase k m) \<subseteq> set m"
proof (induction m)
  case (Cons p m)
  then show ?case by (cases p) auto
qed simp

lemma omap_insert_ok: "omap_ok m \<Longrightarrow> omap_ok (omap_insert_or_assign k v m)"
proof (induction m)
  case (Cons p m)
  obtain k' v' where p: "p = (k', v')" by (cases p)
  have "\<forall>x \<in> fst ` set (omap_insert_or_assign k v m). k' < x" if "\<not> k < k'" "k \<noteq> k'"
    unfolding omap_insert_keys using that Cons.prems by (auto simp: omap_ok_def p)
  with Cons p show ?case by (auto simp: omap_ok_def)
qed (simp add: omap_ok_def)

lemma omap_erase_ok: "omap_ok m \<Longrightarrow> omap_ok (omap_erase k m)"
proof (induction m)
  case (Cons p m)
  obtain k' v' where p: "p = (k', v')" by (cases p)
  have "\<forall>x \<in> set (omap_erase k m). k' < fst x"
    using omap_erase_set [of k m] Cons.prems by (auto simp: omap_ok_def p)
  with Cons p show ?case by (auto simp: omap_ok_def)
qed simp

lemma omap_insert_map_of: "map_of (omap_insert_or_assign k v m) = (map_of m)(k \<mapsto> v)"
proof (induction m)
  case (Cons p m)
  then show ?case by (cases p) (auto simp: fun_eq_iff)
qed simp

lemma omap_erase_map_of: "omap_ok m \<Longrightarrow> map_of (omap_erase k m) = (map_of m)(k := None)"
proof (induction m)
  case (Cons p m)
  obtain k' v' where p: "p = (k', v')" by (cases p)
  have "map_of m k' = None"
    using Cons.prems by (auto simp: omap_ok_def p map_of_eq_None_iff)
  with Cons p show ?case by (auto simp: fun_eq_iff omap_ok_def)
qed simp

lemma omap_ok_distinct: "omap_ok m \<Longrightarrow> distinct (map fst m)"
  by (simp add: omap_ok_def strict_sorted_iff)

section \<open>The interface\<close>

locale ordered_map =
  fixes empty :: "'m"
    and insert_or_assign :: "'k::linorder \<Rightarrow> 'v \<Rightarrow> 'm \<Rightarrow> 'm"
    and erase :: "'k \<Rightarrow> 'm \<Rightarrow> 'm"
    and find :: "'k \<Rightarrow> 'm \<Rightarrow> 'v option"
    and entries :: "'m \<Rightarrow> ('k \<times> 'v) list"
    and ok :: "'m \<Rightarrow> bool"
  assumes ok_empty: "ok empty"
    and ok_insert: "ok m \<Longrightarrow> ok (insert_or_assign k v m)"
    and ok_erase: "ok m \<Longrightarrow> ok (erase k m)"
    and find_empty: "find k empty = None"
    and find_insert: "ok m \<Longrightarrow> find k (insert_or_assign k' v m) = (if k = k' then Some v else find k m)"
    and find_erase: "ok m \<Longrightarrow> find k (erase k' m) = (if k = k' then None else find k m)"
    and entries_find: "ok m \<Longrightarrow> (k, v) \<in> set (entries m) \<longleftrightarrow> find k m = Some v"
    and entries_sorted: "ok m \<Longrightarrow> sorted_wrt (<) (map fst (entries m))"
begin

lemma find_reinsert: "ok m \<Longrightarrow> find k (insert_or_assign k w (insert_or_assign k v m)) = Some w"
  by (simp add: ok_insert find_insert)

lemma entries_distinct: "ok m \<Longrightarrow> distinct (map fst (entries m))"
  using entries_sorted [of m] by (simp add: strict_sorted_iff)

lemma entries_insert:
  "ok m \<Longrightarrow> set (entries (insert_or_assign k v m)) =
     insert (k, v) {(k', v') \<in> set (entries m). k' \<noteq> k}"
  by (auto simp: entries_find ok_insert find_insert split: if_splits)

end

interpretation std_map: ordered_map "[]" omap_insert_or_assign omap_erase omap_find "\<lambda>m. m" omap_ok
proof unfold_locales
  show "omap_ok m \<Longrightarrow> (k, v) \<in> set m \<longleftrightarrow> omap_find k m = Some v" for m :: "('a \<times> 'b) list" and k v
    using omap_ok_distinct [of m] by (auto simp: omap_find_map_of map_of_eq_Some_iff)
qed (auto simp: omap_insert_ok omap_erase_ok omap_find_map_of omap_insert_map_of omap_erase_map_of,
    simp_all add: omap_ok_def)

end
