(* ===== verification/Bank_Repositories.thy ===== *)
theory Bank_Repositories
  imports Bank_Transaction Std_Map
begin

text \<open>
  src/persistence: the repository interfaces and their container-backed implementations. An abstract
  class is a record of its methods over the state \<open>'r\<close> of the implementation; a method may throw
  (the SQLite implementation does), so its result is \<open>exn + 'a\<close>, and a mutating method returns the
  state as it is left also when it throws. \<open>Customer.h\<close>, \<open>AuditEntry.h\<close> and \<open>AuditFilter.h\<close> are
  here too, next to the repositories that store them.
\<close>

section \<open>Stored values\<close>

record password_hash =
  ph_algorithm :: string
  ph_salt :: string
  ph_digest :: string

record customer =
  cust_id :: customer_id
  cust_name :: string
  cust_pin_hash :: password_hash
  cust_role :: role

record audit_entry =
  ae_id :: u64
  ae_timestamp :: time_point
  ae_actor_id :: customer_id
  ae_action :: string
  ae_details :: string

record audit_filter =
  af_action :: "string option"
  af_actor :: "customer_id option"
  af_since :: "time_point option"

section \<open>Interfaces\<close>

record 'r account_repository =
  ar_find_by_id :: "'r \<Rightarrow> account_id \<Rightarrow> exn + account option"
  ar_all :: "'r \<Rightarrow> exn + account list"
  ar_save :: "'r \<Rightarrow> account \<Rightarrow> (exn + unit) \<times> 'r"
  ar_remove :: "'r \<Rightarrow> account_id \<Rightarrow> (exn + unit) \<times> 'r"

record 'r transaction_repository =
  tr_append :: "'r \<Rightarrow> transaction_record \<Rightarrow> (exn + unit) \<times> 'r"
  tr_for_account :: "'r \<Rightarrow> account_id \<Rightarrow> exn + transaction_record list"
  tr_all :: "'r \<Rightarrow> exn + transaction_record list"

record 'r audit_repository =
  au_append :: "'r \<Rightarrow> audit_entry \<Rightarrow> (exn + unit) \<times> 'r"
  au_find :: "'r \<Rightarrow> audit_filter \<Rightarrow> exn + audit_entry list"

record 'r customer_repository =
  cr_find_by_id :: "'r \<Rightarrow> customer_id \<Rightarrow> exn + customer option"
  cr_save :: "'r \<Rightarrow> customer \<Rightarrow> (exn + unit) \<times> 'r"

text \<open>
  What the layers above rely on. \<open>view\<close> is the abstract contents, to which \<open>add\<close> appends; a call that
  throws changes nothing. The reliable variants never throw, which the container-backed repositories do not.
\<close>

locale account_store =
  fixes repo :: "'r account_repository"
    and ok :: "'r \<Rightarrow> bool"
    and view :: "'r \<Rightarrow> account_id \<Rightarrow> account option"
  assumes find_view: "ok r \<Longrightarrow> ar_find_by_id repo r i = Inr x \<Longrightarrow> x = view r i"
    and save_ok: "ok r \<Longrightarrow> ar_save repo r a = (Inr (), r') \<Longrightarrow>
      ok r' \<and> view r' = (view r)(acc_id a \<mapsto> a)"
    and save_throws: "ok r \<Longrightarrow> ar_save repo r a = (Inl e, r') \<Longrightarrow> ok r' \<and> view r' = view r"
    and view_id: "ok r \<Longrightarrow> view r i = Some a \<Longrightarrow> acc_id a = i"

locale reliable_account_store = account_store +
  assumes find_total: "ok r \<Longrightarrow> \<exists>x. ar_find_by_id repo r i = Inr x"
    and save_total: "ok r \<Longrightarrow> \<exists>r'. ar_save repo r a = (Inr (), r')"

locale transaction_store =
  fixes repo :: "'r transaction_repository"
    and view :: "'r \<Rightarrow> 'v"
    and add :: "transaction_record \<Rightarrow> 'v \<Rightarrow> 'v"
  assumes append_ok: "tr_append repo r x = (Inr (), r') \<Longrightarrow> view r' = add x (view r)"
    and append_throws: "tr_append repo r x = (Inl e, r') \<Longrightarrow> view r' = view r"

locale reliable_transaction_store = transaction_store +
  assumes append_total: "\<exists>r'. tr_append repo r x = (Inr (), r')"

locale audit_store =
  fixes repo :: "'r audit_repository"
    and view :: "'r \<Rightarrow> 'v"
    and add :: "audit_entry \<Rightarrow> 'v \<Rightarrow> 'v"
  assumes append_ok: "au_append repo r x = (Inr (), r') \<Longrightarrow> view r' = add x (view r)"
    and append_throws: "au_append repo r x = (Inl e, r') \<Longrightarrow> view r' = view r"

locale reliable_audit_store = audit_store +
  assumes append_total: "\<exists>r'. au_append repo r x = (Inr (), r')"

locale customer_store =
  fixes repo :: "'r customer_repository"
    and ok :: "'r \<Rightarrow> bool"
    and view :: "'r \<Rightarrow> customer_id \<Rightarrow> customer option"
    and fits :: "customer \<Rightarrow> bool"
  assumes find_view: "ok r \<Longrightarrow> cr_find_by_id repo r i = Inr x \<Longrightarrow> x = view r i"
    and save_ok: "ok r \<Longrightarrow> fits c \<Longrightarrow> cr_save repo r c = (Inr (), r') \<Longrightarrow>
      ok r' \<and> view r' = (view r)(cust_id c \<mapsto> c)"
    and save_throws: "ok r \<Longrightarrow> cr_save repo r c = (Inl e, r') \<Longrightarrow> ok r' \<and> view r' = view r"
    and view_id: "ok r \<Longrightarrow> view r i = Some c \<Longrightarrow> cust_id c = i"

section \<open>In-memory accounts and customers\<close>

type_synonym memory_accounts = "(u64 \<times> account) list"

definition mem_accounts_find_by_id :: "memory_accounts \<Rightarrow> account_id \<Rightarrow> exn + account option" where
  "mem_accounts_find_by_id m i = Inr (omap_find (id_value i) m)"

definition mem_accounts_all :: "memory_accounts \<Rightarrow> exn + account list" where
  "mem_accounts_all m = Inr (map snd m)"

definition mem_accounts_save :: "memory_accounts \<Rightarrow> account \<Rightarrow> (exn + unit) \<times> memory_accounts" where
  "mem_accounts_save m a = (Inr (), omap_insert_or_assign (id_value (acc_id a)) a m)"

definition mem_accounts_remove :: "memory_accounts \<Rightarrow> account_id \<Rightarrow> (exn + unit) \<times> memory_accounts" where
  "mem_accounts_remove m i = (Inr (), omap_erase (id_value i) m)"

definition mem_accounts :: "memory_accounts account_repository" where
  "mem_accounts =
     \<lparr>ar_find_by_id = mem_accounts_find_by_id, ar_all = mem_accounts_all,
      ar_save = mem_accounts_save, ar_remove = mem_accounts_remove\<rparr>"

text \<open>Keys ascend, and each account is stored under its own id.\<close>

definition mem_accounts_ok :: "memory_accounts \<Rightarrow> bool" where
  "mem_accounts_ok m \<longleftrightarrow> omap_ok m \<and> list_all (\<lambda>(k, a). id_value (acc_id a) = k) m"

definition mem_accounts_view :: "memory_accounts \<Rightarrow> account_id \<Rightarrow> account option" where
  "mem_accounts_view m i = omap_find (id_value i) m"

type_synonym memory_customers = "(u64 \<times> customer) list"

definition mem_customers_find_by_id :: "memory_customers \<Rightarrow> customer_id \<Rightarrow> exn + customer option" where
  "mem_customers_find_by_id m i = Inr (omap_find (id_value i) m)"

definition mem_customers_save :: "memory_customers \<Rightarrow> customer \<Rightarrow> (exn + unit) \<times> memory_customers" where
  "mem_customers_save m c = (Inr (), omap_insert_or_assign (id_value (cust_id c)) c m)"

definition mem_customers :: "memory_customers customer_repository" where
  "mem_customers = \<lparr>cr_find_by_id = mem_customers_find_by_id, cr_save = mem_customers_save\<rparr>"

lemma ident_eq_iff: "id_value i = id_value j \<longleftrightarrow> i = j"
  by (cases i; cases j) simp

lemma mem_accounts_save_ok [bank_inv]:
  assumes "mem_accounts_ok m"
  shows "mem_accounts_ok (omap_insert_or_assign (id_value (acc_id a)) a m)"
  using assms omap_insert_set [of "id_value (acc_id a)" a m]
  by (auto simp: mem_accounts_ok_def list_all_iff std_map.ok_insert)

lemma mem_accounts_remove_ok [bank_inv]:
  "mem_accounts_ok m \<Longrightarrow> mem_accounts_ok (omap_erase k m)"
  using omap_erase_set [of k m] by (auto simp: mem_accounts_ok_def list_all_iff std_map.ok_erase)

interpretation mem_account_store:
  reliable_account_store mem_accounts mem_accounts_ok mem_accounts_view
proof unfold_locales
  show "mem_accounts_view r i = Some a \<Longrightarrow> acc_id a = i" if "mem_accounts_ok r" for r i a
    using that by (force simp: mem_accounts_ok_def mem_accounts_view_def list_all_iff ident_eq_iff
        simp flip: std_map.entries_find)
qed (auto simp: mem_accounts_def mem_accounts_find_by_id_def mem_accounts_save_def
    mem_accounts_view_def fun_eq_iff std_map.find_insert mem_accounts_ok_def ident_eq_iff
    intro: mem_accounts_save_ok [unfolded mem_accounts_ok_def, THEN conjunct1]
      mem_accounts_save_ok [unfolded mem_accounts_ok_def, THEN conjunct2])

definition mem_customers_ok :: "memory_customers \<Rightarrow> bool" where
  "mem_customers_ok m \<longleftrightarrow> omap_ok m \<and> list_all (\<lambda>(k, c). id_value (cust_id c) = k) m"

definition mem_customers_view :: "memory_customers \<Rightarrow> customer_id \<Rightarrow> customer option" where
  "mem_customers_view m i = omap_find (id_value i) m"

lemma mem_customers_save_ok [bank_inv]:
  assumes "mem_customers_ok m"
  shows "mem_customers_ok (omap_insert_or_assign (id_value (cust_id c)) c m)"
  using assms omap_insert_set [of "id_value (cust_id c)" c m]
  by (auto simp: mem_customers_ok_def list_all_iff std_map.ok_insert)

interpretation mem_customer_store: customer_store mem_customers mem_customers_ok mem_customers_view "\<lambda>_. True"
proof unfold_locales
  show "mem_customers_view r i = Some c \<Longrightarrow> cust_id c = i" if "mem_customers_ok r" for r i c
    using that by (force simp: mem_customers_ok_def mem_customers_view_def list_all_iff ident_eq_iff
        simp flip: std_map.entries_find)
qed (auto simp: mem_customers_def mem_customers_find_by_id_def mem_customers_save_def
    mem_customers_view_def fun_eq_iff std_map.find_insert mem_customers_ok_def ident_eq_iff
    intro: mem_customers_save_ok [unfolded mem_customers_ok_def, THEN conjunct1]
      mem_customers_save_ok [unfolded mem_customers_ok_def, THEN conjunct2])

section \<open>In-memory transactions and audit trail\<close>

type_synonym memory_transactions = "transaction_record list"

definition involves :: "account_id \<Rightarrow> transaction_record \<Rightarrow> bool" where
  "involves i r \<longleftrightarrow> rec_from r = Some i \<or> rec_to r = Some i"

definition mem_transactions_append ::
  "memory_transactions \<Rightarrow> transaction_record \<Rightarrow> (exn + unit) \<times> memory_transactions" where
  "mem_transactions_append rs r = (Inr (), rs @ [r])"

definition mem_transactions_for_account ::
  "memory_transactions \<Rightarrow> account_id \<Rightarrow> exn + transaction_record list" where
  "mem_transactions_for_account rs i = Inr (filter (involves i) rs)"

definition mem_transactions_all :: "memory_transactions \<Rightarrow> exn + transaction_record list" where
  "mem_transactions_all rs = Inr rs"

definition mem_transactions :: "memory_transactions transaction_repository" where
  "mem_transactions =
     \<lparr>tr_append = mem_transactions_append, tr_for_account = mem_transactions_for_account,
      tr_all = mem_transactions_all\<rparr>"

type_synonym memory_audit = "audit_entry list"

definition mem_audit_append :: "memory_audit \<Rightarrow> audit_entry \<Rightarrow> (exn + unit) \<times> memory_audit" where
  "mem_audit_append es e = (Inr (), es @ [e])"

text \<open>The filter loop: an entry is skipped by the first criterion that is set and does not match.\<close>

fun mem_audit_find_loop :: "audit_filter \<Rightarrow> memory_audit \<Rightarrow> audit_entry list" where
  "mem_audit_find_loop f [] = []"
| "mem_audit_find_loop f (e # es) =
     (if (case af_action f of None \<Rightarrow> False | Some a \<Rightarrow> a \<noteq> ae_action e) then mem_audit_find_loop f es
      else if (case af_actor f of None \<Rightarrow> False | Some a \<Rightarrow> a \<noteq> ae_actor_id e) then mem_audit_find_loop f es
      else if (case af_since f of None \<Rightarrow> False | Some t \<Rightarrow> ae_timestamp e <s t) then mem_audit_find_loop f es
      else e # mem_audit_find_loop f es)"

definition mem_audit_find :: "memory_audit \<Rightarrow> audit_filter \<Rightarrow> exn + audit_entry list" where
  "mem_audit_find es f = Inr (mem_audit_find_loop f es)"

definition mem_audit :: "memory_audit audit_repository" where
  "mem_audit = \<lparr>au_append = mem_audit_append, au_find = mem_audit_find\<rparr>"

interpretation mem_transaction_store: reliable_transaction_store mem_transactions "\<lambda>rs. rs" "\<lambda>r rs. rs @ [r]"
  by unfold_locales
    (auto simp: mem_transactions_def mem_transactions_append_def mem_transactions_all_def)

interpretation mem_audit_store: reliable_audit_store mem_audit "\<lambda>es. es" "\<lambda>e es. es @ [e]"
  by unfold_locales (auto simp: mem_audit_def mem_audit_append_def)

text \<open>The declarative reading of a filter: every criterion that is set holds.\<close>

definition matches_filter :: "audit_filter \<Rightarrow> audit_entry \<Rightarrow> bool" where
  "matches_filter f e \<longleftrightarrow>
     (\<forall>a \<in> set_option (af_action f). ae_action e = a) \<and>
     (\<forall>a \<in> set_option (af_actor f). ae_actor_id e = a) \<and>
     (\<forall>t \<in> set_option (af_since f). t <=s ae_timestamp e)"

lemma mem_audit_find_loop_filter: "mem_audit_find_loop f es = filter (matches_filter f) es"
  by (induction es)
    (auto simp: matches_filter_def word_sless_alt word_sle_eq split: option.splits)

section \<open>Properties\<close>

text \<open>
  The in-memory account repository is a finite map by account id. After a save the account is found
  under its id and every other id gives what it gave before; after a remove nothing is found under that id
  and every other id is unaffected; and both keep the accounts in ascending order of their ids, each under
  its own id, so \<open>all()\<close> lists them in that order without duplicates.
\<close>

theorem account_repository_map:
  assumes "mem_accounts_ok m"
  shows "(\<exists>m'. mem_accounts_save m a = (Inr (), m') \<and> mem_accounts_ok m' \<and>
      (\<forall>i. mem_accounts_find_by_id m' i = (if i = acc_id a then Inr (Some a) else mem_accounts_find_by_id m i))) \<and>
    (\<exists>m'. mem_accounts_remove m j = (Inr (), m') \<and> mem_accounts_ok m' \<and>
      (\<forall>i. mem_accounts_find_by_id m' i = (if i = j then Inr None else mem_accounts_find_by_id m i))) \<and>
    (\<exists>accts. mem_accounts_all m = Inr accts \<and> sorted_wrt (<) (map acc_id accts))"
proof -
  have ok: "omap_ok m" and keys: "map fst m = map (\<lambda>p. id_value (acc_id (snd p))) m"
    using assms by (auto simp: mem_accounts_ok_def list_all_iff)
  have "sorted_wrt (<) (map (\<lambda>p. id_value (acc_id (snd p))) m)"
    using ok keys by (simp add: omap_ok_def)
  then have "sorted_wrt (<) (map acc_id (map snd m))"
    by (simp add: sorted_wrt_map ident_order_defs)
  then show ?thesis
    using mem_accounts_save_ok [OF assms] mem_accounts_remove_ok [OF assms]
    by (simp add: mem_accounts_save_def mem_accounts_remove_def mem_accounts_find_by_id_def mem_accounts_all_def
        std_map.find_insert [OF ok] std_map.find_erase [OF ok] ident_eq_iff)
qed

theorem account_repository_map_witness:
  "\<exists>m'. mem_accounts_remove [(3, \<lparr>acc_id = Id 3, acc_owner_id = Id 1, acc_balance = Mk_Money 5,
       acc_status = Active, acc_version = 0\<rparr>)] (Id 3) = (Inr (), m') \<and> mem_accounts_find_by_id m' (Id 3) = Inr None"
  using account_repository_map [of "[(3, \<lparr>acc_id = Id 3, acc_owner_id = Id 1, acc_balance = Mk_Money 5,
       acc_status = Active, acc_version = 0\<rparr>)]" _ "Id 3"]
  by (simp add: mem_accounts_ok_def omap_ok_def) metis

text \<open>
  An audit query returns exactly the entries for which every criterion that is set holds, in the order
  they were appended: the same action, the same actor, a time not before the given one.
\<close>

theorem audit_query_filters:
  "mem_audit_find entries f = Inr (filter
     (\<lambda>e. (case af_action f of None \<Rightarrow> True | Some action \<Rightarrow> ae_action e = action) \<and>
          (case af_actor f of None \<Rightarrow> True | Some actor \<Rightarrow> ae_actor_id e = actor) \<and>
          (case af_since f of None \<Rightarrow> True | Some since \<Rightarrow> sint since \<le> sint (ae_timestamp e))) entries)"
proof -
  have "matches_filter f = (\<lambda>e.
      (case af_action f of None \<Rightarrow> True | Some action \<Rightarrow> ae_action e = action) \<and>
      (case af_actor f of None \<Rightarrow> True | Some actor \<Rightarrow> ae_actor_id e = actor) \<and>
      (case af_since f of None \<Rightarrow> True | Some since \<Rightarrow> sint since \<le> sint (ae_timestamp e)))"
    by (auto simp: fun_eq_iff matches_filter_def word_sle_eq split: option.splits)
  then show ?thesis by (simp add: mem_audit_find_def mem_audit_find_loop_filter)
qed

end
