(* ===== verification/Bank_Wal.thy ===== *)
theory Bank_Wal
  imports Bank_Serializer
begin

text \<open>
  src/persistence/WalLogger.h and WalLogger.cpp: the append-only journal. The file at \<open>path_\<close> is a
  string of bytes, part of the state; the operating system's answers (did the resize, the write, the
  marker succeed, how many bytes reached the file) are arguments of the operations, so that every
  I/O failure of the source is a branch. The mutex is not modelled here: each operation is one
  atomic step.
\<close>

section \<open>Record framing\<close>

abbreviation id_field_width :: nat where "id_field_width \<equiv> 16"
abbreviation header_size :: nat where "header_size \<equiv> 17"
abbreviation newline :: char where "newline \<equiv> CHR 0x0A"

definition state_byte :: "transaction_state \<Rightarrow> char" where
  "state_byte s = char_of (48 + state_index s)"

fun state_of_index :: "nat \<Rightarrow> transaction_state option" where
  "state_of_index n =
     (if n = 0 then Some Pending else if n = 1 then Some Validated
      else if n = 2 then Some WalWritten else if n = 3 then Some Applied
      else if n = 4 then Some Committed else if n = 5 then Some Failed
      else if n = 6 then Some RolledBack else None)"

definition state_from_byte :: "char \<Rightarrow> transaction_state option" where
  "state_from_byte c =
     (if code c < 48 \<or> state_index RolledBack < code c - 48 then None
      else state_of_index (code c - 48))"

text \<open>\<open>snprintf("%016llx")\<close>: sixteen lowercase hexadecimal digits.\<close>

fun hex_pad :: "nat \<Rightarrow> nat \<Rightarrow> string" where
  "hex_pad 0 n = []"
| "hex_pad (Suc k) n = hex_pad k (n div 16) @ [hex_digit (n mod 16)]"

definition id_to_field :: "transaction_id \<Rightarrow> string" where
  "id_to_field i = hex_pad id_field_width (unat (id_value i))"

fun id_from_field_loop :: "u64 \<Rightarrow> string \<Rightarrow> u64 option" where
  "id_from_field_loop v [] = Some v"
| "id_from_field_loop v (c # s) =
     (case hex_nibble_lower c of
        None \<Rightarrow> None
      | Some n \<Rightarrow> id_from_field_loop (v * 16 + of_nat n) s)"

definition id_from_field :: "string \<Rightarrow> u64 option" where
  "id_from_field field = id_from_field_loop 0 field"

section \<open>State\<close>

record wal_entry =
  we_id :: transaction_id
  we_state :: transaction_state
  we_offset :: nat
  we_payload :: string

record wal =
  wal_path :: string
  wal_file :: string
  wal_entries :: "wal_entry list"
  wal_next_offset :: nat
  wal_drop_tail :: bool
  wal_valid_length :: nat

section \<open>Opening a journal\<close>

text \<open>\<open>data.find(c)\<close>\<close>

fun find_char :: "char \<Rightarrow> string \<Rightarrow> nat option" where
  "find_char c [] = None"
| "find_char c (d # s) = (if d = c then Some 0 else map_option Suc (find_char c s))"

definition parse_line :: "nat \<Rightarrow> string \<Rightarrow> wal_entry option" where
  "parse_line line_start line =
     (if length line < header_size then None
      else case id_from_field (take id_field_width line) of
             None \<Rightarrow> None
           | Some i \<Rightarrow>
               (case state_from_byte (line ! id_field_width) of
                  None \<Rightarrow> None
                | Some s \<Rightarrow>
                    Some \<lparr>we_id = Id i, we_state = s, we_offset = line_start,
                          we_payload = drop header_size line\<rparr>))"

lemma find_char_less: "find_char c s = Some n \<Longrightarrow> n < length s"
  by (induction s arbitrary: n) (auto split: if_splits)

text \<open>
  The loop of the constructor over the data from \<open>line_start\<close> on: the entries of the complete lines,
  and the position where the first incomplete line starts.
\<close>

function scan :: "nat \<Rightarrow> string \<Rightarrow> wal_entry list \<times> nat" where
  "scan line_start data =
     (case find_char newline data of
        None \<Rightarrow> ([], line_start)
      | Some pos \<Rightarrow>
          (case scan (line_start + pos + 1) (drop (pos + 1) data) of
             (entries, tail) \<Rightarrow>
               ((case parse_line line_start (take pos data) of None \<Rightarrow> [] | Some e \<Rightarrow> [e]) @ entries, tail)))"
  by pat_completeness auto
termination scan
  by (relation "measure (length \<circ> snd)") (auto dest: find_char_less)

declare scan.simps [simp del]

text \<open>A missing file is created empty; \<open>valid_length_\<close> keeps its default when there is no tail.\<close>

definition wal_open :: "string \<Rightarrow> string option \<Rightarrow> wal" where
  "wal_open path file =
     (let data = (case file of None \<Rightarrow> '''' | Some d \<Rightarrow> d);
          (entries, line_start) = scan 0 data
      in if line_start < length data
         then \<lparr>wal_path = path, wal_file = data, wal_entries = entries, wal_next_offset = line_start,
               wal_drop_tail = True, wal_valid_length = line_start\<rparr>
         else \<lparr>wal_path = path, wal_file = data, wal_entries = entries, wal_next_offset = length data,
               wal_drop_tail = False, wal_valid_length = 0\<rparr>)"

section \<open>Writing\<close>

text \<open>
  What the operating system does during an append: the error message of \<open>resize_file\<close>, if it fails,
  and either that the whole line is written or that the stream fails after some bytes of it reached the file.
\<close>

datatype write_outcome = Written | Write_fails_after nat

record append_io =
  resize_error :: "string option"
  write_io :: write_outcome

definition good_io :: append_io where
  "good_io = \<lparr>resize_error = None, write_io = Written\<rparr>"

definition resize_file :: "nat \<Rightarrow> string \<Rightarrow> string" where
  "resize_file n f = take n f @ replicate (n - length f) (CHR 0x00)"

definition truncate_interrupted_tail :: "string option \<Rightarrow> wal \<Rightarrow> (exn + unit) \<times> wal" where
  "truncate_interrupted_tail err w =
     (case err of
        Some msg \<Rightarrow> (Inl (Runtime_error (''WalLogger: tail truncation failed: '' @ msg)), w)
      | None \<Rightarrow> (Inr (), w\<lparr>wal_file := resize_file (wal_valid_length w) (wal_file w),
                      wal_drop_tail := False, wal_next_offset := wal_valid_length w\<rparr>))"

definition wal_line :: "transaction_record \<Rightarrow> string" where
  "wal_line r = id_to_field (rec_id r) @ [state_byte (rec_state r)] @ serialize_transaction r @ [newline]"

definition wal_append :: "append_io \<Rightarrow> wal \<Rightarrow> transaction_record \<Rightarrow> (exn + unit) \<times> wal" where
  "wal_append io w r =
     (case (if wal_drop_tail w then truncate_interrupted_tail (resize_error io) w else (Inr (), w)) of
        (Inl e, w) \<Rightarrow> (Inl e, w)
      | (Inr _, w) \<Rightarrow>
          (let payload = serialize_transaction r;
               line = wal_line r
           in case write_io io of
                Write_fails_after n \<Rightarrow>
                  (Inl (Runtime_error (''WalLogger: append failed for '' @ wal_path w)),
                   w\<lparr>wal_file := wal_file w @ take n line\<rparr>)
              | Written \<Rightarrow>
                  (Inr (),
                   w\<lparr>wal_file := wal_file w @ line,
                     wal_entries := wal_entries w @
                       [\<lparr>we_id = rec_id r, we_state = rec_state r, we_offset = wal_next_offset w,
                         we_payload = payload\<rparr>],
                     wal_next_offset := wal_next_offset w + length line\<rparr>)))"

text \<open>\<open>seekp\<close> and \<open>put\<close>: one byte, written past the end of the file if the position is there.\<close>

definition put_at :: "nat \<Rightarrow> char \<Rightarrow> string \<Rightarrow> string" where
  "put_at n c f =
     (if n < length f then f[n := c] else f @ replicate (n - length f) (CHR 0x00) @ [c])"

fun find_entry :: "wal_entry list \<Rightarrow> transaction_id \<Rightarrow> nat option" where
  "find_entry [] i = None"
| "find_entry (e # es) i = (if we_id e = i then Some 0 else map_option Suc (find_entry es i))"

text \<open>
  \<open>marker\<close> is the outcome of writing the marker: \<open>None\<close> when it succeeds, otherwise whether the byte
  reached the file before the stream failed.
\<close>

definition mark_committed :: "bool option \<Rightarrow> wal \<Rightarrow> transaction_id \<Rightarrow> (exn + unit) \<times> wal" where
  "mark_committed marker w i =
     (case find_entry (wal_entries w) i of
        None \<Rightarrow> (Inl (Logic_error ''WalLogger: mark_committed on unknown transaction id''), w)
      | Some n \<Rightarrow>
          (let e = wal_entries w ! n;
               file = put_at (we_offset e + id_field_width) (state_byte Committed) (wal_file w)
           in if we_state e = Committed then (Inr (), w)
              else case marker of
                     Some reached \<Rightarrow>
                       (Inl (Runtime_error ''WalLogger: commit marker write failed''),
                        if reached then w\<lparr>wal_file := file\<rparr> else w)
                   | None \<Rightarrow>
                       (Inr (), w\<lparr>wal_file := file,
                          wal_entries := (wal_entries w)[n := e\<lparr>we_state := Committed\<rparr>]\<rparr>)))"

section \<open>Reading\<close>

definition wal_size :: "wal \<Rightarrow> nat" where
  "wal_size w = length (wal_entries w)"

definition entry_record :: "wal_entry \<Rightarrow> transaction_record option" where
  "entry_record e =
     (case deserialize_transaction (we_payload e) of
        None \<Rightarrow> None
      | Some r \<Rightarrow> Some (r\<lparr>rec_state := we_state e\<rparr>))"

definition load_all :: "wal \<Rightarrow> transaction_record list" where
  "load_all w = List.map_filter entry_record (wal_entries w)"

definition replay_from :: "wal \<Rightarrow> nat \<Rightarrow> transaction_record list" where
  "replay_from w from_lsn =
     (if length (wal_entries w) \<le> from_lsn then []
      else List.map_filter entry_record (drop from_lsn (wal_entries w)))"

end
