(* ===== verification/Bank_Wal_Recovery.thy ===== *)
theory Bank_Wal_Recovery
  imports Bank_Wal
begin

text \<open>
  What the journal promises: the header of a line can be read back; the memory of an open journal
  is what a fresh open of its file would read (\<open>wal_inv\<close>); opening, appending and committing keep
  this; an append torn by a crash is invisible after the next open and leaves no trace after the
  next append.
\<close>

section \<open>Headers\<close>

lemma state_from_byte_byte [simp]: "state_from_byte (state_byte s) = Some s"
  by (cases s) (simp_all add: state_from_byte_def state_byte_def)

lemma state_from_byte_Some: "state_from_byte c = Some s \<Longrightarrow> c = state_byte s"
proof -
  assume a: "state_from_byte c = Some s"
  then have "48 \<le> code c" "state_of_index (code c - 48) = Some s"
    by (auto simp: state_from_byte_def simp del: state_of_index.simps split: if_splits)
  then have "code c = 48 + state_index s" by (auto split: if_splits)
  then have "char_of (code c) = (char_of (48 + state_index s) :: char)" by (simp only:)
  then show ?thesis by (simp add: state_byte_def)
qed

lemma state_byte_not_newline [simp]: "state_byte s \<noteq> newline"
  by (cases s) (simp_all add: state_byte_def char_of_eq_iff)

lemma length_hex_pad [simp]: "length (hex_pad k n) = k"
  by (induction k arbitrary: n) auto

lemma hex_digit_not_newline: "n < 16 \<Longrightarrow> hex_digit n \<noteq> newline"
  using less_16_cases [of n] by (auto simp: hex_digit_def)

lemma hex_pad_no_newline: "newline \<notin> set (hex_pad k n)"
  by (induction k arbitrary: n) (auto simp: hex_digit_not_newline eq_commute [of newline])

lemma id_from_field_loop_append:
  "id_from_field_loop v (s @ t) =
     (case id_from_field_loop v s of None \<Rightarrow> None | Some w \<Rightarrow> id_from_field_loop w t)"
  by (induction s arbitrary: v) (auto split: option.splits)

lemma id_from_field_hex_pad:
  "id_from_field_loop v (hex_pad k n) = Some (v * 16 ^ k + of_nat (n mod 16 ^ k))"
proof (induction k arbitrary: n v)
  case (Suc k)
  have "n mod 16 ^ Suc k = n div 16 mod 16 ^ k * 16 + n mod 16"
    by (simp add: mod_mult2_eq [of n 16] mult.commute)
  then have "(of_nat (n mod 16 ^ Suc k) :: u64) = of_nat (n div 16 mod 16 ^ k) * 16 + of_nat (n mod 16)"
    by (simp only: of_nat_add of_nat_mult of_nat_numeral)
  then show ?case
    by (simp add: id_from_field_loop_append Suc.IH algebra_simps)
qed simp

lemma id_from_field_to_field: "id_from_field (id_to_field i) = Some (id_value i)"
proof -
  have "unat (id_value i) < 16 ^ 16"
    using unsigned_less [of "id_value i"] by simp
  then show ?thesis
    by (simp add: id_from_field_def id_to_field_def id_from_field_hex_pad del: hex_pad.simps)
qed

lemma length_id_to_field [simp]: "length (id_to_field i) = 16"
  by (simp add: id_to_field_def)

lemma id_to_field_no_newline [simp]: "newline \<notin> set (id_to_field i)"
  by (simp add: id_to_field_def hex_pad_no_newline del: hex_pad.simps)

lemma parse_line_header:
  "parse_line n (id_to_field i @ state_byte s # payload) =
     Some \<lparr>we_id = i, we_state = s, we_offset = n, we_payload = payload\<rparr>"
  by (simp add: parse_line_def id_from_field_to_field nth_append)

lemma parse_line_Some:
  assumes "parse_line n line = Some e"
  shows "17 \<le> length line" "we_offset e = n" "we_payload e = drop 17 line"
    "id_from_field (take 16 line) = Some (id_value (we_id e))"
    "state_from_byte (line ! 16) = Some (we_state e)"
  using assms by (auto simp: parse_line_def split: if_splits option.splits)

lemma parse_line_commit:
  assumes "parse_line n line = Some e"
  shows "parse_line n (line[16 := state_byte Committed]) = Some (e\<lparr>we_state := Committed\<rparr>)"
  using parse_line_Some [OF assms] assms
  by (simp add: parse_line_def take_update_cancel drop_update_cancel)

section \<open>Scanning\<close>

lemma find_char_None: "find_char c s = None \<longleftrightarrow> c \<notin> set s"
  by (induction s) auto

lemma find_char_append: "c \<notin> set s \<Longrightarrow> find_char c (s @ c # t) = Some (length s)"
  by (induction s) auto

lemma find_char_Some:
  "find_char c s = Some n \<Longrightarrow> n < length s \<and> s ! n = c \<and> c \<notin> set (take n s)"
  by (induction s arbitrary: n) (auto split: if_splits)

lemma find_char_append_left: "find_char c s = Some n \<Longrightarrow> find_char c (s @ t) = Some n"
  by (induction s arbitrary: n) (auto split: if_splits)

lemma scan_no_newline: "newline \<notin> set s \<Longrightarrow> scan n s = ([], n)"
  by (subst scan.simps) (simp add: find_char_None [THEN iffD2])

lemma scan_Cons_line:
  assumes "newline \<notin> set line"
  shows "scan n (line @ newline # rest) =
    (case scan (n + length line + 1) rest of
       (es, t) \<Rightarrow> ((case parse_line n line of None \<Rightarrow> [] | Some e \<Rightarrow> [e]) @ es, t))"
  using assms by (subst scan.simps) (simp add: find_char_append)

text \<open>The tail starts inside the data, and nothing complete follows it.\<close>

lemma scan_tail:
  assumes "scan n s = (es, t)"
  shows "n \<le> t \<and> t \<le> n + length s \<and> newline \<notin> set (drop (t - n) s) \<and> scan n (take (t - n) s) = (es, t)"
  using assms
proof (induction n s arbitrary: es t rule: scan.induct)
  case (1 n s)
  show ?case
  proof (cases "find_char newline s")
    case None
    with "1.prems" have "es = []" "t = n" by (simp_all add: scan.simps [of n s])
    with None show ?thesis by (simp add: find_char_None scan_no_newline)
  next
    case (Some p)
    obtain es' where rest: "scan (n + p + 1) (drop (p + 1) s) = (es', t)"
      and es: "es = (case parse_line n (take p s) of None \<Rightarrow> [] | Some e \<Rightarrow> [e]) @ es'"
      using "1.prems" Some by (auto simp: scan.simps [of n s] split: prod.splits)
    note IH = "1.IH" [OF Some rest]
    note p = find_char_Some [OF Some]
    have split: "take (t - n) s = take p s @ newline # take (t - (n + p + 1)) (drop (p + 1) s)"
    proof -
      have "t - n = p + 1 + (t - (n + p + 1))" using IH by linarith
      then have "take (t - n) s = take (p + 1 + (t - (n + p + 1))) s" by (simp only:)
      also have "\<dots> = take (p + 1) s @ take (t - (n + p + 1)) (drop (p + 1) s)"
        by (rule take_add)
      finally show ?thesis using p by (simp add: take_Suc_conv_app_nth)
    qed
    have "scan n (take (t - n) s) = (es, t)"
      unfolding split using p IH es by (subst scan_Cons_line) (auto simp: less_imp_le)
    moreover have "drop (t - n) s = drop (t - (n + p + 1)) (drop (p + 1) s)"
    proof -
      have "t - n = t - (n + p + 1) + (p + 1)" using IH by linarith
      then show ?thesis by (simp only: drop_drop)
    qed
    ultimately show ?thesis using IH p by auto
  qed
qed

lemma scan_append:
  assumes "scan n s = (es, n + length s)"
  shows "scan n (s @ u) = (case scan (n + length s) u of (es', t) \<Rightarrow> (es @ es', t))"
  using assms
proof (induction n s arbitrary: es rule: scan.induct)
  case (1 n s)
  show ?case
  proof (cases "find_char newline s")
    case None
    with "1.prems" have "es = []" "s = []" by (auto simp: scan.simps [of n s])
    then show ?thesis by (simp split: prod.splits)
  next
    case (Some p)
    note p = find_char_Some [OF Some]
    obtain es' where rest: "scan (n + p + 1) (drop (p + 1) s) = (es', n + length s)"
      and es: "es = (case parse_line n (take p s) of None \<Rightarrow> [] | Some e \<Rightarrow> [e]) @ es'"
      using "1.prems" Some by (auto simp: scan.simps [of n s] split: prod.splits)
    have len: "n + p + 1 + length (drop (p + 1) s) = n + length s" using p by auto
    have "scan (n + p + 1) (drop (p + 1) s @ u) =
        (case scan (n + length s) u of (es'', t) \<Rightarrow> (es' @ es'', t))"
      using "1.IH" [OF Some] rest len by (metis (no_types))
    then show ?thesis
      using Some p es find_char_append_left [OF Some, of u]
      by (simp add: scan.simps [of n "s @ u"] split: prod.splits)
  qed
qed

section \<open>The invariant\<close>

text \<open>
  An open journal holds in memory what its file says: the entries of the complete lines, the position
  of the next line, and whether an incomplete line follows.
\<close>

definition wal_inv :: "wal \<Rightarrow> bool" where
  "wal_inv w \<longleftrightarrow>
     scan 0 (wal_file w) = (wal_entries w, wal_next_offset w) \<and>
     (wal_drop_tail w \<longleftrightarrow> wal_next_offset w < length (wal_file w)) \<and>
     (wal_drop_tail w \<longrightarrow> wal_valid_length w = wal_next_offset w)"

text \<open>The part of the file that holds complete lines.\<close>

definition wal_prefix :: "wal \<Rightarrow> string" where
  "wal_prefix w = take (wal_next_offset w) (wal_file w)"

lemma wal_inv_bound: "wal_inv w \<Longrightarrow> wal_next_offset w \<le> length (wal_file w)"
  using scan_tail [of 0 "wal_file w"] by (auto simp: wal_inv_def)

lemma wal_inv_no_tail: "wal_inv w \<Longrightarrow> \<not> wal_drop_tail w \<Longrightarrow> wal_next_offset w = length (wal_file w)"
  using wal_inv_bound [of w] by (auto simp: wal_inv_def)

lemma scan_prefix: "wal_inv w \<Longrightarrow> scan 0 (wal_prefix w) = (wal_entries w, wal_next_offset w)"
  using scan_tail [of 0 "wal_file w"] by (auto simp: wal_inv_def wal_prefix_def)

lemma length_wal_prefix: "wal_inv w \<Longrightarrow> length (wal_prefix w) = wal_next_offset w"
  using wal_inv_bound [of w] by (simp add: wal_prefix_def)

lemma wal_open_fields [simp]:
  "wal_file (wal_open path (Some d)) = d"
  "wal_entries (wal_open path (Some d)) = fst (scan 0 d)"
  "wal_next_offset (wal_open path (Some d)) = snd (scan 0 d)"
  "wal_drop_tail (wal_open path (Some d)) \<longleftrightarrow> snd (scan 0 d) < length d"
  "wal_path (wal_open path (Some d)) = path"
  using scan_tail [of 0 d] by (auto simp: wal_open_def Let_def split: prod.splits)

lemma wal_open_valid_length:
  "snd (scan 0 d) < length d \<Longrightarrow> wal_valid_length (wal_open path (Some d)) = snd (scan 0 d)"
  by (auto simp: wal_open_def Let_def split: prod.splits)

lemma wal_open_inv [bank_inv]: "wal_inv (wal_open path (Some d))"
  by (simp add: wal_inv_def wal_open_valid_length)

lemma wal_open_None: "wal_open path None = wal_open path (Some [])"
  by (simp add: wal_open_def)

text \<open>A fresh open of the file of a journal with the invariant gives the same entries.\<close>

lemma wal_inv_reopen: "wal_inv w \<Longrightarrow> wal_entries (wal_open path (Some (wal_file w))) = wal_entries w"
  by (simp add: wal_inv_def)

section \<open>Appending\<close>

lemma wal_line_split:
  "wal_line r = (id_to_field (rec_id r) @ state_byte (rec_state r) # serialize_transaction r) @ [newline]"
  by (simp add: wal_line_def)

lemma wal_line_no_newline:
  "newline \<notin> set (id_to_field (rec_id r) @ state_byte (rec_state r) # serialize_transaction r)"
  using state_byte_not_newline [of "rec_state r"]
  by (auto simp: serialize_transaction_one_line simp del: state_byte_not_newline)

definition new_entry :: "nat \<Rightarrow> transaction_record \<Rightarrow> wal_entry" where
  "new_entry n r =
     \<lparr>we_id = rec_id r, we_state = rec_state r, we_offset = n, we_payload = serialize_transaction r\<rparr>"

lemma scan_wal_line: "scan n (wal_line r) = ([new_entry n r], n + length (wal_line r))"
  unfolding wal_line_split
  by (subst scan_Cons_line [OF wal_line_no_newline])
    (simp add: scan_no_newline parse_line_header new_entry_def)

lemma take_snoc_notin: "c \<notin> set xs \<Longrightarrow> k < length (xs @ [c]) \<Longrightarrow> c \<notin> set (take k (xs @ [c]))"
  by (auto dest: in_set_takeD)

lemma scan_torn_line: "k < length (wal_line r) \<Longrightarrow> scan n (take k (wal_line r)) = ([], n)"
  unfolding wal_line_split by (intro scan_no_newline take_snoc_notin wal_line_no_newline)

text \<open>
  The state an append starts from after dropping the interrupted tail, if there is one.
\<close>

lemma wal_append_start:
  assumes "wal_inv w" "resize_error io = None"
  shows "\<exists>w0. (if wal_drop_tail w then truncate_interrupted_tail (resize_error io) w else (Inr (), w)) = (Inr (), w0)
    \<and> wal_file w0 = wal_prefix w \<and> wal_entries w0 = wal_entries w \<and>
    wal_next_offset w0 = wal_next_offset w \<and> \<not> wal_drop_tail w0 \<and> wal_path w0 = wal_path w"
proof (cases "wal_drop_tail w")
  case True
  with assms show ?thesis
    by (simp add: truncate_interrupted_tail_def resize_file_def wal_prefix_def wal_inv_def)
next
  case False
  with assms wal_inv_no_tail [of w] show ?thesis by (simp add: wal_prefix_def)
qed

lemma wal_append_written:
  assumes "wal_inv w" "resize_error io = None" "write_io io = Written"
  shows "\<exists>w'. wal_append io w r = (Inr (), w') \<and> wal_inv w' \<and> \<not> wal_drop_tail w' \<and>
    wal_file w' = wal_prefix w @ wal_line r \<and>
    wal_entries w' = wal_entries w @ [new_entry (wal_next_offset w) r]"
proof -
  obtain w0 where w0: "(if wal_drop_tail w then truncate_interrupted_tail (resize_error io) w else (Inr (), w)) = (Inr (), w0)"
    "wal_file w0 = wal_prefix w" "wal_entries w0 = wal_entries w"
    "wal_next_offset w0 = wal_next_offset w" "\<not> wal_drop_tail w0"
    using wal_append_start [OF assms(1,2)] by blast
  have "scan 0 (wal_prefix w) = (wal_entries w, 0 + length (wal_prefix w))"
    using scan_prefix [OF assms(1)] length_wal_prefix [OF assms(1)] by simp
  then have "scan 0 (wal_prefix w @ wal_line r) =
      (wal_entries w @ [new_entry (wal_next_offset w) r], wal_next_offset w + length (wal_line r))"
    by (simp add: scan_append scan_wal_line length_wal_prefix [OF assms(1)])
  with w0 assms(3) length_wal_prefix [OF assms(1)] show ?thesis
    by (simp add: wal_append_def Let_def wal_inv_def new_entry_def)
qed

text \<open>
  An append that fails, or a crash in the middle of it, leaves a strict prefix of the line on disk.
  The next open does not see it and will drop it.
\<close>

lemma torn_append_reopen:
  assumes "wal_inv w" "k < length (wal_line r)"
  shows "wal_entries (wal_open path (Some (wal_prefix w @ take k (wal_line r)))) = wal_entries w"
    and "wal_prefix (wal_open path (Some (wal_prefix w @ take k (wal_line r)))) = wal_prefix w"
proof -
  have "scan 0 (wal_prefix w) = (wal_entries w, 0 + length (wal_prefix w))"
    using scan_prefix [OF assms(1)] length_wal_prefix [OF assms(1)] by simp
  then have s: "scan 0 (wal_prefix w @ take k (wal_line r)) = (wal_entries w, wal_next_offset w)"
    using assms by (simp add: scan_append scan_torn_line length_wal_prefix)
  then show "wal_entries (wal_open path (Some (wal_prefix w @ take k (wal_line r)))) = wal_entries w"
    by simp
  show "wal_prefix (wal_open path (Some (wal_prefix w @ take k (wal_line r)))) = wal_prefix w"
    using s length_wal_prefix [OF assms(1)] by (simp add: wal_prefix_def [of "wal_open _ _"])
qed

section \<open>Committing\<close>

lemma find_entry_Some:
  "find_entry es i = Some n \<Longrightarrow> n < length es \<and> we_id (es ! n) = i \<and> (\<forall>m < n. we_id (es ! m) \<noteq> i)"
proof (induction es arbitrary: n)
  case (Cons e es)
  then show ?case by (cases n) (auto simp: nth_Cons split: if_splits nat.splits)
qed simp

lemma find_entry_None: "find_entry es i = None \<longleftrightarrow> i \<notin> we_id ` set es"
  by (induction es) auto

lemma find_entry_append:
  "find_entry (es @ fs) i =
     (case find_entry es i of Some n \<Rightarrow> Some n | None \<Rightarrow> map_option (\<lambda>m. length es + m) (find_entry fs i))"
proof (induction es)
  case Nil
  show ?case by (cases "find_entry fs i") simp_all
next
  case (Cons e es)
  then show ?case by (cases "find_entry fs i") (auto split: option.splits)
qed

text \<open>Offsets of the entries stay inside the data they were read from.\<close>

lemma scan_offsets:
  assumes "scan n s = (es, t)" "e \<in> set es"
  shows "n \<le> we_offset e \<and> we_offset e + 17 < n + length s"
  using assms
proof (induction n s arbitrary: es t rule: scan.induct)
  case (1 n s)
  then obtain p where p: "find_char newline s = Some p"
    by (cases "find_char newline s") (auto simp: scan.simps [of n s])
  obtain es' where rest: "scan (n + p + 1) (drop (p + 1) s) = (es', t)"
    and es: "es = (case parse_line n (take p s) of None \<Rightarrow> [] | Some e \<Rightarrow> [e]) @ es'"
    using "1.prems"(1) p by (auto simp: scan.simps [of n s] split: prod.splits)
  have ps: "p < length s" using find_char_less [OF p] .
  show ?case
  proof (cases "e \<in> set es'")
    case True
    from "1.IH" [OF p rest True]
    have "n \<le> we_offset e" "we_offset e + 17 < n + p + 1 + (length s - (p + 1))" by simp_all
    with ps show ?thesis by arith
  next
    case False
    with es "1.prems"(2) have "parse_line n (take p s) = Some e"
      by (auto split: option.splits)
    with parse_line_Some [OF this] ps show ?thesis by simp
  qed
qed

lemma list_update_after: "(xs @ y # zs)[length xs + 1 + k := v] = xs @ y # zs[k := v]"
  by (simp add: list_update_append)

text \<open>Overwriting the state byte of one entry changes the state of that entry and nothing else.\<close>

lemma scan_commit:
  assumes "scan n s = (es, t)" "j < length es"
  shows "scan n (s[we_offset (es ! j) + 16 - n := state_byte Committed]) =
    (es[j := (es ! j)\<lparr>we_state := Committed\<rparr>], t)"
  using assms
proof (induction n s arbitrary: es t j rule: scan.induct)
  case (1 n s)
  then obtain p where p: "find_char newline s = Some p"
    by (cases "find_char newline s") (auto simp: scan.simps [of n s])
  note ps = find_char_Some [OF p]
  let ?line = "take p s" and ?rest = "drop (p + 1) s"
  obtain es' where rest: "scan (n + p + 1) ?rest = (es', t)"
    and es: "es = (case parse_line n ?line of None \<Rightarrow> [] | Some e \<Rightarrow> [e]) @ es'"
    using "1.prems"(1) p by (auto simp: scan.simps [of n s] split: prod.splits)
  have s: "s = ?line @ newline # ?rest"
    using ps id_take_nth_drop [of p s] by simp
  have later: "scan n (s[we_offset (es' ! i) + 16 - n := state_byte Committed]) =
      ((case parse_line n ?line of None \<Rightarrow> [] | Some e \<Rightarrow> [e]) @
        es'[i := (es' ! i)\<lparr>we_state := Committed\<rparr>], t)" if i: "i < length es'" for i
  proof -
    let ?k = "we_offset (es' ! i) + 16 - (n + p + 1)"
    have off: "n + p + 1 \<le> we_offset (es' ! i)"
      using scan_offsets [OF rest nth_mem [OF i]] by simp
    have "length ?line = p" using ps by simp
    with off have "we_offset (es' ! i) + 16 - n = length ?line + 1 + ?k" by linarith
    then have "s[we_offset (es' ! i) + 16 - n := state_byte Committed] =
        (?line @ newline # ?rest)[length ?line + 1 + ?k := state_byte Committed]"
      using s by metis
    then have "s[we_offset (es' ! i) + 16 - n := state_byte Committed] =
        ?line @ newline # ?rest[?k := state_byte Committed]"
      by (simp only: list_update_after)
    moreover have "scan (n + p + 1) (?rest[?k := state_byte Committed]) =
        (es'[i := (es' ! i)\<lparr>we_state := Committed\<rparr>], t)"
      by (rule "1.IH" [OF p rest i])
    ultimately show ?thesis
      using ps by (simp add: scan_Cons_line)
  qed
  show ?case
  proof (cases "parse_line n ?line")
    case None
    with es later "1.prems"(2) show ?thesis by simp
  next
    case (Some e)
    note pl = parse_line_Some [OF Some]
    show ?thesis
    proof (cases j)
      case 0
      have "s[16 := state_byte Committed] = ?line[16 := state_byte Committed] @ newline # ?rest"
        using pl(1) by (subst s) (simp add: list_update_append)
      moreover have "newline \<notin> set (?line[16 := state_byte Committed])"
        using ps state_byte_not_newline [of Committed] set_update_subset_insert [of ?line 16]
        by (metis insertE subsetD)
      ultimately show ?thesis
        using 0 Some es pl rest ps parse_line_commit [OF Some]
        by (simp add: scan_Cons_line)
    next
      case (Suc i)
      with es Some later [of i] "1.prems"(2) show ?thesis by simp
    qed
  qed
qed

lemma mark_committed_inv:
  assumes "wal_inv w" "find_entry (wal_entries w) i = Some n"
  shows "\<exists>w'. mark_committed None w i = (Inr (), w') \<and> wal_inv w' \<and>
    wal_entries w' = (wal_entries w)[n := (wal_entries w ! n)\<lparr>we_state := Committed\<rparr>] \<and>
    length (wal_file w') = length (wal_file w)"
proof (cases "we_state (wal_entries w ! n) = Committed")
  case True
  then have "(wal_entries w)[n := (wal_entries w ! n)\<lparr>we_state := Committed\<rparr>] = wal_entries w"
    by (cases "wal_entries w ! n") (simp add: list_update_same_conv find_entry_Some [OF assms(2)])
  with True assms show ?thesis by (simp add: mark_committed_def Let_def)
next
  case False
  let ?e = "wal_entries w ! n"
  have n: "n < length (wal_entries w)" using find_entry_Some [OF assms(2)] by simp
  have s: "scan 0 (wal_file w) = (wal_entries w, wal_next_offset w)"
    using assms(1) by (simp add: wal_inv_def)
  have "we_offset ?e + 16 < length (wal_file w)"
    using scan_offsets [OF s nth_mem [OF n]] by simp
  then have "put_at (we_offset ?e + 16) (state_byte Committed) (wal_file w) =
      (wal_file w)[we_offset ?e + 16 := state_byte Committed]"
    by (simp add: put_at_def)
  then show ?thesis
    using False assms scan_commit [OF s n] by (simp add: mark_committed_def Let_def wal_inv_def)
qed

lemma mark_committed_unknown:
  "i \<notin> we_id ` set (wal_entries w) \<Longrightarrow>
     mark_committed m w i = (Inl (Logic_error ''WalLogger: mark_committed on unknown transaction id''), w)"
  by (simp add: mark_committed_def find_entry_None [THEN iffD2])

section \<open>Reading back\<close>

lemma map_filter_append [simp]:
  "List.map_filter f (xs @ ys) = List.map_filter f xs @ List.map_filter f ys"
  by (simp add: List.map_filter_def)

lemma map_filter_single: "List.map_filter f [x] = (case f x of None \<Rightarrow> [] | Some y \<Rightarrow> [y])"
  by (simp add: List.map_filter_def split: option.splits)

lemma entry_record_new:
  "record_storable r \<Longrightarrow> entry_record (new_entry n r) = Some (stored_form r)"
  by (simp add: entry_record_def new_entry_def deserialize_serialize_transaction stored_form_def)

lemma load_all_reopen: "wal_inv w \<Longrightarrow> load_all (wal_open path (Some (wal_file w))) = load_all w"
  by (simp add: load_all_def wal_inv_def)

lemma replay_from_reopen:
  "wal_inv w \<Longrightarrow> replay_from (wal_open path (Some (wal_file w))) n = replay_from w n"
  by (simp add: replay_from_def wal_inv_def)

lemma replay_from_0: "replay_from w 0 = load_all w"
  by (simp add: replay_from_def load_all_def List.map_filter_def)

lemma replay_from_suffix: "\<exists>before. load_all w = before @ replay_from w n"
proof -
  have "load_all w = List.map_filter entry_record (take n (wal_entries w)) @
      List.map_filter entry_record (drop n (wal_entries w))"
    unfolding load_all_def map_filter_append [symmetric] by simp
  then show ?thesis
    by (auto simp: replay_from_def List.map_filter_def)
qed

section \<open>Intent and commit\<close>

text \<open>A call that succeeded is the call in which the operating system did everything.\<close>

lemma wal_append_success:
  assumes "wal_append io w r = (Inr (), w')"
  shows "wal_append good_io w r = (Inr (), w')"
proof (cases "write_io io")
  case Written
  then show ?thesis
    using assms by (auto simp: wal_append_def good_io_def truncate_interrupted_tail_def split: if_splits option.splits)
next
  case (Write_fails_after n)
  then show ?thesis
    using assms by (auto simp: wal_append_def Let_def split: prod.splits sum.splits)
qed

lemma mark_committed_success:
  "mark_committed m w i = (Inr (), w') \<Longrightarrow> mark_committed None w i = (Inr (), w')"
  by (auto simp: mark_committed_def Let_def split: option.splits if_splits)

lemma wal_append_inv:
  assumes "wal_inv w" "wal_append io w r = (Inr (), w')"
  shows "wal_inv w'" "wal_entries w' = wal_entries w @ [new_entry (wal_next_offset w) r]"
  using wal_append_written [OF assms(1), of good_io r] wal_append_success [OF assms(2)]
  by (auto simp: good_io_def)

lemma wal_append_commit:
  assumes inv: "wal_inv w" and fresh: "rec_id r \<notin> we_id ` set (wal_entries w)"
    and app: "wal_append io w r = (Inr (), w1)" and commit: "mark_committed m w1 (rec_id r) = (Inr (), w2)"
  shows "wal_inv w2"
    and "wal_entries w2 = wal_entries w @ [(new_entry (wal_next_offset w) r)\<lparr>we_state := Committed\<rparr>]"
proof -
  have found: "find_entry (wal_entries w1) (rec_id r) = Some (length (wal_entries w))"
    using fresh by (simp add: wal_append_inv(2) [OF inv app] find_entry_append find_entry_None [THEN iffD2] new_entry_def)
  from mark_committed_inv [OF wal_append_inv(1) [OF inv app] found] mark_committed_success [OF commit]
  show "wal_inv w2"
    and "wal_entries w2 = wal_entries w @ [(new_entry (wal_next_offset w) r)\<lparr>we_state := Committed\<rparr>]"
    by (auto simp: wal_append_inv(2) [OF inv app])
qed

lemma entry_record_committed:
  "record_storable r \<Longrightarrow>
     entry_record ((new_entry n r)\<lparr>we_state := s\<rparr>) = Some ((stored_form r)\<lparr>rec_state := s\<rparr>)"
  by (simp add: entry_record_def new_entry_def deserialize_serialize_transaction stored_form_def)

lemma load_all_committed:
  assumes "wal_inv w" "rec_id r \<notin> we_id ` set (wal_entries w)" "record_storable r"
    "wal_append io w r = (Inr (), w1)" "mark_committed m w1 (rec_id r) = (Inr (), w2)"
  shows "load_all w2 = load_all w @ [(stored_form r)\<lparr>rec_state := Committed\<rparr>]"
  using wal_append_commit(2) [OF assms(1,2,4,5)] entry_record_committed [OF assms(3)]
  by (simp add: load_all_def map_filter_single)

lemma wal_append_found:
  assumes "wal_append io w r = (Inr (), w1)"
  shows "\<exists>w2. mark_committed None w1 (rec_id r) = (Inr (), w2)"
proof -
  have "rec_id r \<in> we_id ` set (wal_entries w1)"
    using assms by (auto simp: wal_append_def Let_def split: prod.splits sum.splits write_outcome.splits)
  then obtain n where "find_entry (wal_entries w1) (rec_id r) = Some n"
    using find_entry_None by fastforce
  then show ?thesis by (simp add: mark_committed_def Let_def)
qed

text \<open>
  A commit marker that cannot be written after a successful append: the entry in memory stays as it was
  appended, and what the file holds depends on whether the byte reached it.
\<close>

lemma marker_failure:
  assumes inv: "wal_inv w" and fresh: "rec_id r \<notin> we_id ` set (wal_entries w)" and stored: "record_storable r"
    and app: "wal_append io w r = (Inr (), w1)" and state: "rec_state r \<noteq> Committed"
  obtains w2 where "mark_committed (Some reached) w1 (rec_id r) =
      (Inl (Runtime_error ''WalLogger: commit marker write failed''), w2)"
    "load_all w2 = load_all w @ [stored_form r]"
    "load_all (wal_open path (Some (wal_file w2))) =
       load_all w @ [(stored_form r)\<lparr>rec_state := if reached then Committed else rec_state r\<rparr>]"
proof -
  note w1 = wal_append_inv [OF inv app]
  have found: "find_entry (wal_entries w1) (rec_id r) = Some (length (wal_entries w))"
    using fresh by (simp add: w1(2) find_entry_append find_entry_None [THEN iffD2] new_entry_def)
  have entry: "we_state (wal_entries w1 ! length (wal_entries w)) = rec_state r"
    by (simp add: w1(2) new_entry_def)
  obtain v where v: "mark_committed None w1 (rec_id r) = (Inr (), v)" using wal_append_found [OF app] by blast
  define w2 where "w2 = (if reached then w1\<lparr>wal_file := wal_file v\<rparr> else w1)"
  have fails: "mark_committed (Some reached) w1 (rec_id r) =
      (Inl (Runtime_error ''WalLogger: commit marker write failed''), w2)"
    using v found entry state by (auto simp: mark_committed_def Let_def w2_def)
  have loaded: "load_all w1 = load_all w @ [stored_form r]"
    using entry_record_new [OF stored] by (simp add: load_all_def w1(2) map_filter_single)
  moreover have "load_all w2 = load_all w1" by (simp add: w2_def load_all_def)
  moreover have "load_all (wal_open path (Some (wal_file v))) = load_all w @ [(stored_form r)\<lparr>rec_state := Committed\<rparr>]"
    using load_all_committed [OF inv fresh stored app v] load_all_reopen [OF wal_append_commit(1) [OF inv fresh app v]]
    by simp
  moreover have "(stored_form r)\<lparr>rec_state := rec_state r\<rparr> = stored_form r" by (simp add: stored_form_def)
  ultimately show ?thesis using fails load_all_reopen [OF w1(1), of path]
    by (intro that [of w2]) (simp_all add: w2_def)
qed

section \<open>Properties\<close>

text \<open>
  C21: what an append returned from is durable, on a journal that satisfies its invariant (its memory agrees
  with its file) and for a record that can be stored (account ids below 2^63, an id that is not
  2^63, an amount that is not negative). After a successful append, the journal satisfies the invariant again,
  reopening the file gives the same entries, and the records read back are those read before plus the new
  one, its time cut to the millisecond; a replay from the size that the journal had before the append gives the
  new record alone.
\<close>

theorem append_survives_reopen:
  assumes "wal_inv w" "wal_append io w r = (Inr (), w')" "record_storable r"
  shows "wal_inv w' \<and> wal_entries (wal_open path (Some (wal_file w'))) = wal_entries w' \<and>
    load_all (wal_open path (Some (wal_file w'))) = load_all w @ [stored_form r] \<and>
    replay_from (wal_open path (Some (wal_file w'))) (wal_size w) = [stored_form r]"
  using wal_append_inv [OF assms(1,2)] wal_inv_reopen [of w' path] load_all_reopen [of w' path]
    replay_from_reopen [of w' path "wal_size w"] entry_record_new [OF assms(3)]
  by (simp add: load_all_def replay_from_def wal_size_def map_filter_single)

theorem append_survives_reopen_witness:
  "load_all (wal_open ''p'' (Some (wal_file (snd (wal_append good_io (wal_open ''p'' None)
      \<lparr>rec_id = Id 1, rec_timestamp = 5000000, rec_type = Type_Deposit, rec_state = Validated,
       rec_from = None, rec_to = Some (Id 3), rec_amount = Mk_Money 250\<rparr>))))) =
   [\<lparr>rec_id = Id 1, rec_timestamp = 5000000, rec_type = Type_Deposit, rec_state = Validated,
     rec_from = None, rec_to = Some (Id 3), rec_amount = Mk_Money 250\<rparr>]"
proof -
  define r :: transaction_record where "r = \<lparr>rec_id = Id 1, rec_timestamp = 5000000, rec_type = Type_Deposit,
    rec_state = Validated, rec_from = None, rec_to = Some (Id 3), rec_amount = Mk_Money 250\<rparr>"
  define w where "w = wal_open ''p'' (Some [])"
  have inv: "wal_inv w" unfolding w_def by (rule wal_open_inv)
  have app: "wal_append good_io w r = (Inr (), snd (wal_append good_io w r))"
    using wal_append_written [OF inv, of good_io r] by (auto simp: good_io_def)
  have "record_storable r" by (simp add: r_def record_storable_def small_id_def money_ok_def amount_def)
  then have "load_all (wal_open ''p'' (Some (wal_file (snd (wal_append good_io w r))))) = load_all w @ [stored_form r]"
    using append_survives_reopen [OF inv app] by blast
  moreover have "load_all w = []" by (simp add: w_def load_all_def scan_no_newline List.map_filter_def)
  moreover have "stored_form r = r" by (simp add: stored_form_def r_def ms_trunc_def, code_simp)
  ultimately show ?thesis by (simp add: r_def w_def wal_open_None)
qed

text \<open>
  C22: an append that a crash interrupted leaves no trace. If only a proper prefix of the line reached the
  file, reopening it gives the entries there were before, and the next append, after the interrupted tail
  is cut off, continues as if the interrupted one had not happened.
\<close>

theorem torn_append_invisible:
  assumes "wal_inv w" "k < length (wal_line r)"
    "wal_append good_io (wal_open path (Some (wal_prefix w @ take k (wal_line r)))) r2 = (Inr (), w2)"
  shows "wal_entries (wal_open path (Some (wal_prefix w @ take k (wal_line r)))) = wal_entries w \<and>
    wal_inv w2 \<and> wal_file w2 = wal_prefix w @ wal_line r2 \<and>
    map we_id (wal_entries w2) = map we_id (wal_entries w) @ [rec_id r2]"
proof -
  note torn = torn_append_reopen [OF assms(1,2), of path]
  define w1 where "w1 = wal_open path (Some (wal_prefix w @ take k (wal_line r)))"
  have inv: "wal_inv w1" unfolding w1_def by (rule wal_open_inv)
  obtain w' where "wal_append good_io w1 r2 = (Inr (), w')" "wal_inv w'" "wal_file w' = wal_prefix w1 @ wal_line r2"
    "wal_entries w' = wal_entries w1 @ [new_entry (wal_next_offset w1) r2]"
    using wal_append_written [OF inv, of good_io r2] by (auto simp: good_io_def)
  then show ?thesis
    using assms(3) torn by (simp add: w1_def [symmetric] new_entry_def del: wal_open_fields)
qed

theorem torn_append_invisible_witness:
  "\<exists>w2. wal_append good_io (wal_open ''p'' (Some (take 20 (wal_line
        \<lparr>rec_id = Id 1, rec_timestamp = 0, rec_type = Type_Deposit, rec_state = Validated,
         rec_from = None, rec_to = Some (Id 3), rec_amount = Mk_Money 250\<rparr>))))
      \<lparr>rec_id = Id 2, rec_timestamp = 0, rec_type = Type_Deposit, rec_state = Validated,
       rec_from = None, rec_to = Some (Id 3), rec_amount = Mk_Money 900\<rparr> = (Inr (), w2) \<and>
    map we_id (wal_entries w2) = [Id 2]"
proof -
  define r :: transaction_record where "r = \<lparr>rec_id = Id 1, rec_timestamp = 0, rec_type = Type_Deposit,
    rec_state = Validated, rec_from = None, rec_to = Some (Id 3), rec_amount = Mk_Money 250\<rparr>"
  define r2 :: transaction_record where "r2 = \<lparr>rec_id = Id 2, rec_timestamp = 0, rec_type = Type_Deposit,
    rec_state = Validated, rec_from = None, rec_to = Some (Id 3), rec_amount = Mk_Money 900\<rparr>"
  define w where "w = wal_open ''p'' (Some [])"
  have inv: "wal_inv w" unfolding w_def by (rule wal_open_inv)
  have len: "20 < length (wal_line r)"
    by (simp add: wal_line_def serialize_transaction_def json_dump_def transaction_to_json_def object_of_def
        append_escaped_def)
  have prefix: "wal_prefix w = []" by (simp add: wal_prefix_def w_def)
  obtain w2 where w2: "wal_append good_io (wal_open ''p'' (Some (wal_prefix w @ take 20 (wal_line r)))) r2 = (Inr (), w2)"
    using wal_append_written [OF wal_open_inv, of good_io _ _ r2] by (auto simp: good_io_def)
  have "wal_entries w = []" by (simp add: w_def scan_no_newline)
  then have "map we_id (wal_entries w2) = [Id 2]"
    using torn_append_invisible [OF inv len w2] by (simp add: r2_def)
  then show ?thesis using w2 by (auto simp: prefix r_def r2_def)
qed

text \<open>
  Committing marks one entry. For an id in the journal, \<open>mark_committed\<close> succeeds and, also after
  reopening the file, the first entry with that id is committed, every other entry is as it was, and the
  file has not changed its length. For an id that is not in the journal it throws and changes nothing.
\<close>

theorem commit_marks_one_entry:
  assumes "wal_inv w"
  shows "case mark_committed None w i of
      (Inr _, w') \<Rightarrow> (\<exists>n < length (wal_entries w). we_id (wal_entries w ! n) = i \<and>
        (\<forall>m < n. we_id (wal_entries w ! m) \<noteq> i) \<and> wal_inv w' \<and>
        wal_entries (wal_open path (Some (wal_file w'))) =
          (wal_entries w)[n := (wal_entries w ! n)\<lparr>we_state := Committed\<rparr>] \<and>
        length (wal_file w') = length (wal_file w))
    | (Inl e, w') \<Rightarrow> i \<notin> we_id ` set (wal_entries w) \<and> w' = w"
proof (cases "find_entry (wal_entries w) i")
  case None
  then show ?thesis
    using mark_committed_unknown [of i w None] by (simp add: find_entry_None [THEN iffD1])
next
  case (Some n)
  from mark_committed_inv [OF assms Some] obtain w' where w': "mark_committed None w i = (Inr (), w')" "wal_inv w'"
    "wal_entries w' = (wal_entries w)[n := (wal_entries w ! n)\<lparr>we_state := Committed\<rparr>]"
    "length (wal_file w') = length (wal_file w)" by blast
  then show ?thesis using find_entry_Some [OF Some] wal_inv_reopen [OF w'(2), of path] by auto
qed

theorem commit_marks_one_entry_witness:
  "\<exists>w w'. mark_committed None w (Id 1) = (Inr (), w') \<and> map we_state (wal_entries w) = [Validated] \<and>
     map we_state (wal_entries (wal_open ''p'' (Some (wal_file w')))) = [Committed]"
proof -
  define r :: transaction_record where "r = \<lparr>rec_id = Id 1, rec_timestamp = 0, rec_type = Type_Deposit,
    rec_state = Validated, rec_from = None, rec_to = Some (Id 3), rec_amount = Mk_Money 250\<rparr>"
  let ?w0 = "wal_open ''p'' (Some [])"
  define w where "w = snd (wal_append good_io ?w0 r)"
  have app: "wal_append good_io ?w0 r = (Inr (), w)"
    using wal_append_written [OF wal_open_inv [of "''p''" "[]"], of good_io r] by (auto simp: good_io_def w_def)
  have inv: "wal_inv w" using wal_append_inv [OF wal_open_inv app] by blast
  have entries: "map we_state (wal_entries w) = [Validated]" "map we_id (wal_entries w) = [Id 1]"
    by (simp_all add: w_def wal_append_def good_io_def scan_no_newline r_def Let_def)
  obtain x w' where mark: "mark_committed None w (Id 1) = (x, w')" by fastforce
  have id: "Id 1 \<in> we_id ` set (wal_entries w)" using entries(2) by (metis list.set_intros(1) set_map)
  obtain e where e: "wal_entries w = [e]" using entries(2) by (cases "wal_entries w") auto
  from commit_marks_one_entry [OF inv, of "Id 1" "''p''"] id e mark
  have "x = Inr () \<and> wal_entries (wal_open ''p'' (Some (wal_file w'))) = [e\<lparr>we_state := Committed\<rparr>]"
    by (cases x) auto
  then show ?thesis using mark entries(1) by (intro exI [of _ w] exI [of _ w']) simp
qed

end
