(* ===== verification/Bank_Locks.thy ===== *)
theory Bank_Locks
  imports Bank_Transaction
begin

text \<open>
  src/concurrency: AccountLockManager.h/.cpp, ScopedAccountLock.h and ScopedAccountLocks.h. The
  manager owns one mutex per account, created on first use. A mutex is modelled by its holder; threads
  acquire the mutexes of a transaction one at a time, in ascending account order, and release them when
  the guards are destroyed. The step relation interleaves any number of threads, and the deadlock
  freedom that docs/concurrency/decisions.md argues for is a theorem about it.
\<close>

section \<open>The lock manager\<close>

type_synonym thread = nat

text \<open>\<open>mutexes_\<close>: the mutex of each account seen so far, with the thread that holds it.\<close>

type_synonym lock_manager = "(account_id \<times> thread option) list"

definition mutex_for :: "lock_manager \<Rightarrow> account_id \<Rightarrow> lock_manager" where
  "mutex_for lm i = (if map_of lm i = None then lm @ [(i, None)] else lm)"

definition mutex_count :: "lock_manager \<Rightarrow> nat" where
  "mutex_count lm = length lm"

fun set_holder :: "lock_manager \<Rightarrow> account_id \<Rightarrow> thread option \<Rightarrow> lock_manager" where
  "set_holder [] i h = []"
| "set_holder ((j, g) # lm) i h = (if j = i then (j, h) # lm else (j, g) # set_holder lm i h)"

definition holder :: "lock_manager \<Rightarrow> account_id \<Rightarrow> thread option" where
  "holder lm i = (case map_of lm i of None \<Rightarrow> None | Some h \<Rightarrow> h)"

text \<open>
  \<open>lock(id)\<close>: look the mutex up (creating it) under the map mutex, then lock it. \<open>None\<close> means the
  caller blocks.
\<close>

definition lock_account :: "thread \<Rightarrow> lock_manager \<Rightarrow> account_id \<Rightarrow> lock_manager option" where
  "lock_account t lm i =
     (let lm = mutex_for lm i
      in if holder lm i = None then Some (set_holder lm i (Some t)) else None)"

definition unlock_account :: "lock_manager \<Rightarrow> account_id \<Rightarrow> lock_manager" where
  "unlock_account lm i = set_holder lm i None"

text \<open>The ids of the two-account guard, in acquisition order; one mutex when the ids are equal.\<close>

definition scoped_locks_ids :: "account_id \<Rightarrow> account_id \<Rightarrow> account_id \<times> account_id" where
  "scoped_locks_ids first second = (if second < first then (second, first) else (first, second))"

definition scoped_locks_acquires :: "account_id \<Rightarrow> account_id \<Rightarrow> account_id list" where
  "scoped_locks_acquires a b =
     (case scoped_locks_ids a b of (first, second) \<Rightarrow> if second \<noteq> first then [first, second] else [first])"

definition scoped_locks_size :: "account_id \<Rightarrow> account_id \<Rightarrow> nat" where
  "scoped_locks_size a b = length (scoped_locks_acquires a b)"

text \<open>The order in which the processor locks the accounts of a transaction.\<close>

definition lock_plan :: "transaction \<Rightarrow> account_id list" where
  "lock_plan t = sort (involved_accounts t)"

section \<open>The single-account guard\<close>

text \<open>
  \<open>ScopedAccountLock\<close>: the mutex it holds, if any, and the id. Moving empties the source; move
  assignment first unlocks what the target held; the destructor unlocks what is left.
\<close>

record guard =
  gd_mutex :: "account_id option"
  gd_id :: account_id

definition guard_move :: "guard \<Rightarrow> guard \<times> guard" where
  "guard_move other = (\<lparr>gd_mutex = gd_mutex other, gd_id = gd_id other\<rparr>, other\<lparr>gd_mutex := None\<rparr>)"

definition guard_destroy :: "lock_manager \<Rightarrow> guard \<Rightarrow> lock_manager" where
  "guard_destroy lm g = (case gd_mutex g of None \<Rightarrow> lm | Some i \<Rightarrow> unlock_account lm i)"

definition guard_move_assign :: "lock_manager \<Rightarrow> guard \<Rightarrow> guard \<Rightarrow> lock_manager \<times> guard \<times> guard" where
  "guard_move_assign lm self other =
     (guard_destroy lm self,
      self\<lparr>gd_mutex := gd_mutex other, gd_id := gd_id other\<rparr>,
      other\<lparr>gd_mutex := None\<rparr>)"

section \<open>Lemmas on the manager\<close>

lemma map_of_set_holder:
  "map_of (set_holder lm i h) j = (if j = i \<and> map_of lm i \<noteq> None then Some h else map_of lm j)"
  by (induction lm i h rule: set_holder.induct) auto

lemma map_of_mutex_for: "map_of (mutex_for lm i) j = (if j = i \<and> map_of lm i = None then Some None else map_of lm j)"
  by (auto simp: mutex_for_def map_add_def split: option.splits)

lemma holder_mutex_for [simp]: "holder (mutex_for lm i) j = holder lm j"
  by (auto simp: holder_def map_of_mutex_for split: option.splits)

lemma holder_unlock: "holder (unlock_account lm i) j = (if j = i then None else holder lm j)"
  by (auto simp: holder_def unlock_account_def map_of_set_holder split: option.splits)

lemma lock_account_Some:
  "lock_account t lm i = Some lm' \<longleftrightarrow> holder lm i = None \<and> lm' = set_holder (mutex_for lm i) i (Some t)"
  by (auto simp: lock_account_def Let_def)

lemma holder_lock:
  assumes "lock_account t lm i = Some lm'"
  shows "holder lm' j = (if j = i then Some t else holder lm j)"
  using assms by (auto simp: lock_account_Some holder_def map_of_set_holder map_of_mutex_for split: option.splits)

lemma lock_account_enabled: "(\<exists>lm'. lock_account t lm i = Some lm') \<longleftrightarrow> holder lm i = None"
  by (simp add: lock_account_Some)

lemma mutex_for_idem: "mutex_for (mutex_for lm i) i = mutex_for lm i"
  by (simp add: mutex_for_def [of "mutex_for lm i"] map_of_mutex_for)

lemma mutex_for_distinct: "distinct (map fst lm) \<Longrightarrow> distinct (map fst (mutex_for lm i))"
  by (auto simp: mutex_for_def map_of_eq_None_iff)

lemma scoped_locks_order: "scoped_locks_acquires a b = sort (remdups [a, b])"
  by (auto simp: scoped_locks_acquires_def scoped_locks_ids_def)

lemma scoped_locks_plan: "lock_plan (Transfer a b m) = scoped_locks_acquires a b"
  by (auto simp: scoped_locks_acquires_def scoped_locks_ids_def lock_plan_def)

lemma lock_plan_sorted: "sorted_wrt (<) (lock_plan t)"
  by (simp add: lock_plan_def strict_sorted_iff distinct_involved)

lemma set_lock_plan [simp]: "set (lock_plan t) = set (involved_accounts t)"
  by (simp add: lock_plan_def)

lemma lock_plan_not_Nil [simp]: "lock_plan t \<noteq> []"
  by (metis involved_not_Nil set_empty set_lock_plan)

section \<open>Interleaved threads\<close>

text \<open>
  A thread is running the locked part of a transaction: \<open>th_todo\<close> are the mutexes it has still to
  lock, \<open>th_held\<close> those it holds, in the order it locked them; \<open>th_working\<close> says it holds them all and
  is between the last lock and the first unlock, and \<open>th_releasing\<close> that its guards are being
  destroyed.
\<close>

datatype thread_phase = Idle | Locking | Working | Releasing

record thread_state =
  th_phase :: thread_phase
  th_todo :: "account_id list"
  th_held :: "account_id list"

record lock_system =
  ls_manager :: lock_manager
  ls_threads :: "thread_state list"

text \<open>
  The steps: an idle thread takes up a transaction; a locking thread locks the next mutex of its plan
  if it is free; a thread with nothing left to lock does its work and then destroys its guards, the
  mutexes in any order (the standard leaves the order open for the elements of a vector).
\<close>

inductive lock_step :: "thread \<Rightarrow> lock_system \<Rightarrow> lock_system \<Rightarrow> bool" where
  begin_txn: "t < length (ls_threads s) \<Longrightarrow> th_phase (ls_threads s ! t) = Idle \<Longrightarrow>
    lock_step t s (s\<lparr>ls_threads := (ls_threads s)[t :=
      \<lparr>th_phase = Locking, th_todo = lock_plan txn, th_held = []\<rparr>]\<rparr>)"
| acquire: "t < length (ls_threads s) \<Longrightarrow> ls_threads s ! t = \<lparr>th_phase = Locking, th_todo = i # todo, th_held = held\<rparr> \<Longrightarrow>
    lock_account t (ls_manager s) i = Some lm \<Longrightarrow>
    lock_step t s (s\<lparr>ls_manager := lm, ls_threads := (ls_threads s)[t :=
      \<lparr>th_phase = Locking, th_todo = todo, th_held = held @ [i]\<rparr>]\<rparr>)"
| all_locked: "t < length (ls_threads s) \<Longrightarrow> ls_threads s ! t = \<lparr>th_phase = Locking, th_todo = [], th_held = held\<rparr> \<Longrightarrow>
    lock_step t s (s\<lparr>ls_threads := (ls_threads s)[t :=
      \<lparr>th_phase = Working, th_todo = [], th_held = held\<rparr>]\<rparr>)"
| work_done: "t < length (ls_threads s) \<Longrightarrow> ls_threads s ! t = \<lparr>th_phase = Working, th_todo = [], th_held = held\<rparr> \<Longrightarrow>
    lock_step t s (s\<lparr>ls_threads := (ls_threads s)[t :=
      \<lparr>th_phase = Releasing, th_todo = [], th_held = held\<rparr>]\<rparr>)"
| release: "t < length (ls_threads s) \<Longrightarrow> ls_threads s ! t = \<lparr>th_phase = Releasing, th_todo = [], th_held = held\<rparr> \<Longrightarrow>
    i \<in> set held \<Longrightarrow>
    lock_step t s (s\<lparr>ls_manager := unlock_account (ls_manager s) i, ls_threads := (ls_threads s)[t :=
      \<lparr>th_phase = Releasing, th_todo = [], th_held = remove1 i held\<rparr>]\<rparr>)"
| released: "t < length (ls_threads s) \<Longrightarrow> ls_threads s ! t = \<lparr>th_phase = Releasing, th_todo = [], th_held = []\<rparr> \<Longrightarrow>
    lock_step t s (s\<lparr>ls_threads := (ls_threads s)[t :=
      \<lparr>th_phase = Idle, th_todo = [], th_held = []\<rparr>]\<rparr>)"

definition idle_thread :: thread_state where
  "idle_thread = \<lparr>th_phase = Idle, th_todo = [], th_held = []\<rparr>"

definition lock_init :: "nat \<Rightarrow> lock_system" where
  "lock_init n = \<lparr>ls_manager = [], ls_threads = replicate n idle_thread\<rparr>"

inductive lock_reachable :: "nat \<Rightarrow> lock_system \<Rightarrow> bool" for n where
  lock_start: "lock_reachable n (lock_init n)"
| lock_next: "lock_reachable n s \<Longrightarrow> lock_step t s s' \<Longrightarrow> lock_reachable n s'"

text \<open>
  The invariant: a thread's plan ascends through what it holds and what it still wants; idle threads
  hold nothing; and the manager's holders are exactly what the threads hold.
\<close>

definition thread_ok :: "thread_state \<Rightarrow> bool" where
  "thread_ok th \<longleftrightarrow>
     distinct (th_held th) \<and>
     (th_phase th = Locking \<longrightarrow> sorted_wrt (<) (th_held th @ th_todo th)) \<and>
     (th_phase th \<noteq> Locking \<longrightarrow> th_todo th = []) \<and>
     (th_phase th = Idle \<longrightarrow> th_held th = [])"

definition lock_inv :: "lock_system \<Rightarrow> bool" where
  "lock_inv s \<longleftrightarrow>
     list_all thread_ok (ls_threads s) \<and>
     (\<forall>i t. holder (ls_manager s) i = Some t \<longleftrightarrow>
        t < length (ls_threads s) \<and> i \<in> set (th_held (ls_threads s ! t)))"

lemma lock_inv_init: "lock_inv (lock_init n)"
  by (simp add: lock_inv_def lock_init_def idle_thread_def thread_ok_def holder_def list_all_iff)

lemma list_all_update: "list_all P xs \<Longrightarrow> P x \<Longrightarrow> list_all P (xs[n := x])"
  by (auto simp: list_all_iff dest!: set_update_subset_insert [THEN subsetD])

lemma list_all_at: "list_all P xs \<Longrightarrow> n < length xs \<Longrightarrow> P (xs ! n)"
  by (simp add: list_all_length)

lemma lock_inv_thread: "lock_inv s \<Longrightarrow> t < length (ls_threads s) \<Longrightarrow> thread_ok (ls_threads s ! t)"
  by (simp add: lock_inv_def list_all_at)

text \<open>A step changes one thread and the mutexes it holds.\<close>

lemma lock_inv_update:
  assumes inv: "lock_inv s" and t: "t < length (ls_threads s)" and ok: "thread_ok th"
    and hold: "\<And>j u. holder lm j = Some u \<longleftrightarrow>
      (if u = t then j \<in> set (th_held th) else holder (ls_manager s) j = Some u)"
  shows "lock_inv (s\<lparr>ls_manager := lm, ls_threads := (ls_threads s)[t := th]\<rparr>)"
proof -
  have "list_all thread_ok ((ls_threads s)[t := th])"
    using inv ok by (simp add: lock_inv_def list_all_update)
  moreover have "holder lm j = Some u \<longleftrightarrow>
      u < length (ls_threads s) \<and> j \<in> set (th_held ((ls_threads s)[t := th] ! u))" for j u
    using inv t hold [of j u] by (cases "u = t") (simp_all add: lock_inv_def nth_list_update)
  ultimately show ?thesis by (simp add: lock_inv_def)
qed

lemma lock_inv_holds:
  "lock_inv s \<Longrightarrow> t < length (ls_threads s) \<Longrightarrow> i \<in> set (th_held (ls_threads s ! t)) \<longleftrightarrow> holder (ls_manager s) i = Some t"
  by (simp add: lock_inv_def)

lemma lock_step_inv [bank_inv]:
  assumes "lock_step t s s'" "lock_inv s"
  shows "lock_inv s'"
  using assms
proof (cases rule: lock_step.cases)
  case (begin_txn txn)
  have "thread_ok \<lparr>th_phase = Locking, th_todo = lock_plan txn, th_held = []\<rparr>"
    using lock_plan_sorted [of txn] by (simp add: thread_ok_def)
  moreover have "th_held (ls_threads s ! t) = []"
    using begin_txn lock_inv_thread [OF assms(2)] by (auto simp: thread_ok_def)
  ultimately show ?thesis
    using lock_inv_update [OF assms(2) begin_txn(2), of _ "ls_manager s"] lock_inv_holds [OF assms(2) begin_txn(2)]
    by (simp add: begin_txn)
next
  case (acquire i todo held lm)
  have "thread_ok \<lparr>th_phase = Locking, th_todo = todo, th_held = held @ [i]\<rparr>"
    using lock_inv_thread [OF assms(2) acquire(2)] acquire by (auto simp: thread_ok_def sorted_wrt_append)
  moreover have "holder (ls_manager s) i = None"
    using acquire by (simp add: lock_account_Some)
  ultimately show ?thesis
    using lock_inv_update [OF assms(2) acquire(2), of _ lm] lock_inv_holds [OF assms(2) acquire(2)]
      holder_lock [OF acquire(4)]
    by (auto simp: acquire)
next
  case (all_locked held)
  then show ?thesis
    using lock_inv_update [OF assms(2) all_locked(2), of _ "ls_manager s"] lock_inv_holds [OF assms(2) all_locked(2)]
      lock_inv_thread [OF assms(2) all_locked(2)]
    by (simp add: thread_ok_def)
next
  case (work_done held)
  then show ?thesis
    using lock_inv_update [OF assms(2) work_done(2), of _ "ls_manager s"] lock_inv_holds [OF assms(2) work_done(2)]
      lock_inv_thread [OF assms(2) work_done(2)]
    by (simp add: thread_ok_def)
next
  case (release held i)
  have dist: "distinct held" using lock_inv_thread [OF assms(2) release(2)] release by (simp add: thread_ok_def)
  then have "thread_ok \<lparr>th_phase = Releasing, th_todo = [], th_held = remove1 i held\<rparr>"
    by (simp add: thread_ok_def)
  moreover have "holder (ls_manager s) i = Some t"
    using release lock_inv_holds [OF assms(2) release(2), of i] by simp
  ultimately show ?thesis
    using lock_inv_update [OF assms(2) release(2), of _ "unlock_account (ls_manager s) i"]
      lock_inv_holds [OF assms(2) release(2)] dist
    by (auto simp: release holder_unlock)
next
  case released
  then show ?thesis
    using lock_inv_update [OF assms(2) released(2), of _ "ls_manager s"] lock_inv_holds [OF assms(2) released(2)]
    by (simp add: thread_ok_def)
qed

lemma lock_reachable_inv: "lock_reachable n s \<Longrightarrow> lock_inv s"
  by (induction rule: lock_reachable.induct) (auto intro: lock_inv_init lock_step_inv)

lemma lock_step_threads: "lock_step t s s' \<Longrightarrow> length (ls_threads s') = length (ls_threads s)"
  by (induction rule: lock_step.induct) auto

lemma lock_reachable_threads: "lock_reachable n s \<Longrightarrow> length (ls_threads s) = n"
  by (induction rule: lock_reachable.induct) (auto simp: lock_init_def lock_step_threads)

section \<open>Mutual exclusion and freedom from deadlock\<close>

lemma lock_inv_exclusive:
  assumes "lock_inv s" "t < length (ls_threads s)" "u < length (ls_threads s)"
    "i \<in> set (th_held (ls_threads s ! t))" "i \<in> set (th_held (ls_threads s ! u))"
  shows "t = u"
  using assms by (metis lock_inv_def option.inject)

text \<open>A thread is blocked when the next mutex of its plan is held.\<close>

definition blocked_on :: "lock_system \<Rightarrow> thread \<Rightarrow> account_id \<Rightarrow> bool" where
  "blocked_on s t i \<longleftrightarrow> t < length (ls_threads s) \<and> th_phase (ls_threads s ! t) = Locking \<and>
     th_todo (ls_threads s ! t) \<noteq> [] \<and> hd (th_todo (ls_threads s ! t)) = i \<and> holder (ls_manager s) i \<noteq> None"

lemma thread_moves:
  assumes inv: "lock_inv s" and t: "t < length (ls_threads s)" and busy: "th_phase (ls_threads s ! t) \<noteq> Idle"
  shows "(\<exists>s'. lock_step t s s') \<or> (\<exists>i. blocked_on s t i)"
proof -
  obtain ph todo held where th: "ls_threads s ! t = \<lparr>th_phase = ph, th_todo = todo, th_held = held\<rparr>"
    by (cases "ls_threads s ! t") auto
  have ok: "thread_ok (ls_threads s ! t)" by (rule lock_inv_thread [OF inv t])
  show ?thesis
  proof (cases ph)
    case Idle then show ?thesis using busy th by simp
  next
    case Locking
    show ?thesis
    proof (cases todo)
      case Nil then show ?thesis using lock_step.all_locked [OF t] th Locking by blast
    next
      case (Cons i rest)
      show ?thesis
      proof (cases "lock_account t (ls_manager s) i")
        case None
        then have "holder (ls_manager s) i \<noteq> None" by (metis lock_account_enabled option.distinct(1))
        then show ?thesis using th Cons Locking t by (auto simp: blocked_on_def)
      next
        case (Some lm)
        then show ?thesis using lock_step.acquire [OF t _ Some] th Cons Locking by blast
      qed
    qed
  next
    case Working
    then show ?thesis using lock_step.work_done [OF t] th ok by (auto simp: thread_ok_def)
  next
    case Releasing
    then have "todo = []" using ok th by (simp add: thread_ok_def)
    then show ?thesis
      using lock_step.released [OF t] lock_step.release [OF t] th Releasing
      by (cases held) (auto, (metis list.set_intros(1))+)
  qed
qed

text \<open>A blocked thread waits for a thread that holds the mutex; if that one is blocked too, it waits
  for a larger id.\<close>

lemma blocked_chain:
  assumes inv: "lock_inv s" and bl: "blocked_on s t i"
  obtains u where "u < length (ls_threads s)" "th_phase (ls_threads s ! u) \<noteq> Idle"
    "\<And>j. blocked_on s u j \<Longrightarrow> i < j"
proof -
  obtain u where u: "holder (ls_manager s) i = Some u" using bl by (auto simp: blocked_on_def)
  then have len: "u < length (ls_threads s)" and mem: "i \<in> set (th_held (ls_threads s ! u))"
    using inv by (auto simp: lock_inv_def)
  have ok: "thread_ok (ls_threads s ! u)" by (rule lock_inv_thread [OF inv len])
  show ?thesis
  proof (rule that [OF len])
    show "th_phase (ls_threads s ! u) \<noteq> Idle" using ok mem by (auto simp: thread_ok_def)
    fix j assume "blocked_on s u j"
    then show "i < j" using ok mem
      by (cases "th_todo (ls_threads s ! u)") (auto simp: blocked_on_def thread_ok_def sorted_wrt_append)
  qed
qed

lemma lock_inv_progress:
  assumes inv: "lock_inv s" and t: "t < length (ls_threads s)" and busy: "th_phase (ls_threads s ! t) \<noteq> Idle"
  shows "\<exists>u s'. u < length (ls_threads s) \<and> th_phase (ls_threads s ! u) \<noteq> Idle \<and> lock_step u s s'"
proof (rule ccontr)
  assume stuck: "\<not> ?thesis"
  define B where "B = {i. \<exists>u. blocked_on s u i}"
  have fin: "finite B"
  proof (rule finite_subset)
    show "B \<subseteq> (\<lambda>th. hd (th_todo th)) ` set (ls_threads s)" by (auto simp: B_def blocked_on_def)
  qed simp
  obtain i where "blocked_on s t i" using thread_moves [OF inv t busy] stuck t busy by blast
  then have "B \<noteq> {}" by (auto simp: B_def)
  then have "Max B \<in> B" using fin by simp
  then obtain v where "blocked_on s v (Max B)" by (auto simp: B_def)
  then obtain u where u: "u < length (ls_threads s)" "th_phase (ls_threads s ! u) \<noteq> Idle"
    and bigger: "\<And>j. blocked_on s u j \<Longrightarrow> Max B < j" by (rule blocked_chain [OF inv]) blast
  obtain j where "blocked_on s u j" using thread_moves [OF inv u] stuck u by blast
  then have "Max B < j" "j \<in> B" using bigger by (auto simp: B_def)
  then show False using Max_ge [OF fin] by fastforce
qed

section \<open>Every transaction is finished\<close>

text \<open>A step by a thread that is inside a transaction, and the work such a thread has left.\<close>

definition busy_step :: "lock_system \<Rightarrow> lock_system \<Rightarrow> bool" where
  "busy_step s s' \<longleftrightarrow>
     (\<exists>t < length (ls_threads s). th_phase (ls_threads s ! t) \<noteq> Idle \<and> lock_step t s s')"

definition thread_work :: "thread_state \<Rightarrow> nat" where
  "thread_work th = (case th_phase th of
     Idle \<Rightarrow> 0
   | Locking \<Rightarrow> 2 * length (th_todo th) + length (th_held th) + 3
   | Working \<Rightarrow> length (th_held th) + 2
   | Releasing \<Rightarrow> length (th_held th) + 1)"

definition lock_work :: "lock_system \<Rightarrow> nat" where
  "lock_work s = sum_list (map thread_work (ls_threads s))"

lemma lock_work_update:
  "t < length (ls_threads s) \<Longrightarrow> thread_work th < thread_work (ls_threads s ! t) \<Longrightarrow>
   lock_work (s\<lparr>ls_manager := lm, ls_threads := (ls_threads s)[t := th]\<rparr>) < lock_work s"
  using sum_list_update [of t "map thread_work (ls_threads s)" "thread_work th"]
    member_le_sum_list [of "thread_work (ls_threads s ! t)" "map thread_work (ls_threads s)"]
  by (simp add: lock_work_def map_update)

lemma busy_step_work: "busy_step s s' \<Longrightarrow> lock_work s' < lock_work s"
proof -
  assume "busy_step s s'"
  then obtain t where t: "t < length (ls_threads s)" and busy: "th_phase (ls_threads s ! t) \<noteq> Idle"
    and step: "lock_step t s s'" by (auto simp: busy_step_def)
  from step show ?thesis
  proof (cases rule: lock_step.cases)
    case (begin_txn txn) then show ?thesis using busy by simp
  next
    case (acquire i todo held lm)
    show ?thesis using lock_work_update [OF t, of _ lm] by (simp add: acquire thread_work_def)
  next
    case (all_locked held)
    show ?thesis using lock_work_update [OF t, of _ "ls_manager s"] by (simp add: all_locked thread_work_def)
  next
    case (work_done held)
    show ?thesis using lock_work_update [OF t, of _ "ls_manager s"] by (simp add: work_done thread_work_def)
  next
    case (release held i)
    have "length (remove1 i held) < length held"
      using release by (metis length_pos_if_in_set length_remove1 diff_less zero_less_one)
    then show ?thesis using lock_work_update [OF t, of _ "unlock_account (ls_manager s) i"]
      by (simp add: release thread_work_def)
  next
    case released
    show ?thesis using lock_work_update [OF t, of _ "ls_manager s"] by (simp add: released thread_work_def)
  qed
qed

lemma busy_step_inv: "busy_step s s' \<Longrightarrow> lock_inv s \<Longrightarrow> lock_inv s'"
  by (auto simp: busy_step_def intro: lock_step_inv)

lemma lock_inv_drains:
  "lock_inv s \<Longrightarrow> \<exists>s'. busy_step\<^sup>*\<^sup>* s s' \<and> lock_inv s' \<and> (\<forall>th \<in> set (ls_threads s'). th_phase th = Idle)"
proof (induction "lock_work s" arbitrary: s rule: less_induct)
  case less
  show ?case
  proof (cases "\<forall>th \<in> set (ls_threads s). th_phase th = Idle")
    case True then show ?thesis using less.prems by blast
  next
    case False
    then obtain t where "t < length (ls_threads s)" "th_phase (ls_threads s ! t) \<noteq> Idle"
      by (auto simp: in_set_conv_nth)
    then obtain s1 where "busy_step s s1"
      using lock_inv_progress [OF less.prems] unfolding busy_step_def by blast
    then show ?thesis
      using less.hyps [OF busy_step_work busy_step_inv [OF _ less.prems]]
      by (meson converse_rtranclp_into_rtranclp)
  qed
qed

lemma idle_free:
  assumes "lock_inv s" "\<forall>th \<in> set (ls_threads s). th_phase th = Idle"
  shows "holder (ls_manager s) i = None"
proof (cases "holder (ls_manager s) i")
  case (Some t)
  then have "t < length (ls_threads s)" "i \<in> set (th_held (ls_threads s ! t))"
    using assms(1) by (auto simp: lock_inv_def)
  then show ?thesis using assms lock_inv_thread [OF assms(1), of t] by (auto simp: thread_ok_def)
qed

section \<open>Guards\<close>

text \<open>Guards own their mutexes: moving hands the mutex over and destroying the two guards of a move
  unlocks it once.\<close>

lemma guard_move_destroy:
  "guard_move g = (new, old) \<Longrightarrow> guard_destroy (guard_destroy lm old) new = guard_destroy lm g"
  by (auto simp: guard_move_def guard_destroy_def split: option.splits)

lemma guard_move_assign_destroy:
  "guard_move_assign lm self other = (lm', self', other') \<Longrightarrow>
   guard_destroy (guard_destroy lm' other') self' = guard_destroy (guard_destroy lm self) other"
  by (auto simp: guard_move_assign_def guard_destroy_def split: option.splits)

section \<open>Properties\<close>

text \<open>One thread in the middle of a deposit, holding the mutex of its account.\<close>

lemma one_lock_held:
  "\<exists>s. lock_reachable 1 s \<and> th_held (ls_threads s ! 0) = [Id 3] \<and> holder (ls_manager s) (Id 3) = Some 0"
proof -
  define s1 where "s1 = (lock_init 1)\<lparr>ls_threads := (ls_threads (lock_init 1))[0 :=
      \<lparr>th_phase = Locking, th_todo = lock_plan (Deposit (Id 3) (Mk_Money 1)), th_held = []\<rparr>]\<rparr>"
  define s2 where "s2 = s1\<lparr>ls_manager := [(Id 3, Some 0)], ls_threads := (ls_threads s1)[0 :=
      \<lparr>th_phase = Locking, th_todo = [], th_held = [] @ [Id 3]\<rparr>]\<rparr>"
  have "lock_step 0 (lock_init 1) s1" unfolding s1_def
    by (rule begin_txn) (simp_all add: lock_init_def idle_thread_def)
  moreover have "lock_step 0 s1 s2" unfolding s2_def
    by (rule acquire) (simp_all add: s1_def lock_init_def lock_plan_def lock_account_def mutex_for_def holder_def)
  ultimately have "lock_reachable 1 s2" using lock_start by (blast intro: lock_next)
  moreover have "th_held (ls_threads s2 ! 0) = [Id 3]" "holder (ls_manager s2) (Id 3) = Some 0"
    by (simp_all add: s2_def s1_def lock_init_def holder_def)
  ultimately show ?thesis by blast
qed

text \<open>
  Mutual exclusion. In every state that any number of threads can reach by locking the accounts of
  their transactions and releasing them, no account mutex is held by two threads, and the manager records
  exactly the thread that holds it.
\<close>

theorem account_locks_exclusive:
  assumes "lock_reachable n s" "t < n" "u < n"
    "i \<in> set (th_held (ls_threads s ! t))" "i \<in> set (th_held (ls_threads s ! u))"
  shows "t = u \<and> holder (ls_manager s) i = Some t"
  using lock_inv_exclusive [OF lock_reachable_inv [OF assms(1)]] lock_inv_holds [OF lock_reachable_inv [OF assms(1)]]
    lock_reachable_threads [OF assms(1)] assms(2-5) by simp

theorem account_locks_exclusive_witness:
  "\<exists>s :: lock_system. th_held (ls_threads s ! 0) = [Id 3] \<and> holder (ls_manager s) (Id 3) = Some 0"
proof -
  obtain s where s: "lock_reachable 1 s" "th_held (ls_threads s ! 0) = [Id 3]" using one_lock_held by blast
  from account_locks_exclusive [OF s(1), of 0 0 "Id 3"] s(2) show ?thesis by auto
qed

text \<open>
  No deadlock, and every transaction that has started to lock is finished. From every reachable state
  the threads inside a transaction can run on, without a new transaction starting, to a state in which all
  of them are idle and every mutex is free; and no run of theirs is infinite, since each step uses up work.
\<close>

theorem account_locks_drain:
  assumes "lock_reachable n s"
  shows "(\<exists>s'. busy_step\<^sup>*\<^sup>* s s' \<and> (\<forall>th \<in> set (ls_threads s'). th_phase th = Idle) \<and>
      (\<forall>i. holder (ls_manager s') i = None)) \<and> wfP (\<lambda>s' s. busy_step s s')"
proof (rule conjI)
  show "\<exists>s'. busy_step\<^sup>*\<^sup>* s s' \<and> (\<forall>th \<in> set (ls_threads s'). th_phase th = Idle) \<and>
      (\<forall>i. holder (ls_manager s') i = None)"
    using lock_inv_drains [OF lock_reachable_inv [OF assms]] idle_free by blast
  show "wfP (\<lambda>s' s. busy_step s s')"
    by (rule wfp_if_convertible_to_nat [of _ lock_work]) (rule busy_step_work)
qed

theorem account_locks_drain_witness:
  "\<exists>s s' :: lock_system. th_held (ls_threads s ! 0) = [Id 3] \<and> holder (ls_manager s) (Id 3) = Some 0 \<and> busy_step\<^sup>*\<^sup>* s s' \<and>
     (\<forall>th \<in> set (ls_threads s'). th_phase th = Idle) \<and> holder (ls_manager s') (Id 3) = None"
proof -
  obtain s where s: "lock_reachable 1 s" "th_held (ls_threads s ! 0) = [Id 3]" "holder (ls_manager s) (Id 3) = Some 0"
    using one_lock_held by blast
  with account_locks_drain [OF s(1)] show ?thesis by blast
qed

text \<open>
  The accounts of a transaction are locked in strictly ascending order of their ids, each once; the
  two-account guard does the same for a transfer, with a single mutex when both ids are equal.
\<close>

theorem lock_order_ascending:
  "sorted_wrt (<) (lock_plan t) \<and> set (lock_plan t) = set (involved_accounts t) \<and>
   scoped_locks_acquires a b = lock_plan (Transfer a b m) \<and> scoped_locks_size a b = (if a = b then 1 else 2)"
  by (simp add: lock_plan_sorted scoped_locks_plan scoped_locks_size_def)
    (simp add: scoped_locks_acquires_def scoped_locks_ids_def)

end
