(* ===== verification/Bank_Queue.thy ===== *)
theory Bank_Queue
  imports Bank_Transaction
begin

text \<open>
  src/concurrency/TransactionQueue.h/.cpp, and the FIFO contract that it shares with the task queue of
  the thread pool and the reserved ids of the processor. Every operation runs under the queue's mutex,
  so it is one atomic step; a \<open>wait_pop\<close> that would sleep on the condition variable is the outcome
  \<open>Blocks\<close>.
\<close>

section \<open>The contract of a FIFO queue\<close>

datatype 'a queue_op = Put 'a | Take

text \<open>A sequence of operations: the items accepted, the items handed out, and the queue left.\<close>

fun run_queue ::
  "('q \<Rightarrow> 'a \<Rightarrow> bool \<times> 'q) \<Rightarrow> ('q \<Rightarrow> 'a option \<times> 'q) \<Rightarrow> 'a queue_op list \<Rightarrow> 'q \<Rightarrow> 'a list \<times> 'a list \<times> 'q" where
  "run_queue put get [] q = ([], [], q)"
| "run_queue put get (Put x # ops) q =
     (case put q x of (accepted, q) \<Rightarrow>
        case run_queue put get ops q of (ins, outs, q) \<Rightarrow> (if accepted then x # ins else ins, outs, q))"
| "run_queue put get (Take # ops) q =
     (case get q of (item, q) \<Rightarrow>
        case run_queue put get ops q of (ins, outs, q) \<Rightarrow>
          (ins, (case item of None \<Rightarrow> outs | Some x \<Rightarrow> x # outs), q))"

locale fifo =
  fixes put :: "'q \<Rightarrow> 'a \<Rightarrow> bool \<times> 'q"
    and get :: "'q \<Rightarrow> 'a option \<times> 'q"
    and contents :: "'q \<Rightarrow> 'a list"
  assumes put_accepted: "put q x = (True, q') \<Longrightarrow> contents q' = contents q @ [x]"
    and put_refused: "put q x = (False, q') \<Longrightarrow> contents q' = contents q"
    and get_front: "get q = (Some x, q') \<Longrightarrow> contents q = x # contents q'"
    and get_empty: "get q = (None, q') \<Longrightarrow> contents q = [] \<and> contents q' = []"
begin

text \<open>What comes out is what was in and what was accepted, in that order and with nothing lost.\<close>

lemma run_fifo:
  "run_queue put get ops q = (ins, outs, q') \<Longrightarrow> contents q @ ins = outs @ contents q'"
proof (induction ops arbitrary: q ins outs q')
  case Nil
  then show ?case by simp
next
  case (Cons a ops)
  show ?case
  proof (cases a)
    case (Put x)
    obtain acc q1 where put: "put q x = (acc, q1)" by fastforce
    obtain ins1 outs1 q2 where run: "run_queue put get ops q1 = (ins1, outs1, q2)" by (metis prod_cases3)
    show ?thesis
      using Cons.IH [OF run] Cons.prems put put_accepted [of q x q1] put_refused [of q x q1] run
      by (cases acc) (auto simp: Put)
  next
    case Take
    obtain item q1 where get: "get q = (item, q1)" by fastforce
    obtain ins1 outs1 q2 where run: "run_queue put get ops q1 = (ins1, outs1, q2)" by (metis prod_cases3)
    show ?thesis
      using Cons.IH [OF run] Cons.prems get get_front [of q _ q1] get_empty [of q q1] run
      by (cases item) (auto simp: Take)
  qed
qed

lemma drained:
  "run_queue put get ops q = (ins, outs, q') \<Longrightarrow> contents q = [] \<Longrightarrow> contents q' = [] \<Longrightarrow> outs = ins"
  using run_fifo [of ops q ins outs q'] by simp

end

section \<open>The queue of transactions\<close>

record transaction_queue =
  tq_queue :: "transaction list"
  tq_closed :: bool

definition new_queue :: transaction_queue where
  "new_queue = \<lparr>tq_queue = [], tq_closed = False\<rparr>"

definition enqueue :: "transaction_queue \<Rightarrow> transaction \<Rightarrow> bool \<times> transaction_queue" where
  "enqueue q t = (if tq_closed q then (False, q) else (True, q\<lparr>tq_queue := tq_queue q @ [t]\<rparr>))"

datatype wait_outcome = Blocks | Returns "transaction option"

text \<open>
  \<open>cv_.wait(lock, token, pred)\<close> returns at once when the predicate holds, and also when the token is
  stopped; otherwise the caller sleeps. Then the front is taken, if there is one.
\<close>

definition wait_pop :: "bool \<Rightarrow> transaction_queue \<Rightarrow> wait_outcome \<times> transaction_queue" where
  "wait_pop stopped q =
     (if \<not> (tq_closed q \<or> tq_queue q \<noteq> []) \<and> \<not> stopped then (Blocks, q)
      else case tq_queue q of
             [] \<Rightarrow> (Returns None, q)
           | t # ts \<Rightarrow> (Returns (Some t), q\<lparr>tq_queue := ts\<rparr>))"

definition try_pop :: "transaction_queue \<Rightarrow> transaction option \<times> transaction_queue" where
  "try_pop q = (case tq_queue q of [] \<Rightarrow> (None, q) | t # ts \<Rightarrow> (Some t, q\<lparr>tq_queue := ts\<rparr>))"

definition close_queue :: "transaction_queue \<Rightarrow> transaction_queue" where
  "close_queue q = q\<lparr>tq_closed := True\<rparr>"

definition queue_size :: "transaction_queue \<Rightarrow> nat" where
  "queue_size q = length (tq_queue q)"

definition queue_closed :: "transaction_queue \<Rightarrow> bool" where
  "queue_closed q = tq_closed q"

interpretation tq: fifo enqueue try_pop tq_queue
  by unfold_locales (auto simp: enqueue_def try_pop_def split: if_splits list.splits)

lemma wait_pop_try_pop: "tq_queue q \<noteq> [] \<Longrightarrow> wait_pop stopped q = map_prod Returns id (try_pop q)"
  by (auto simp: wait_pop_def try_pop_def split: list.splits)

lemma wait_pop_blocks: "fst (wait_pop stopped q) = Blocks \<longleftrightarrow> tq_queue q = [] \<and> \<not> tq_closed q \<and> \<not> stopped"
  by (auto simp: wait_pop_def split: list.splits)

lemma wait_pop_None: "wait_pop stopped q = (Returns None, q') \<longleftrightarrow>
    tq_queue q = [] \<and> (tq_closed q \<or> stopped) \<and> q' = q"
  by (auto simp: wait_pop_def split: list.splits)

lemma wait_pop_Some: "wait_pop stopped q = (Returns (Some t), q') \<longleftrightarrow>
    tq_queue q = t # tq_queue q' \<and> tq_closed q' = tq_closed q"
  by (cases q; cases q') (auto simp: wait_pop_def split: list.splits)

text \<open>Every pop of a closed queue with \<open>n\<close> items left returns one, and then they report shutdown.\<close>

fun wait_pops :: "nat \<Rightarrow> bool \<Rightarrow> transaction_queue \<Rightarrow> wait_outcome list \<times> transaction_queue" where
  "wait_pops 0 stopped q = ([], q)"
| "wait_pops (Suc n) stopped q =
     (case wait_pop stopped q of (r, q) \<Rightarrow> case wait_pops n stopped q of (rs, q) \<Rightarrow> (r # rs, q))"

lemma wait_pops_drain:
  assumes "tq_closed q \<or> stopped"
  shows "wait_pops (length (tq_queue q) + n) stopped q =
    (map (Returns \<circ> Some) (tq_queue q) @ replicate n (Returns None), q\<lparr>tq_queue := []\<rparr>)"
  using assms
proof (induction "tq_queue q" arbitrary: q)
  case Nil
  have "wait_pops n stopped q = (replicate n (Returns None), q)"
    using Nil by (induction n) (auto simp: wait_pop_def)
  then show ?case using Nil by (cases q) simp
next
  case (Cons t ts)
  define q1 where "q1 = q\<lparr>tq_queue := ts\<rparr>"
  have "wait_pops (length (tq_queue q1) + n) stopped q1 =
    (map (Returns \<circ> Some) (tq_queue q1) @ replicate n (Returns None), q1\<lparr>tq_queue := []\<rparr>)"
    by (rule Cons.hyps(1)) (use Cons in \<open>auto simp: q1_def\<close>)
  then show ?case
    using Cons.hyps(2) by (simp add: wait_pop_def q1_def flip: Cons.hyps(2))
qed

section \<open>Properties\<close>

text \<open>
  The transaction queue is first in, first out and loses nothing. Over any sequence of enqueues and
  pops, what was in the queue followed by what was accepted is what came out followed by what is left; a
  pop that does not block returns nothing only when the queue is empty and closed or the token stopped, and
  otherwise the oldest transaction.
\<close>

theorem queue_fifo:
  assumes "run_queue enqueue try_pop ops q = (accepted, taken, q')"
  shows "tq_queue q @ accepted = taken @ tq_queue q' \<and>
    (case wait_pop stopped q of
       (Blocks, q1) \<Rightarrow> tq_queue q = [] \<and> \<not> tq_closed q \<and> \<not> stopped \<and> q1 = q
     | (Returns None, q1) \<Rightarrow> tq_queue q = [] \<and> (tq_closed q \<or> stopped) \<and> q1 = q
     | (Returns (Some t), q1) \<Rightarrow> tq_queue q = t # tq_queue q1)"
  using tq.run_fifo [OF assms] by (auto simp: wait_pop_def split: list.splits)

theorem queue_fifo_witness:
  "\<exists>accepted taken q'. run_queue enqueue try_pop [Put (Deposit (Id 1) (Mk_Money 5)), Put (Withdraw (Id 2) (Mk_Money 6)),
       Take] new_queue = (accepted, taken, q') \<and>
     accepted = [Deposit (Id 1) (Mk_Money 5), Withdraw (Id 2) (Mk_Money 6)] \<and> taken @ tq_queue q' = accepted \<and>
     taken = [Deposit (Id 1) (Mk_Money 5)] \<and> wait_pop False new_queue = (Blocks, new_queue)"
proof -
  have "run_queue enqueue try_pop [Put (Deposit (Id 1) (Mk_Money 5)), Put (Withdraw (Id 2) (Mk_Money 6)), Take]
      new_queue = ([Deposit (Id 1) (Mk_Money 5), Withdraw (Id 2) (Mk_Money 6)], [Deposit (Id 1) (Mk_Money 5)],
      \<lparr>tq_queue = [Withdraw (Id 2) (Mk_Money 6)], tq_closed = False\<rparr>)"
    by (simp add: new_queue_def enqueue_def try_pop_def)
  from queue_fifo [OF this, of False] this show ?thesis
    by (simp add: new_queue_def wait_pop_def)
qed

text \<open>
  A closed queue is drained and then reports the end: with \<open>n\<close> transactions left, the next \<open>n\<close> waits
  return them in order and every later one returns nothing; none of them blocks, and no enqueue is accepted.
  The same holds for an open queue whose token is stopped, except that it still accepts.
\<close>

theorem closed_queue_drains:
  assumes "tq_closed q \<or> stopped"
  shows "fst (wait_pops (length (tq_queue q) + n) stopped q) =
      map (\<lambda>t. Returns (Some t)) (tq_queue q) @ replicate n (Returns None) \<and>
    fst (enqueue (close_queue q) t) = False"
  using wait_pops_drain [OF assms, of n] by (simp add: comp_def enqueue_def close_queue_def)

theorem closed_queue_drains_witness:
  "fst (wait_pops 2 False \<lparr>tq_queue = [Deposit (Id 1) (Mk_Money 5)], tq_closed = True\<rparr>) =
     [Returns (Some (Deposit (Id 1) (Mk_Money 5))), Returns None]"
  using closed_queue_drains [of "\<lparr>tq_queue = [Deposit (Id 1) (Mk_Money 5)], tq_closed = True\<rparr>" False 1]
  by (simp add: numeral_2_eq_2)

end
