(* ===== verification/Bank_Processor.thy ===== *)
theory Bank_Processor
  imports Bank_Repositories Bank_Wal_Recovery Bank_Locks Bank_Queue
begin

text \<open>
  src/concurrency/TransactionProcessor.h/.cpp: queue, account locks, validation, WAL intent, apply,
  WAL commit, transaction record and audit trail. The repositories are the interface records of
  \<open>Bank_Repositories\<close>, so the definitions run on any implementation of them; what the theorems need of
  the implementation is a locale, interpreted on the in-memory repositories.

  \<open>process_impl\<close> holds the mutexes of the accounts involved from before the first load to the end, so
  it is one step of the model; \<open>Bank_Locks\<close> has the interleavings of the lock operations.
\<close>

section \<open>State\<close>

record ('a, 't, 'u) repositories =
  rp_accounts :: "'a account_repository"
  rp_transactions :: "'t transaction_repository"
  rp_audit :: "'u audit_repository"

record ('a, 't, 'u) processor =
  pr_accounts :: 'a
  pr_transactions :: 't
  pr_audit :: 'u
  pr_wal :: wal
  pr_locks :: lock_manager
  pr_queue :: transaction_queue
  pr_reserved :: "transaction_id list"
  pr_next_id :: u64
  pr_next_audit_id :: u64
  pr_accepting :: bool
  pr_started :: bool
  pr_worker_count :: nat

text \<open>
  What the run of one transaction gets from outside: the clock, read by \<open>project_transaction\<close>, by the
  audit entry of the normal path and by that of the exception handler, and the outcome of the two
  writes to the journal.
\<close>

record process_env =
  pe_record_time :: time_point
  pe_audit_time :: time_point
  pe_handler_time :: time_point
  pe_append :: append_io
  pe_marker :: "bool option"

definition processor_create ::
  "nat \<Rightarrow> ('a, 't, 'u) repositories \<Rightarrow> 'a \<Rightarrow> 't \<Rightarrow> 'u \<Rightarrow> wal \<Rightarrow> exn + ('a, 't, 'u) processor" where
  "processor_create n repos a t u w =
     bind_exn (tr_all (rp_transactions repos) t)
       (\<lambda>records.
          let max_id = foldl (\<lambda>m r. max m (id_value (rec_id r))) 0 records;
              max_id = foldl (\<lambda>m r. max m (id_value (rec_id r))) max_id (load_all w)
          in Inr \<lparr>pr_accounts = a, pr_transactions = t, pr_audit = u, pr_wal = w, pr_locks = [],
                  pr_queue = new_queue, pr_reserved = [], pr_next_id = max_id + 1, pr_next_audit_id = 1,
                  pr_accepting = True, pr_started = False, pr_worker_count = n\<rparr>)"

text \<open>\<open>next_id_.fetch_add(1)\<close>\<close>

definition fresh_id :: "('a, 't, 'u) processor \<Rightarrow> transaction_id \<times> ('a, 't, 'u) processor" where
  "fresh_id s = (Id (pr_next_id s), s\<lparr>pr_next_id := pr_next_id s + 1\<rparr>)"

definition submit ::
  "('a, 't, 'u) processor \<Rightarrow> transaction \<Rightarrow> transaction_id result \<times> ('a, 't, 'u) processor" where
  "submit s t =
     (if \<not> pr_accepting s then (result_failure ''processor stopped'', s)
      else case fresh_id s of (i, s) \<Rightarrow>
        let s = s\<lparr>pr_reserved := pr_reserved s @ [i]\<rparr>
        in case enqueue (pr_queue s) t of
             (True, q) \<Rightarrow> (result_success i, s\<lparr>pr_queue := q\<rparr>)
           | (False, q) \<Rightarrow>
               (result_failure ''queue closed'',
                if pr_reserved s \<noteq> [] \<and> hd (pr_reserved s) = i
                then s\<lparr>pr_queue := q, pr_reserved := tl (pr_reserved s)\<rparr> else s\<lparr>pr_queue := q\<rparr>))"

definition take_reserved_id ::
  "('a, 't, 'u) processor \<Rightarrow> transaction_id \<times> ('a, 't, 'u) processor" where
  "take_reserved_id s =
     (case pr_reserved s of
        i # ids \<Rightarrow> (i, s\<lparr>pr_reserved := ids\<rparr>)
      | [] \<Rightarrow> fresh_id s)"

definition pending :: "('a, 't, 'u) processor \<Rightarrow> nat" where
  "pending s = queue_size (pr_queue s)"

section \<open>One transaction\<close>

definition append_audit ::
  "('a, 't, 'u) repositories \<Rightarrow> time_point \<Rightarrow> customer_id \<Rightarrow> string \<Rightarrow> string \<Rightarrow>
     (('a, 't, 'u) processor, unit) io" where
  "append_audit repos now actor action details s =
     (let entry = \<lparr>ae_id = pr_next_audit_id s, ae_timestamp = now, ae_actor_id = actor,
                   ae_action = action, ae_details = details\<rparr>
      in case au_append (rp_audit repos) (pr_audit s) entry of
           (r, u) \<Rightarrow> (r, s\<lparr>pr_next_audit_id := pr_next_audit_id s + 1, pr_audit := u\<rparr>))"

text \<open>The load loop: the first id without an account, or all the accounts.\<close>

fun load_involved ::
  "('r \<Rightarrow> account_id \<Rightarrow> exn + account option) \<Rightarrow> 'r \<Rightarrow> account_id list \<Rightarrow> exn + (account_id + account list)" where
  "load_involved lookup r [] = Inr (Inr [])"
| "load_involved lookup r (i # ids) =
     bind_exn (lookup r i)
       (\<lambda>x. case x of
          None \<Rightarrow> Inr (Inl i)
        | Some a \<Rightarrow>
            bind_exn (load_involved lookup r ids)
              (\<lambda>rest. Inr (case rest of Inl j \<Rightarrow> Inl j | Inr as \<Rightarrow> Inr (a # as))))"

definition load_accounts_io ::
  "('a, 't, 'u) repositories \<Rightarrow> account_id list \<Rightarrow> (('a, 't, 'u) processor, account_id + account list) io" where
  "load_accounts_io repos ids s = (load_involved (ar_find_by_id (rp_accounts repos)) (pr_accounts s) ids, s)"

fun save_all :: "('r \<Rightarrow> account \<Rightarrow> (exn + unit) \<times> 'r) \<Rightarrow> account list \<Rightarrow> ('r, unit) io" where
  "save_all save [] r = (Inr (), r)"
| "save_all save (a # as) r =
     (case save r a of (Inl e, r) \<Rightarrow> (Inl e, r) | (Inr _, r) \<Rightarrow> save_all save as r)"

definition save_accounts_io ::
  "('a, 't, 'u) repositories \<Rightarrow> account list \<Rightarrow> (('a, 't, 'u) processor, unit) io" where
  "save_accounts_io repos as s =
     (case save_all (ar_save (rp_accounts repos)) as (pr_accounts s) of (r, a) \<Rightarrow> (r, s\<lparr>pr_accounts := a\<rparr>))"

definition wal_append_io :: "append_io \<Rightarrow> transaction_record \<Rightarrow> (('a, 't, 'u) processor, unit) io" where
  "wal_append_io io r s = (case wal_append io (pr_wal s) r of (x, w) \<Rightarrow> (x, s\<lparr>pr_wal := w\<rparr>))"

definition wal_commit_io :: "bool option \<Rightarrow> transaction_id \<Rightarrow> (('a, 't, 'u) processor, unit) io" where
  "wal_commit_io marker i s = (case mark_committed marker (pr_wal s) i of (x, w) \<Rightarrow> (x, s\<lparr>pr_wal := w\<rparr>))"

definition append_record_io ::
  "('a, 't, 'u) repositories \<Rightarrow> transaction_record \<Rightarrow> (('a, 't, 'u) processor, unit) io" where
  "append_record_io repos r s =
     (case tr_append (rp_transactions repos) (pr_transactions s) r of (x, t) \<Rightarrow> (x, s\<lparr>pr_transactions := t\<rparr>))"

text \<open>The mutexes of the accounts exist from the first time they are locked.\<close>

definition create_mutexes :: "account_id list \<Rightarrow> (('a, 't, 'u) processor, unit) io" where
  "create_mutexes ids s = (Inr (), s\<lparr>pr_locks := foldl mutex_for (pr_locks s) ids\<rparr>)"

definition system_actor :: customer_id where
  "system_actor = Id 0"

text \<open>The validated path: intent, effects, commit marker, record, audit entry.\<close>

definition execute_txn ::
  "('a, 't, 'u) repositories \<Rightarrow> process_env \<Rightarrow> transaction \<Rightarrow> transaction_id \<Rightarrow> account list \<Rightarrow>
     (('a, 't, 'u) processor, transaction_record result) io" where
  "execute_txn repos env t i loaded =
     (let record = (project_transaction (pe_record_time env) i t)\<lparr>rec_state := Validated\<rparr>
      in io_bind (wal_append_io (pe_append env) record) (\<lambda>_.
         io_bind (\<lambda>s. (fst (txn_apply t loaded), s)) (\<lambda>_.
         io_bind (save_accounts_io repos (snd (txn_apply t loaded))) (\<lambda>_.
         io_bind (wal_commit_io (pe_marker env) i) (\<lambda>_.
         let record = record\<lparr>rec_state := Committed\<rparr>
         in io_bind (append_record_io repos record) (\<lambda>_.
            io_bind (append_audit repos (pe_audit_time env) system_actor ''txn.completed'' (describe t)) (\<lambda>_.
            io_return (result_success record))))))))"

text \<open>Refusing a transaction: an audit entry, and the message as the result.\<close>

definition refuse_txn ::
  "('a, 't, 'u) repositories \<Rightarrow> time_point \<Rightarrow> string \<Rightarrow> (('a, 't, 'u) processor, transaction_record result) io" where
  "refuse_txn repos now message =
     io_bind (append_audit repos now system_actor ''txn.failed'' message) (\<lambda>_. io_return (result_failure message))"

definition locked_txn ::
  "('a, 't, 'u) repositories \<Rightarrow> process_env \<Rightarrow> transaction \<Rightarrow> transaction_id \<Rightarrow>
     (('a, 't, 'u) processor, transaction_record result) io" where
  "locked_txn repos env t i =
     io_bind (create_mutexes (lock_plan t)) (\<lambda>_.
     io_bind (load_accounts_io repos (lock_plan t)) (\<lambda>loaded.
       case loaded of
         Inl missing \<Rightarrow>
           refuse_txn repos (pe_audit_time env) (''account not found: '' @ to_string_u64 (id_value missing))
       | Inr accounts \<Rightarrow>
           if \<not> validate t accounts
           then refuse_txn repos (pe_audit_time env) (''validation failed: '' @ describe t)
           else execute_txn repos env t i accounts))"

text \<open>
  The first branch cannot be taken: every transaction names an account. An exception of its
  \<open>append_audit\<close>, and of the one in the handler, leaves \<open>process_impl\<close>.
\<close>

definition process_impl ::
  "('a, 't, 'u) repositories \<Rightarrow> process_env \<Rightarrow> transaction \<Rightarrow> transaction_id \<Rightarrow>
     (('a, 't, 'u) processor, transaction_record result) io" where
  "process_impl repos env t i =
     (if involved_accounts t = []
      then io_bind (append_audit repos (pe_audit_time env) system_actor ''txn.failed'' ''transaction names no accounts'')
             (\<lambda>_. io_return (result_failure ''validation failed: no accounts involved''))
      else io_catch (locked_txn repos env t i)
             (\<lambda>e. refuse_txn repos (pe_handler_time env) (if exn_what e = [] then ''unknown error'' else exn_what e)))"

section \<open>Entry points\<close>

definition process_one ::
  "('a, 't, 'u) repositories \<Rightarrow> process_env \<Rightarrow> transaction \<Rightarrow> (('a, 't, 'u) processor, transaction_record result) io" where
  "process_one repos env t s = (case fresh_id s of (i, s) \<Rightarrow> process_impl repos env t i s)"

definition process_next ::
  "('a, 't, 'u) repositories \<Rightarrow> process_env \<Rightarrow> (('a, 't, 'u) processor, transaction_record result option) io" where
  "process_next repos env s =
     (case try_pop (pr_queue s) of
        (None, q) \<Rightarrow> (Inr None, s\<lparr>pr_queue := q\<rparr>)
      | (Some t, q) \<Rightarrow>
          (case take_reserved_id (s\<lparr>pr_queue := q\<rparr>) of
             (i, s) \<Rightarrow> io_bind (process_impl repos env t i) (\<lambda>r. io_return (Some r)) s))"

definition start_processor :: "('a, 't, 'u) processor \<Rightarrow> ('a, 't, 'u) processor" where
  "start_processor s = (if pr_started s then s else s\<lparr>pr_started := True, pr_accepting := True\<rparr>)"

text \<open>What \<open>stop()\<close> does besides joining the consumers, which is \<open>consumer_step\<close> below.\<close>

definition stop_accepting :: "('a, 't, 'u) processor \<Rightarrow> ('a, 't, 'u) processor" where
  "stop_accepting s = s\<lparr>pr_accepting := False\<rparr>"

definition consumers_joined :: "('a, 't, 'u) processor \<Rightarrow> ('a, 't, 'u) processor" where
  "consumers_joined s = s\<lparr>pr_started := False\<rparr>"

text \<open>Running a transaction touches neither the queue nor the ids.\<close>

definition same_intake :: "('a, 't, 'u) processor \<Rightarrow> ('a, 't, 'u) processor \<Rightarrow> bool" where
  "same_intake s s' \<longleftrightarrow>
     pr_queue s' = pr_queue s \<and> pr_reserved s' = pr_reserved s \<and> pr_next_id s' = pr_next_id s \<and>
     pr_accepting s' = pr_accepting s \<and> pr_started s' = pr_started s \<and> pr_worker_count s' = pr_worker_count s"

lemma same_intake_order: "reflp same_intake" "transp same_intake"
  by (auto simp: same_intake_def reflp_def transp_def)

lemma same_intake_parts:
  "io_keeps same_intake (append_audit repos now actor action details)"
  "io_keeps same_intake (load_accounts_io repos ids)"
  "io_keeps same_intake (save_accounts_io repos as)"
  "io_keeps same_intake (wal_append_io io r)"
  "io_keeps same_intake (wal_commit_io m i)"
  "io_keeps same_intake (append_record_io repos r)"
  "io_keeps same_intake (create_mutexes ids)"
  "io_keeps same_intake (\<lambda>s. (x, s))"
  by (simp_all add: io_keeps_def same_intake_def append_audit_def load_accounts_io_def save_accounts_io_def
      wal_append_io_def wal_commit_io_def append_record_io_def create_mutexes_def Let_def split: prod.splits)

lemmas same_intake_rules = io_keeps_bind [OF same_intake_order(2)] io_keeps_catch [OF same_intake_order(2)]
  io_keeps_return [OF same_intake_order(1)] same_intake_parts

lemma same_intake_refuse: "io_keeps same_intake (refuse_txn repos now msg)"
  unfolding refuse_txn_def by (intro same_intake_rules)

lemma same_intake_execute: "io_keeps same_intake (execute_txn repos env t i loaded)"
  unfolding execute_txn_def Let_def by (intro same_intake_rules)

lemma same_intake_locked: "io_keeps same_intake (locked_txn repos env t i)"
  unfolding locked_txn_def
  by (intro same_intake_rules) (auto split: sum.splits intro: same_intake_refuse same_intake_execute)

lemma same_intake_process_impl: "io_keeps same_intake (process_impl repos env t i)"
  by (simp add: process_impl_def same_intake_rules same_intake_locked same_intake_refuse)

lemma process_impl_intake: "process_impl repos env t i s = (r, s') \<Longrightarrow> same_intake s s'"
  by (rule io_keepsD [OF same_intake_process_impl])

lemma process_next_cases:
  assumes "process_next repos env s = (r, s')"
  obtains (idle) "tq_queue (pr_queue s) = []" "r = Inr None" "s' = s"
  | (run) t ts i s1 x where "tq_queue (pr_queue s) = t # ts"
      "take_reserved_id (s\<lparr>pr_queue := (pr_queue s)\<lparr>tq_queue := ts\<rparr>\<rparr>) = (i, s1)"
      "process_impl repos env t i s1 = (x, s')" "r = map_sum id Some x"
proof (cases "tq_queue (pr_queue s)")
  case Nil
  then have "process_next repos env s = (Inr None, s)" by (simp add: process_next_def try_pop_def)
  then show ?thesis using assms idle Nil by (metis prod.inject)
next
  case (Cons t ts)
  obtain i s1 where take: "take_reserved_id (s\<lparr>pr_queue := (pr_queue s)\<lparr>tq_queue := ts\<rparr>\<rparr>) = (i, s1)" by fastforce
  obtain x s2 where impl: "process_impl repos env t i s1 = (x, s2)" by fastforce
  show ?thesis
    using assms Cons take impl run
    by (cases x) (simp_all add: process_next_def try_pop_def io_bind_def)
qed

lemma take_reserved_queue: "take_reserved_id s = (i, s') \<Longrightarrow> pr_queue s' = pr_queue s"
  by (auto simp: take_reserved_id_def fresh_id_def split: list.splits)

lemma process_next_shrinks:
  assumes "process_next repos env s = (Inr (Some r), s')"
  shows "length (tq_queue (pr_queue s')) < length (tq_queue (pr_queue s))"
  using assms
proof (cases rule: process_next_cases)
  case (run t ts i s1 x)
  then have "pr_queue s' = (pr_queue s)\<lparr>tq_queue := ts\<rparr>"
    using process_impl_intake [OF run(3)] take_reserved_queue [OF run(2)] by (simp add: same_intake_def)
  then show ?thesis using run by simp
qed simp

text \<open>\<open>process_until_empty\<close>; \<open>env n\<close> is the environment of its n-th transaction.\<close>

function process_until_empty ::
  "('a, 't, 'u) repositories \<Rightarrow> (nat \<Rightarrow> process_env) \<Rightarrow>
     (('a, 't, 'u) processor, transaction_record result list) io" where
  "process_until_empty repos env s =
     (case process_next repos (env 0) s of
        (Inl e, s') \<Rightarrow> (Inl e, s')
      | (Inr None, s') \<Rightarrow> (Inr [], s')
      | (Inr (Some r), s') \<Rightarrow>
          (case process_until_empty repos (\<lambda>k. env (Suc k)) s' of
             (Inl e, s2) \<Rightarrow> (Inl e, s2)
           | (Inr rs, s2) \<Rightarrow> (Inr (r # rs), s2)))"
  by pat_completeness auto
termination process_until_empty
  by (relation "measure (\<lambda>(_, _, s). length (tq_queue (pr_queue s)))")
    (auto dest!: sym [of "(Inr (Some _), _)"] process_next_shrinks)

declare process_until_empty.simps [simp del]

end
