(* ===== verification/Bank_Processor_Correct.thy ===== *)
theory Bank_Processor_Correct
  imports Bank_Processor
begin

text \<open>
  What \<open>process_impl\<close> guarantees: on any account store that keeps its contract, a success means that
  the transaction was valid and that exactly its effects are in the store; on stores that do not
  throw, the outcome is the one that \<open>process_verdict\<close> predicts from the accounts alone.
\<close>

section \<open>Specification\<close>

text \<open>The accounts after a transaction: each posted, none created or lost.\<close>

definition posted_view ::
  "transaction \<Rightarrow> (account_id \<Rightarrow> account option) \<Rightarrow> (account_id \<Rightarrow> account option) \<Rightarrow> bool" where
  "posted_view t v v' \<longleftrightarrow>
     (\<forall>i. case v i of None \<Rightarrow> v' i = None | Some a \<Rightarrow> \<exists>a'. v' i = Some a' \<and> posted t a a')"

definition view_ok :: "(account_id \<Rightarrow> account option) \<Rightarrow> bool" where
  "view_ok v \<longleftrightarrow> (\<forall>i a. v i = Some a \<longrightarrow> account_ok a \<and> acc_id a = i)"

text \<open>The reason a transaction is refused, if it is.\<close>

definition process_verdict :: "transaction \<Rightarrow> (account_id \<Rightarrow> account option) \<Rightarrow> string option" where
  "process_verdict t v =
     (case List.find (\<lambda>i. v i = None) (lock_plan t) of
        Some i \<Rightarrow> Some (''account not found: '' @ to_string_u64 (id_value i))
      | None \<Rightarrow>
          let accounts = map (\<lambda>i. the (v i)) (lock_plan t)
          in if \<not> validate t accounts then Some (''validation failed: '' @ describe t)
             else if credit_overflows t accounts then Some ''Money: addition overflow''
             else None)"

definition committed_record :: "process_env \<Rightarrow> transaction_id \<Rightarrow> transaction \<Rightarrow> transaction_record" where
  "committed_record env i t = (project_transaction (pe_record_time env) i t)\<lparr>rec_state := Committed\<rparr>"

definition audit_entry_of :: "u64 \<Rightarrow> time_point \<Rightarrow> string \<Rightarrow> string \<Rightarrow> audit_entry" where
  "audit_entry_of n now action details =
     \<lparr>ae_id = n, ae_timestamp = now, ae_actor_id = system_actor, ae_action = action, ae_details = details\<rparr>"

definition put_accounts :: "account list \<Rightarrow> (account_id \<Rightarrow> account option) \<Rightarrow> account_id \<Rightarrow> account option" where
  "put_accounts as v i = (case find_account as i of None \<Rightarrow> v i | Some a \<Rightarrow> Some a)"

lemma put_accounts_Nil [simp]: "put_accounts [] v = v"
  by (simp add: put_accounts_def fun_eq_iff)

lemma put_accounts_Cons:
  "acc_id a \<notin> acc_id ` set as \<Longrightarrow> put_accounts (a # as) v = put_accounts as (v(acc_id a \<mapsto> a))"
  by (auto simp: put_accounts_def fun_eq_iff find_account_None [THEN iffD2] split: option.splits)

lemma find_account_index:
  "distinct (map acc_id as) \<Longrightarrow> n < length as \<Longrightarrow> find_account as (acc_id (as ! n)) = Some (as ! n)"
  by (rule find_account_distinct) simp_all

text \<open>Writing the posted accounts back gives a posted view.\<close>

lemma posted_view_put:
  assumes posted: "list_all2 (posted t) as as'" and ids: "map acc_id as = lock_plan t"
    and view: "\<And>a. a \<in> set as \<Longrightarrow> v (acc_id a) = Some a" and ok: "view_ok v"
  shows "posted_view t v (put_accounts as' v)"
  unfolding posted_view_def
proof
  fix i
  have dist: "distinct (map acc_id as)" by (simp add: ids lock_plan_def distinct_involved)
  have ids': "map acc_id as' = map acc_id as" by (rule list_posted_ids [OF posted])
  show "case v i of None \<Rightarrow> put_accounts as' v i = None
    | Some a \<Rightarrow> \<exists>a'. put_accounts as' v i = Some a' \<and> posted t a a'"
  proof (cases "i \<in> set (lock_plan t)")
    case True
    then have "i \<in> set (map acc_id as)" by (simp only: ids)
    then obtain n where n: "n < length as" "acc_id (as ! n) = i" by (auto simp: in_set_conv_nth)
    then have n': "n < length as'" "acc_id (as' ! n) = i"
      using ids' by (metis length_map nth_map)+
    have "find_account as' i = Some (as' ! n)"
      using find_account_index [of as' n] n' ids' dist by simp
    moreover have "posted t (as ! n) (as' ! n)" using posted n by (auto simp: list_all2_conv_all_nth)
    moreover have "v i = Some (as ! n)" using view [of "as ! n"] n by simp
    ultimately show ?thesis by (simp add: put_accounts_def)
  next
    case False
    then have "i \<notin> set (map acc_id as')" by (metis ids ids')
    then have "find_account as' i = None" by (simp add: find_account_None)
    moreover have "posted t a a" if "v i = Some a" for a
    proof -
      have "acc_id a = i" using ok that by (simp add: view_ok_def)
      then have "acc_id a \<notin> set (involved_accounts t)" using False by (metis set_lock_plan)
      then show ?thesis by (simp add: posted_def)
    qed
    ultimately show ?thesis by (auto simp: put_accounts_def split: option.splits)
  qed
qed

lemma posted_view_at: "posted_view t v v' \<Longrightarrow> v i = Some a \<Longrightarrow> \<exists>a'. v' i = Some a' \<and> posted t a a'"
  unfolding posted_view_def by (drule spec [of _ i]) simp

lemma posted_view_ok:
  assumes posted: "posted_view t v v'" and ok: "view_ok v"
  shows "view_ok v'"
  unfolding view_ok_def
proof (intro allI impI)
  fix i a' assume a': "v' i = Some a'"
  show "account_ok a' \<and> acc_id a' = i"
  proof (cases "v i")
    case None
    then show ?thesis using posted [unfolded posted_view_def, THEN spec, of i] a' by simp
  next
    case (Some a)
    then have "posted t a a'" using posted [unfolded posted_view_def, THEN spec, of i] a' by simp
    moreover have "account_ok a" "acc_id a = i" using ok Some by (auto simp: view_ok_def)
    ultimately show ?thesis using posted_ok posted_id by metis
  qed
qed

section \<open>Running the steps\<close>

lemma wal_append_io_run: "wal_append_io io r s = (x, s1) \<longleftrightarrow>
    (\<exists>w. wal_append io (pr_wal s) r = (x, w) \<and> s1 = s\<lparr>pr_wal := w\<rparr>)"
  by (auto simp: wal_append_io_def split: prod.splits)

lemma wal_commit_io_run: "wal_commit_io m i s = (x, s1) \<longleftrightarrow>
    (\<exists>w. mark_committed m (pr_wal s) i = (x, w) \<and> s1 = s\<lparr>pr_wal := w\<rparr>)"
  by (auto simp: wal_commit_io_def split: prod.splits)

lemma save_accounts_io_run: "save_accounts_io repos as s = (x, s1) \<longleftrightarrow>
    (\<exists>a. save_all (ar_save (rp_accounts repos)) as (pr_accounts s) = (x, a) \<and> s1 = s\<lparr>pr_accounts := a\<rparr>)"
  by (auto simp: save_accounts_io_def split: prod.splits)

lemma append_record_io_run: "append_record_io repos r s = (x, s1) \<longleftrightarrow>
    (\<exists>t. tr_append (rp_transactions repos) (pr_transactions s) r = (x, t) \<and> s1 = s\<lparr>pr_transactions := t\<rparr>)"
  by (auto simp: append_record_io_def split: prod.splits)

lemma append_audit_run: "append_audit repos now system_actor action details s = (x, s1) \<longleftrightarrow>
    (\<exists>u. au_append (rp_audit repos) (pr_audit s) (audit_entry_of (pr_next_audit_id s) now action details) = (x, u) \<and>
         s1 = s\<lparr>pr_next_audit_id := pr_next_audit_id s + 1, pr_audit := u\<rparr>)"
  by (auto simp: append_audit_def Let_def audit_entry_of_def split: prod.splits)

lemmas io_runs = wal_append_io_run wal_commit_io_run save_accounts_io_run append_record_io_run append_audit_run

text \<open>The steps of a completed execution.\<close>

lemma execute_txn_Inr:
  assumes "execute_txn repos env t i loaded s = (Inr res, s')"
  obtains as' w1 w2 a tr u where "txn_apply t loaded = (Inr (), as')"
    "wal_append (pe_append env) (pr_wal s)
       ((project_transaction (pe_record_time env) i t)\<lparr>rec_state := Validated\<rparr>) = (Inr (), w1)"
    "save_all (ar_save (rp_accounts repos)) as' (pr_accounts s) = (Inr (), a)"
    "mark_committed (pe_marker env) w1 i = (Inr (), w2)"
    "tr_append (rp_transactions repos) (pr_transactions s) (committed_record env i t) = (Inr (), tr)"
    "au_append (rp_audit repos) (pr_audit s)
       (audit_entry_of (pr_next_audit_id s) (pe_audit_time env) ''txn.completed'' (describe t)) = (Inr (), u)"
    "res = result_success (committed_record env i t)"
    "s' = s\<lparr>pr_accounts := a, pr_wal := w2, pr_transactions := tr,
            pr_next_audit_id := pr_next_audit_id s + 1, pr_audit := u\<rparr>"
proof -
  obtain x as' where ap: "txn_apply t loaded = (x, as')" by fastforce
  have "x = Inr () \<and>
    (\<exists>w1. wal_append (pe_append env) (pr_wal s)
       ((project_transaction (pe_record_time env) i t)\<lparr>rec_state := Validated\<rparr>) = (Inr (), w1) \<and>
    (\<exists>a. save_all (ar_save (rp_accounts repos)) as' (pr_accounts s) = (Inr (), a) \<and>
    (\<exists>w2. mark_committed (pe_marker env) w1 i = (Inr (), w2) \<and>
    (\<exists>tr. tr_append (rp_transactions repos) (pr_transactions s) (committed_record env i t) = (Inr (), tr) \<and>
    (\<exists>u. au_append (rp_audit repos) (pr_audit s)
       (audit_entry_of (pr_next_audit_id s) (pe_audit_time env) ''txn.completed'' (describe t)) = (Inr (), u) \<and>
    res = result_success (committed_record env i t) \<and>
    s' = s\<lparr>pr_accounts := a, pr_wal := w2, pr_transactions := tr,
            pr_next_audit_id := pr_next_audit_id s + 1, pr_audit := u\<rparr>)))))"
    using assms unfolding execute_txn_def Let_def ap fst_conv snd_conv
    by (auto elim!: io_bind_cases simp: io_runs committed_record_def)
  then show ?thesis using ap that by blast
qed

lemma refuse_txn_Inr:
  assumes "refuse_txn repos now msg s = (Inr res, s')"
  shows "res = result_failure msg"
  using assms by (auto simp: refuse_txn_def elim!: io_bind_cases)

lemma locked_txn_cases:
  assumes "locked_txn repos env t i s = (r, s')"
  obtains (load_fails) e where "load_involved (ar_find_by_id (rp_accounts repos)) (pr_accounts s) (lock_plan t) = Inl e"
      "r = Inl e" "s' = s\<lparr>pr_locks := foldl mutex_for (pr_locks s) (lock_plan t)\<rparr>"
  | (missing) j where "load_involved (ar_find_by_id (rp_accounts repos)) (pr_accounts s) (lock_plan t) = Inr (Inl j)"
      "refuse_txn repos (pe_audit_time env) (''account not found: '' @ to_string_u64 (id_value j))
         (s\<lparr>pr_locks := foldl mutex_for (pr_locks s) (lock_plan t)\<rparr>) = (r, s')"
  | (invalid) as where "load_involved (ar_find_by_id (rp_accounts repos)) (pr_accounts s) (lock_plan t) = Inr (Inr as)"
      "\<not> validate t as"
      "refuse_txn repos (pe_audit_time env) (''validation failed: '' @ describe t)
         (s\<lparr>pr_locks := foldl mutex_for (pr_locks s) (lock_plan t)\<rparr>) = (r, s')"
  | (executes) as where "load_involved (ar_find_by_id (rp_accounts repos)) (pr_accounts s) (lock_plan t) = Inr (Inr as)"
      "validate t as"
      "execute_txn repos env t i as (s\<lparr>pr_locks := foldl mutex_for (pr_locks s) (lock_plan t)\<rparr>) = (r, s')"
proof -
  let ?s = "s\<lparr>pr_locks := foldl mutex_for (pr_locks s) (lock_plan t)\<rparr>"
  obtain x where x: "load_involved (ar_find_by_id (rp_accounts repos)) (pr_accounts s) (lock_plan t) = x" by simp
  have run: "locked_txn repos env t i s =
    (case x of Inl e \<Rightarrow> (Inl e, ?s)
     | Inr (Inl j) \<Rightarrow> refuse_txn repos (pe_audit_time env) (''account not found: '' @ to_string_u64 (id_value j)) ?s
     | Inr (Inr as) \<Rightarrow>
         if \<not> validate t as then refuse_txn repos (pe_audit_time env) (''validation failed: '' @ describe t) ?s
         else execute_txn repos env t i as ?s)"
    using x by (simp add: locked_txn_def io_bind_def create_mutexes_def load_accounts_io_def split: sum.splits)
  show ?thesis
  proof (cases x)
    case (Inl e)
    then show ?thesis using assms run x load_fails by simp
  next
    case (Inr y)
    show ?thesis
    proof (cases y)
      case Inl': (Inl j)
      then show ?thesis using assms run x Inr missing by simp
    next
      case Inr': (Inr as)
      then show ?thesis using assms run x Inr invalid executes by (cases "validate t as") simp_all
    qed
  qed
qed

text \<open>A success is an execution that completed.\<close>

lemma process_impl_success:
  assumes "process_impl repos env t i s = (Inr (result_success rec), s')"
  obtains as where "load_involved (ar_find_by_id (rp_accounts repos)) (pr_accounts s) (lock_plan t) = Inr (Inr as)"
    "validate t as"
    "execute_txn repos env t i as (s\<lparr>pr_locks := foldl mutex_for (pr_locks s) (lock_plan t)\<rparr>) =
       (Inr (result_success rec), s')"
proof -
  have "locked_txn repos env t i s = (Inr (result_success rec), s')"
    using assms by (auto simp: process_impl_def dest: refuse_txn_Inr elim!: io_catch_cases)
  then show ?thesis
    by (cases rule: locked_txn_cases) (auto dest: refuse_txn_Inr intro: that)
qed

lemma load_ids:
  "list_all2 (\<lambda>i a. v i = Some a \<and> acc_id a = i) ids as \<Longrightarrow> map acc_id as = ids"
  by (induction rule: list_all2_induct) simp_all

lemma load_found:
  "list_all2 (\<lambda>i a. v i = Some a \<and> acc_id a = i) ids as \<Longrightarrow>
   List.find (\<lambda>i. v i = None) ids = None \<and> map (\<lambda>i. the (v i)) ids = as"
  by (induction rule: list_all2_induct) simp_all

text \<open>The verdict on accounts that are all there.\<close>

lemma verdict_loaded:
  assumes "list_all2 (\<lambda>i a. v i = Some a \<and> acc_id a = i) (lock_plan t) as"
  shows "process_verdict t v =
    (if \<not> validate t as then Some (''validation failed: '' @ describe t)
     else if credit_overflows t as then Some ''Money: addition overflow'' else None)"
  using load_found [OF assms] by (simp add: process_verdict_def)

section \<open>Any store that keeps its contract\<close>

locale processor_stores =
  acc: account_store "rp_accounts repos" aok aview +
  tx: transaction_store "rp_transactions repos" tview tadd +
  aud: audit_store "rp_audit repos" uview uadd
  for repos :: "('a, 't, 'u) repositories" and aok :: "'a \<Rightarrow> bool"
    and aview :: "'a \<Rightarrow> account_id \<Rightarrow> account option" and tview :: "'t \<Rightarrow> 'tv"
    and tadd :: "transaction_record \<Rightarrow> 'tv \<Rightarrow> 'tv" and uview :: "'u \<Rightarrow> 'uv" and uadd :: "audit_entry \<Rightarrow> 'uv \<Rightarrow> 'uv"
begin

lemma load_involved_view:
  "aok r \<Longrightarrow> load_involved (ar_find_by_id (rp_accounts repos)) r ids = Inr (Inr as) \<Longrightarrow>
   list_all2 (\<lambda>i a. aview r i = Some a \<and> acc_id a = i) ids as"
proof (induction ids arbitrary: as)
  case (Cons i ids)
  from Cons.prems(2) obtain x where x: "ar_find_by_id (rp_accounts repos) r i = Inr x"
    by (auto simp: bind_exn_Inr_iff)
  with Cons.prems(2) obtain a where a: "x = Some a" by (cases x) auto
  from Cons.prems(2) x a obtain y where y: "load_involved (ar_find_by_id (rp_accounts repos)) r ids = Inr y"
    and as: "(case y of Inl j \<Rightarrow> Inl j | Inr as1 \<Rightarrow> Inr (a # as1)) = Inr as"
    by (auto simp: bind_exn_Inr_iff)
  from as obtain as1 where y1: "y = Inr as1" and as1: "as = a # as1" by (cases y) auto
  have "aview r i = Some a" using acc.find_view [OF Cons.prems(1) x] a by simp
  then show ?case using Cons.IH [OF Cons.prems(1) y [unfolded y1]] as1 acc.view_id [OF Cons.prems(1)] by simp
qed simp

lemma save_all_view:
  "aok r \<Longrightarrow> save_all (ar_save (rp_accounts repos)) as r = (Inr (), r') \<Longrightarrow> distinct (map acc_id as) \<Longrightarrow>
   aok r' \<and> aview r' = put_accounts as (aview r)"
proof (induction as arbitrary: r)
  case (Cons a as)
  from Cons.prems(2) obtain r1 where r1: "ar_save (rp_accounts repos) r a = (Inr (), r1)"
    "save_all (ar_save (rp_accounts repos)) as r1 = (Inr (), r')"
    by (auto split: prod.splits sum.splits)
  have s: "aok r1" "aview r1 = (aview r)(acc_id a \<mapsto> a)" using acc.save_ok [OF Cons.prems(1) r1(1)] by auto
  have "distinct (map acc_id as)" "acc_id a \<notin> acc_id ` set as" using Cons.prems(3) by simp_all
  then show ?case using Cons.IH [OF s(1) r1(2)] unfolding s(2) by (metis put_accounts_Cons)
qed simp

lemma save_all_ok: "aok r \<Longrightarrow> save_all (ar_save (rp_accounts repos)) as r = (x, r') \<Longrightarrow> aok r'"
proof (induction as arbitrary: r)
  case (Cons a as)
  obtain y r1 where r1: "ar_save (rp_accounts repos) r a = (y, r1)" by fastforce
  show ?case
  proof (cases y)
    case (Inl e)
    then have "aok r1" using acc.save_throws [OF Cons.prems(1), of a e r1] r1 by simp
    then show ?thesis using r1 Inl Cons.prems(2) by simp
  next
    case (Inr u)
    then have "aok r1" using acc.save_ok [OF Cons.prems(1)] r1 by simp
    then show ?thesis using Cons.IH [of r1] Cons.prems(2) r1 Inr by simp
  qed
qed simp

text \<open>
  A success, whatever else went wrong before: the transaction was valid for the accounts in the store,
  its effects are in the store, and the committed record and its audit entry were appended.
\<close>

lemma success_effects:
  assumes run: "process_impl repos env t i s = (Inr (result_success rec), s')"
    and aok: "aok (pr_accounts s)" and vok: "view_ok (aview (pr_accounts s))" and m: "money_ok (amount_of t)"
  shows "rec = committed_record env i t \<and> aok (pr_accounts s') \<and>
    posted_view t (aview (pr_accounts s)) (aview (pr_accounts s')) \<and>
    process_verdict t (aview (pr_accounts s)) = None \<and>
    tview (pr_transactions s') = tadd rec (tview (pr_transactions s)) \<and>
    uview (pr_audit s') = uadd (audit_entry_of (pr_next_audit_id s) (pe_audit_time env) ''txn.completed'' (describe t)) (uview (pr_audit s))"
proof -
  obtain as where load: "load_involved (ar_find_by_id (rp_accounts repos)) (pr_accounts s) (lock_plan t) = Inr (Inr as)"
    and valid: "validate t as"
    and ex: "execute_txn repos env t i as (s\<lparr>pr_locks := foldl mutex_for (pr_locks s) (lock_plan t)\<rparr>) =
       (Inr (result_success rec), s')"
    using run by (rule process_impl_success)
  have loaded: "list_all2 (\<lambda>i a. aview (pr_accounts s) i = Some a \<and> acc_id a = i) (lock_plan t) as"
    by (rule load_involved_view [OF aok load])
  have ids: "map acc_id as = lock_plan t" by (rule load_ids [OF loaded])
  have view: "aview (pr_accounts s) (acc_id a) = Some a" if "a \<in> set as" for a
    using loaded that by (auto simp: list_all2_conv_all_nth in_set_conv_nth)
  have aok': "accounts_ok as" using view vok by (auto simp: accounts_ok_def list_all_iff view_ok_def)
  have dist: "distinct (map acc_id as)" by (simp add: ids lock_plan_def distinct_involved)
  from ex obtain as' w1 w2 a tr u where ap: "txn_apply t as = (Inr (), as')"
    and save: "save_all (ar_save (rp_accounts repos)) as' (pr_accounts s) = (Inr (), a)"
    and app: "tr_append (rp_transactions repos) (pr_transactions s) (committed_record env i t) = (Inr (), tr)"
    and audit: "au_append (rp_audit repos) (pr_audit s)
       (audit_entry_of (pr_next_audit_id s) (pe_audit_time env) ''txn.completed'' (describe t)) = (Inr (), u)"
    and rec: "rec = committed_record env i t"
    and s': "pr_accounts s' = a" "pr_transactions s' = tr" "pr_audit s' = u"
    by (rule execute_txn_Inr) auto
  have no_ov: "\<not> credit_overflows t as"
    using txn_apply_overflow [OF valid _ aok' dist m] ap by auto
  have posted: "list_all2 (posted t) as as'"
    using txn_apply_posts [OF valid no_ov aok' dist m] ap by auto
  have dist': "distinct (map acc_id as')" using list_posted_ids [OF posted] dist by simp
  have "process_verdict t (aview (pr_accounts s)) = None"
    using verdict_loaded [OF loaded] valid no_ov by simp
  moreover have "aok a" "aview a = put_accounts as' (aview (pr_accounts s))"
    using save_all_view [OF aok save dist'] by auto
  moreover have "posted_view t (aview (pr_accounts s)) (put_accounts as' (aview (pr_accounts s)))"
    using posted_view_put [OF posted ids view vok] .
  ultimately show ?thesis
    using rec s' tx.append_ok [OF app] aud.append_ok [OF audit] by simp
qed

end

section \<open>The journal\<close>

text \<open>A success leaves one more committed entry in a journal that can be reopened.\<close>

lemma success_journal:
  assumes run: "process_impl repos env t i s = (Inr (result_success rec), s')"
    and inv: "wal_inv (pr_wal s)" and fresh: "i \<notin> we_id ` set (wal_entries (pr_wal s))"
  shows "wal_inv (pr_wal s') \<and>
    (\<exists>n payload. wal_entries (pr_wal s') = wal_entries (pr_wal s) @
       [\<lparr>we_id = i, we_state = Committed, we_offset = n, we_payload = payload\<rparr>]) \<and>
    (record_storable rec \<longrightarrow> load_all (pr_wal s') = load_all (pr_wal s) @ [stored_form rec])"
proof -
  define r where "r = (project_transaction (pe_record_time env) i t)\<lparr>rec_state := Validated\<rparr>"
  have id: "rec_id r = i" by (simp add: r_def project_transaction_def)
  from run obtain as where "execute_txn repos env t i as (s\<lparr>pr_locks := foldl mutex_for (pr_locks s) (lock_plan t)\<rparr>) =
       (Inr (result_success rec), s')"
    by (rule process_impl_success)
  then obtain w1 w2 where app: "wal_append (pe_append env) (pr_wal s) r = (Inr (), w1)"
    and commit: "mark_committed (pe_marker env) w1 i = (Inr (), w2)" and s': "pr_wal s' = w2"
    and rec: "rec = committed_record env i t"
    by (rule execute_txn_Inr) (auto simp: r_def)
  have stored: "record_storable rec \<longleftrightarrow> record_storable r" "stored_form rec = (stored_form r)\<lparr>rec_state := Committed\<rparr>"
    by (simp_all add: rec committed_record_def r_def record_storable_def stored_form_def)
  show ?thesis
    using wal_append_commit [OF inv, of r "pe_append env" w1 "pe_marker env" w2] id fresh app commit s' stored
      load_all_committed [OF inv, of r "pe_append env" w1 "pe_marker env" w2]
    by (auto simp: new_entry_def)
qed

section \<open>Stores that do not throw\<close>

locale reliable_stores =
  acc: reliable_account_store "rp_accounts repos" aok aview +
  tx: reliable_transaction_store "rp_transactions repos" tview tadd +
  aud: reliable_audit_store "rp_audit repos" uview uadd
  for repos :: "('a, 't, 'u) repositories" and aok :: "'a \<Rightarrow> bool"
    and aview :: "'a \<Rightarrow> account_id \<Rightarrow> account option" and tview :: "'t \<Rightarrow> 'tv"
    and tadd :: "transaction_record \<Rightarrow> 'tv \<Rightarrow> 'tv" and uview :: "'u \<Rightarrow> 'uv" and uadd :: "audit_entry \<Rightarrow> 'uv \<Rightarrow> 'uv"

sublocale reliable_stores \<subseteq> processor_stores ..

context reliable_stores begin

lemma load_involved_total:
  assumes "aok r"
  shows "load_involved (ar_find_by_id (rp_accounts repos)) r ids =
    Inr (case List.find (\<lambda>i. aview r i = None) ids of
           Some i \<Rightarrow> Inl i | None \<Rightarrow> Inr (map (\<lambda>i. the (aview r i)) ids))"
proof (induction ids)
  case (Cons i ids)
  obtain x where x: "ar_find_by_id (rp_accounts repos) r i = Inr x" using acc.find_total [OF assms] by blast
  then have "x = aview r i" by (rule acc.find_view [OF assms])
  then show ?case using Cons.IH x by (cases "aview r i") (simp_all split: option.splits)
qed simp

lemma save_all_total: "aok r \<Longrightarrow> \<exists>r'. save_all (ar_save (rp_accounts repos)) as r = (Inr (), r')"
proof (induction as arbitrary: r)
  case (Cons a as)
  obtain r1 where r1: "ar_save (rp_accounts repos) r a = (Inr (), r1)" using acc.save_total [OF Cons.prems] by blast
  then have "aok r1" using acc.save_ok [OF Cons.prems] by blast
  then show ?case using Cons.IH [of r1] r1 by simp
qed simp

text \<open>An audit entry never fails, so \<open>process_impl\<close> never throws.\<close>

lemma append_audit_total:
  "\<exists>u. append_audit repos now system_actor action details s =
     (Inr (), s\<lparr>pr_next_audit_id := pr_next_audit_id s + 1, pr_audit := u\<rparr>) \<and>
     uview u = uadd (audit_entry_of (pr_next_audit_id s) now action details) (uview (pr_audit s))"
proof -
  obtain u where "au_append (rp_audit repos) (pr_audit s) (audit_entry_of (pr_next_audit_id s) now action details) = (Inr (), u)"
    using aud.append_total by blast
  then show ?thesis using aud.append_ok by (auto simp: append_audit_run)
qed

lemma refuse_total:
  "\<exists>u. refuse_txn repos now msg s =
     (Inr (result_failure msg), s\<lparr>pr_next_audit_id := pr_next_audit_id s + 1, pr_audit := u\<rparr>) \<and>
     uview u = uadd (audit_entry_of (pr_next_audit_id s) now ''txn.failed'' msg) (uview (pr_audit s))"
  using append_audit_total [of now "''txn.failed''" msg s] by (auto simp: refuse_txn_def io_bind_def)

lemma process_impl_total: "\<exists>res s'. process_impl repos env t i s = (Inr res, s')"
proof -
  obtain r s1 where locked: "locked_txn repos env t i s = (r, s1)" by fastforce
  show ?thesis
  proof (cases r)
    case (Inl e)
    then show ?thesis using locked refuse_total [of "pe_handler_time env" "if exn_what e = [] then ''unknown error'' else exn_what e" s1]
      by (auto simp: process_impl_def io_catch_def)
  qed (use locked in \<open>auto simp: process_impl_def io_catch_def\<close>)
qed

text \<open>Whether an execution completes is decided before the accounts are saved.\<close>

lemma execute_total:
  assumes aok: "aok (pr_accounts s)" and marker: "pe_marker env = None"
  obtains (intent) e w1 where
      "wal_append (pe_append env) (pr_wal s)
         ((project_transaction (pe_record_time env) i t)\<lparr>rec_state := Validated\<rparr>) = (Inl e, w1)"
      "execute_txn repos env t i loaded s = (Inl e, s\<lparr>pr_wal := w1\<rparr>)"
  | (effects) e w1 as' where "txn_apply t loaded = (Inl e, as')"
      "execute_txn repos env t i loaded s = (Inl e, s\<lparr>pr_wal := w1\<rparr>)"
  | (completes) as' s' where "txn_apply t loaded = (Inr (), as')"
      "execute_txn repos env t i loaded s = (Inr (result_success (committed_record env i t)), s')"
proof -
  define r where "r = (project_transaction (pe_record_time env) i t)\<lparr>rec_state := Validated\<rparr>"
  have id: "rec_id r = i" by (simp add: r_def project_transaction_def)
  obtain x w1 where app: "wal_append (pe_append env) (pr_wal s) r = (x, w1)" by fastforce
  obtain y as' where ap: "txn_apply t loaded = (y, as')" by fastforce
  show ?thesis
  proof (cases x)
    case (Inl e)
    then show ?thesis using app intent unfolding r_def
      by (simp add: execute_txn_def Let_def io_bind_def wal_append_io_def)
  next
    case x: (Inr u)
    show ?thesis
    proof (cases y)
      case (Inl e)
      then show ?thesis using app x ap effects unfolding r_def
        by (simp add: execute_txn_def Let_def io_bind_def wal_append_io_def)
    next
      case y: (Inr u')
      obtain a where a: "save_all (ar_save (rp_accounts repos)) as' (pr_accounts s) = (Inr (), a)"
        using save_all_total [OF aok] by blast
      obtain w2 where w2: "mark_committed None w1 i = (Inr (), w2)"
        using wal_append_found [of "pe_append env" "pr_wal s" r w1] app x id by auto
      obtain tr where tr: "tr_append (rp_transactions repos) (pr_transactions s) (r\<lparr>rec_state := Committed\<rparr>) = (Inr (), tr)"
        using tx.append_total by blast
      have "\<exists>s'. execute_txn repos env t i loaded s = (Inr (result_success (committed_record env i t)), s')"
        using app x ap y a w2 tr marker
          append_audit_total [of "pe_audit_time env" "''txn.completed''" "describe t"
            "s\<lparr>pr_accounts := a, pr_wal := w2, pr_transactions := tr\<rparr>"]
        unfolding r_def
        by (auto simp: execute_txn_def Let_def io_bind_def wal_append_io_def save_accounts_io_def
            wal_commit_io_def append_record_io_def committed_record_def)
      then show ?thesis using completes ap y by auto
    qed
  qed
qed

lemma refuse_keeps:
  assumes "refuse_txn repos now msg s = (r, s')"
  shows "r = Inr (result_failure msg)" "pr_accounts s' = pr_accounts s" "pr_transactions s' = pr_transactions s"
    "pr_wal s' = pr_wal s"
    "uview (pr_audit s') = uadd (audit_entry_of (pr_next_audit_id s) now ''txn.failed'' msg) (uview (pr_audit s))"
  using refuse_total [of now msg s] assms by auto

text \<open>Without a failure of the commit marker, a failed transaction leaves accounts and records alone.\<close>

lemma failure_effects:
  assumes run: "process_impl repos env t i s = (Inr res, s')" and fails: "\<not> result_ok res"
    and aok: "aok (pr_accounts s)" and marker: "pe_marker env = None"
  shows "pr_accounts s' = pr_accounts s \<and> pr_transactions s' = pr_transactions s \<and>
    (\<exists>now msg. res = result_failure msg \<and>
      uview (pr_audit s') = uadd (audit_entry_of (pr_next_audit_id s) now ''txn.failed'' msg) (uview (pr_audit s)))"
proof -
  obtain r s1 where locked: "locked_txn repos env t i s = (r, s1)" by fastforce
  let ?s = "s\<lparr>pr_locks := foldl mutex_for (pr_locks s) (lock_plan t)\<rparr>"
  have caught: ?thesis
    if "r = Inl e" "pr_accounts s1 = pr_accounts s" "pr_transactions s1 = pr_transactions s"
      "pr_audit s1 = pr_audit s" "pr_next_audit_id s1 = pr_next_audit_id s" for e
  proof -
    have "refuse_txn repos (pe_handler_time env) (if exn_what e = [] then ''unknown error'' else exn_what e) s1 =
        (Inr res, s')"
      using run locked that(1) by (simp add: process_impl_def io_catch_def)
    from refuse_keeps [OF this] that show ?thesis by auto
  qed
  have refused: ?thesis if "refuse_txn repos now msg ?s = (r, s1)" for now msg
    using run locked refuse_keeps [OF that] by (auto simp: process_impl_def io_catch_def)
  show ?thesis
    using locked
  proof (cases rule: locked_txn_cases)
    case (load_fails e) then show ?thesis using caught by simp
  next
    case (missing j) then show ?thesis using refused by blast
  next
    case (invalid as) then show ?thesis using refused by blast
  next
    case (executes as)
    have "aok (pr_accounts ?s)" using aok by simp
    then show ?thesis
    proof (cases rule: execute_total [of ?s env i t as, OF _ marker, consumes 1, case_names intent effects completes])
      case (intent e w1) then show ?thesis using executes caught by simp
    next
      case (effects e w1 as') then show ?thesis using executes caught by simp
    next
      case (completes as' s2)
      then have "res = result_success (committed_record env i t)"
        using run locked executes by (simp add: process_impl_def io_catch_def)
      then show ?thesis using fails by simp
    qed
  qed
qed

text \<open>With a journal that can be written, the verdict on the accounts is the outcome.\<close>

lemma verdict_outcome:
  assumes aok: "aok (pr_accounts s)" and vok: "view_ok (aview (pr_accounts s))" and m: "money_ok (amount_of t)"
    and marker: "pe_marker env = None" and inv: "wal_inv (pr_wal s)"
    and io: "resize_error (pe_append env) = None" "write_io (pe_append env) = Written"
  shows "fst (process_impl repos env t i s) =
    Inr (case process_verdict t (aview (pr_accounts s)) of
           None \<Rightarrow> result_success (committed_record env i t) | Some msg \<Rightarrow> result_failure msg)"
proof -
  obtain r s1 where locked: "locked_txn repos env t i s = (r, s1)" by fastforce
  let ?s = "s\<lparr>pr_locks := foldl mutex_for (pr_locks s) (lock_plan t)\<rparr>"
  let ?v = "aview (pr_accounts s)"
  have load: "load_involved (ar_find_by_id (rp_accounts repos)) (pr_accounts s) (lock_plan t) =
      Inr (case List.find (\<lambda>i. ?v i = None) (lock_plan t) of
           Some i \<Rightarrow> Inl i | None \<Rightarrow> Inr (map (\<lambda>i. the (?v i)) (lock_plan t)))"
    by (rule load_involved_total [OF aok])
  show ?thesis
    using locked
  proof (cases rule: locked_txn_cases)
    case (load_fails e) then show ?thesis using load by simp
  next
    case (missing j)
    then show ?thesis using locked load refuse_keeps(1) [OF missing(2)]
      by (simp add: process_impl_def io_catch_def process_verdict_def split: option.splits)
  next
    case (invalid as)
    have loaded: "list_all2 (\<lambda>i a. ?v i = Some a \<and> acc_id a = i) (lock_plan t) as"
      by (rule load_involved_view [OF aok invalid(1)])
    show ?thesis using locked invalid(2) refuse_keeps(1) [OF invalid(3)]
      by (simp add: process_impl_def io_catch_def verdict_loaded [OF loaded])
  next
    case (executes as)
    have loaded: "list_all2 (\<lambda>i a. ?v i = Some a \<and> acc_id a = i) (lock_plan t) as"
      by (rule load_involved_view [OF aok executes(1)])
    have ids: "map acc_id as = lock_plan t" by (rule load_ids [OF loaded])
    have aok': "accounts_ok as" using loaded vok
      by (auto simp: accounts_ok_def list_all_length view_ok_def list_all2_conv_all_nth)
    have dist: "distinct (map acc_id as)" by (simp add: ids lock_plan_def distinct_involved)
    have "aok (pr_accounts ?s)" using aok by simp
    then show ?thesis
    proof (cases rule: execute_total [of ?s env i t as, OF _ marker, consumes 1, case_names intent effects completes])
      case (intent e w1)
      moreover obtain w' where "wal_append (pe_append env) (pr_wal s)
          ((project_transaction (pe_record_time env) i t)\<lparr>rec_state := Validated\<rparr>) = (Inr (), w')"
        using wal_append_written [OF inv io] by blast
      ultimately show ?thesis by simp
    next
      case (effects e w1 as')
      then have ov: "credit_overflows t as" using txn_apply_posts [OF executes(2) _ aok' dist m] by auto
      then have "e = Overflow_error ''Money: addition overflow''"
        using txn_apply_overflow [OF executes(2) ov aok' dist m] effects(1) by auto
      then show ?thesis
        using locked effects executes refuse_total [of "pe_handler_time env" "''Money: addition overflow''" s1] ov
        by (auto simp: process_impl_def io_catch_def verdict_loaded [OF loaded])
    next
      case (completes as' s2)
      then have "\<not> credit_overflows t as" using txn_apply_overflow [OF executes(2) _ aok' dist m] by auto
      then show ?thesis using locked completes executes
        by (simp add: process_impl_def io_catch_def verdict_loaded [OF loaded])
    qed
  qed
qed

text \<open>A transaction that the verdict accepts is loaded, validated, applied and saved.\<close>

lemma accepted_steps:
  assumes aok: "aok r" and vok: "view_ok (aview r)" and m: "money_ok (amount_of t)"
    and verdict: "process_verdict t (aview r) = None"
  obtains as as' a where "load_involved (ar_find_by_id (rp_accounts repos)) r (lock_plan t) = Inr (Inr as)"
    "validate t as" "txn_apply t as = (Inr (), as')" "save_all (ar_save (rp_accounts repos)) as' r = (Inr (), a)"
    "aok a" "posted_view t (aview r) (aview a)"
proof -
  have none: "List.find (\<lambda>i. aview r i = None) (lock_plan t) = None"
    using verdict by (simp add: process_verdict_def split: option.splits)
  define as where "as = map (\<lambda>i. the (aview r i)) (lock_plan t)"
  have load: "load_involved (ar_find_by_id (rp_accounts repos)) r (lock_plan t) = Inr (Inr as)"
    by (simp add: load_involved_total [OF aok] none as_def)
  note loaded = load_involved_view [OF aok load]
  have valid: "validate t as" and no_ov: "\<not> credit_overflows t as"
    using verdict by (simp_all add: verdict_loaded [OF loaded] split: if_splits)
  have ids: "map acc_id as = lock_plan t" by (rule load_ids [OF loaded])
  have view: "aview r (acc_id a) = Some a" if "a \<in> set as" for a
    using loaded that by (auto simp: list_all2_conv_all_nth in_set_conv_nth)
  have aok': "accounts_ok as" using view vok by (auto simp: accounts_ok_def list_all_iff view_ok_def)
  have dist: "distinct (map acc_id as)" by (simp add: ids lock_plan_def distinct_involved)
  obtain as' where ap: "txn_apply t as = (Inr (), as')" and posted: "list_all2 (posted t) as as'"
    using txn_apply_posts [OF valid no_ov aok' dist m] by blast
  obtain a where a: "save_all (ar_save (rp_accounts repos)) as' r = (Inr (), a)"
    using save_all_total [OF aok] by blast
  have "aok a" "aview a = put_accounts as' (aview r)"
    using save_all_view [OF aok a] list_posted_ids [OF posted] dist by simp_all
  then show ?thesis using that [OF load valid ap a] posted_view_put [OF posted ids view vok] by simp
qed

text \<open>
  A transaction that is acceptable, on a journal to which the intent can be written but not the commit
  marker: the accounts have been posted when the exception is raised, and nothing takes that back.
\<close>

lemma unmarked_effects:
  assumes aok: "aok (pr_accounts s)" and vok: "view_ok (aview (pr_accounts s))" and m: "money_ok (amount_of t)"
    and inv: "wal_inv (pr_wal s)" and fresh: "i \<notin> we_id ` set (wal_entries (pr_wal s))"
    and verdict: "process_verdict t (aview (pr_accounts s)) = None"
    and stored: "record_storable (committed_record env i t)" and marker: "pe_marker env = Some reached"
    and io: "resize_error (pe_append env) = None" "write_io (pe_append env) = Written"
  obtains s' where
    "process_impl repos env t i s = (Inr (result_failure ''WalLogger: commit marker write failed''), s')"
    "aok (pr_accounts s')" "posted_view t (aview (pr_accounts s)) (aview (pr_accounts s'))"
    "pr_transactions s' = pr_transactions s"
    "uview (pr_audit s') = uadd (audit_entry_of (pr_next_audit_id s) (pe_handler_time env) ''txn.failed''
       ''WalLogger: commit marker write failed'') (uview (pr_audit s))"
    "load_all (wal_open path (Some (wal_file (pr_wal s')))) = load_all (pr_wal s) @
       [(stored_form (committed_record env i t))\<lparr>rec_state := if reached then Committed else Validated\<rparr>]"
proof -
  define r where "r = (project_transaction (pe_record_time env) i t)\<lparr>rec_state := Validated\<rparr>"
  let ?msg = "''WalLogger: commit marker write failed''"
  let ?s = "s\<lparr>pr_locks := foldl mutex_for (pr_locks s) (lock_plan t)\<rparr>"
  have r: "rec_id r = i" "rec_state r = Validated" "record_storable r"
    "stored_form (committed_record env i t) = (stored_form r)\<lparr>rec_state := Committed\<rparr>"
    using stored by (simp_all add: r_def project_transaction_def committed_record_def record_storable_def stored_form_def)
  obtain as as' a where load: "load_involved (ar_find_by_id (rp_accounts repos)) (pr_accounts s) (lock_plan t) = Inr (Inr as)"
    and valid: "validate t as" and ap: "txn_apply t as = (Inr (), as')"
    and a: "save_all (ar_save (rp_accounts repos)) as' (pr_accounts s) = (Inr (), a)"
    and saved: "aok a" "posted_view t (aview (pr_accounts s)) (aview a)"
    by (rule accepted_steps [OF aok vok m verdict])
  obtain w1 where w1: "wal_append (pe_append env) (pr_wal s) r = (Inr (), w1)"
    using wal_append_written [OF inv io] by blast
  have "rec_id r \<notin> we_id ` set (wal_entries (pr_wal s))" "rec_state r \<noteq> Committed" using r fresh by simp_all
  from marker_failure [OF inv this(1) r(3) w1 this(2), of reached path, unfolded r(1,2)]
  obtain w2 where w2: "mark_committed (Some reached) w1 i = (Inl (Runtime_error ?msg), w2)"
    "load_all (wal_open path (Some (wal_file w2))) =
       load_all (pr_wal s) @ [(stored_form r)\<lparr>rec_state := if reached then Committed else Validated\<rparr>]" by metis
  let ?s1 = "?s\<lparr>pr_accounts := a, pr_wal := w2\<rparr>"
  have "execute_txn repos env t i as ?s = (Inl (Runtime_error ?msg), ?s1)"
    using w1 ap a w2(1) marker by (simp add: execute_txn_def Let_def io_bind_def wal_append_io_def
        save_accounts_io_def wal_commit_io_def r_def)
  then have "locked_txn repos env t i s = (Inl (Runtime_error ?msg), ?s1)"
    using load valid by (simp add: locked_txn_def io_bind_def create_mutexes_def load_accounts_io_def)
  moreover obtain u where u: "refuse_txn repos (pe_handler_time env) ?msg ?s1 =
      (Inr (result_failure ?msg), ?s1\<lparr>pr_next_audit_id := pr_next_audit_id ?s1 + 1, pr_audit := u\<rparr>)"
    "uview u = uadd (audit_entry_of (pr_next_audit_id ?s1) (pe_handler_time env) ''txn.failed'' ?msg) (uview (pr_audit ?s1))"
    using refuse_total [of "pe_handler_time env" ?msg ?s1] by blast
  ultimately have run: "process_impl repos env t i s =
      (Inr (result_failure ?msg), ?s1\<lparr>pr_next_audit_id := pr_next_audit_id ?s1 + 1, pr_audit := u\<rparr>)"
    by (simp add: process_impl_def io_catch_def lock_plan_def)
  show ?thesis using that [OF run] saved u(2) w2(2) r(4) by simp
qed

end

end
