(* ===== verification/Bank_Processor_Memory.thy ===== *)
theory Bank_Processor_Memory
  imports Bank_Processor_Correct
begin

text \<open>
  The processor on the in-memory repositories: the interpretation that discharges the contracts of
  \<open>Bank_Processor_Correct\<close>, the balance sheet of a run, and the ids the processor hands out.
\<close>

definition mem_repositories :: "(memory_accounts, memory_transactions, memory_audit) repositories" where
  "mem_repositories = \<lparr>rp_accounts = mem_accounts, rp_transactions = mem_transactions, rp_audit = mem_audit\<rparr>"

lemma mem_repositories_simps [simp]:
  "rp_accounts mem_repositories = mem_accounts" "rp_transactions mem_repositories = mem_transactions"
  "rp_audit mem_repositories = mem_audit"
  by (simp_all add: mem_repositories_def)

interpretation mem: reliable_stores mem_repositories mem_accounts_ok mem_accounts_view "\<lambda>rs. rs" "\<lambda>r rs. rs @ [r]"
  "\<lambda>es. es" "\<lambda>e es. es @ [e]"
  unfolding reliable_stores_def mem_repositories_simps
  by (intro conjI mem_account_store.reliable_account_store_axioms
      mem_transaction_store.reliable_transaction_store_axioms mem_audit_store.reliable_audit_store_axioms)

section \<open>The balance sheet\<close>

definition mem_total :: "memory_accounts \<Rightarrow> int" where
  "mem_total m = total_funds (map snd m)"

definition mem_ok :: "memory_accounts \<Rightarrow> bool" where
  "mem_ok m \<longleftrightarrow> mem_accounts_ok m \<and> accounts_ok (map snd m)"

text \<open>What a transaction brings into the bank: a credit without a debit, or the reverse.\<close>

definition net_flow :: "transaction \<Rightarrow> int" where
  "net_flow t = (if credit_account t = None then 0 else amount (amount_of t)) -
                (if debit_account t = None then 0 else amount (amount_of t))"

lemma net_flow_simps [simp]:
  "net_flow (Deposit i m) = amount m" "net_flow (Withdraw i m) = - amount m" "net_flow (Transfer i j m) = 0"
  by (simp_all add: net_flow_def)

lemma mem_view_ok: "mem_ok m \<Longrightarrow> view_ok (mem_accounts_view m)"
  unfolding view_ok_def mem_ok_def accounts_ok_def list_all_iff
  using mem_account_store.view_id [of m] std_map.entries_find [of m]
  by (fastforce simp: mem_accounts_view_def mem_accounts_ok_def)

lemma sum_single:
  "distinct ids \<Longrightarrow> (\<Sum>i\<leftarrow>ids. if c = Some i then k else 0) = (if set_option c \<subseteq> set ids \<and> c \<noteq> None then k else (0 :: int))"
  by (induction ids) (auto split: if_splits)

lemma posted_funds: "posted t a a' \<Longrightarrow> funds a' = funds a + txn_delta t (acc_id a)"
  by (auto simp: posted_def txn_delta_def set_involved split: if_splits)

lemma posted_total:
  "list_all2 (posted t) as as' \<Longrightarrow> total_funds as' = total_funds as + (\<Sum>i\<leftarrow>map acc_id as. txn_delta t i)"
proof (induction rule: list_all2_induct)
  case (Cons a as a' as')
  then show ?case using posted_funds [OF Cons(1)] by (simp add: total_funds_def)
qed (simp add: total_funds_def)

lemma delta_sum:
  assumes "distinct ids" "set (involved_accounts t) \<subseteq> set ids"
  shows "(\<Sum>i\<leftarrow>ids. txn_delta t i) = net_flow t"
proof -
  have "(\<Sum>i\<leftarrow>ids. txn_delta t i) =
      (\<Sum>i\<leftarrow>ids. if credit_account t = Some i then amount (amount_of t) else 0) -
      (\<Sum>i\<leftarrow>ids. if debit_account t = Some i then amount (amount_of t) else 0)"
    by (simp add: txn_delta_def sum_list_subtractf)
  then show ?thesis using assms by (auto simp: sum_single net_flow_def set_involved)
qed

lemma mem_ids: "mem_accounts_ok m \<Longrightarrow> map fst m = map (\<lambda>p. id_value (acc_id (snd p))) m"
  by (auto simp: mem_accounts_ok_def list_all_iff)

lemma mem_ids_distinct: "mem_accounts_ok m \<Longrightarrow> distinct (map acc_id (map snd m))"
  using omap_ok_distinct [of m] mem_ids [of m]
  by (auto simp: mem_accounts_ok_def distinct_map inj_on_def comp_def)

text \<open>Two maps with the same keys in order hold their values in the same order.\<close>

lemma mem_view_entries: "mem_accounts_ok m \<Longrightarrow> (k, a) \<in> set m \<longleftrightarrow> mem_accounts_view m (Id k) = Some a"
  using std_map.entries_find [of m k a] by (simp add: mem_accounts_view_def mem_accounts_ok_def)

lemma posted_view_keys:
  assumes "mem_accounts_ok m" "mem_accounts_ok m'" "posted_view t (mem_accounts_view m) (mem_accounts_view m')"
  shows "map fst m' = map fst m"
proof -
  have "mem_accounts_view m i = None \<longleftrightarrow> mem_accounts_view m' i = None" for i
    using assms(3) [unfolded posted_view_def, THEN spec, of i] by (cases "mem_accounts_view m i") auto
  then have "omap_find k m = None \<longleftrightarrow> omap_find k m' = None" for k
    unfolding mem_accounts_view_def by (metis ident.sel)
  then have "set (map fst m') = set (map fst m)"
    by (simp add: omap_find_map_of map_of_eq_None_iff set_eq_iff)
  moreover have "sorted_wrt (<) (map fst m)" "sorted_wrt (<) (map fst m')"
    using assms(1,2) by (auto simp: mem_accounts_ok_def omap_ok_def)
  ultimately show ?thesis by (metis strict_sorted_equal)
qed

lemma posted_view_list:
  assumes "mem_accounts_ok m" "mem_accounts_ok m'" "posted_view t (mem_accounts_view m) (mem_accounts_view m')"
  shows "list_all2 (posted t) (map snd m) (map snd m')"
  unfolding list_all2_conv_all_nth
proof (intro conjI allI impI)
  have keys: "map fst m' = map fst m" by (rule posted_view_keys [OF assms])
  then show len: "length (map snd m) = length (map snd m')" by (metis length_map)
  fix n assume "n < length (map snd m)"
  then have n: "n < length m" "n < length m'" using len by auto
  obtain k a a' where at: "m ! n = (k, a)" "m' ! n = (k, a')"
    using arg_cong [OF keys, of "\<lambda>ks. ks ! n"] n by (cases "m ! n"; cases "m' ! n") auto
  have "mem_accounts_view m (Id k) = Some a" "mem_accounts_view m' (Id k) = Some a'"
    using mem_view_entries assms(1,2) at n by (metis nth_mem)+
  then have "posted t a a'" using assms(3) [unfolded posted_view_def, THEN spec, of "Id k"] by simp
  then show "posted t (map snd m ! n) (map snd m' ! n)" using at n by simp
qed

lemma verdict_involved:
  assumes "process_verdict t v = None"
  shows "\<forall>i \<in> set (involved_accounts t). v i \<noteq> None"
proof (cases "List.find (\<lambda>i. v i = None) (lock_plan t)")
  case None
  then show ?thesis by (auto simp: find_None_iff)
next
  case (Some j)
  then show ?thesis using assms by (simp add: process_verdict_def)
qed

text \<open>Accounts that were all posted: the sum moves by the net amount of the transaction.\<close>

lemma mem_posted_total:
  assumes ok: "mem_ok m" and aok: "mem_accounts_ok m'"
    and posted: "posted_view t (mem_accounts_view m) (mem_accounts_view m')"
    and verdict: "process_verdict t (mem_accounts_view m) = None"
  shows "list_all2 (posted t) (map snd m) (map snd m')" "mem_ok m'" "mem_total m' = mem_total m + net_flow t"
proof -
  have ok': "mem_accounts_ok m" using ok by (simp add: mem_ok_def)
  show list: "list_all2 (posted t) (map snd m) (map snd m')" by (rule posted_view_list [OF ok' aok posted])
  have "set (involved_accounts t) \<subseteq> set (map acc_id (map snd m))"
  proof
    fix j assume "j \<in> set (involved_accounts t)"
    then obtain a where a: "mem_accounts_view m j = Some a" using verdict_involved [OF verdict] by blast
    then have "(id_value j, a) \<in> set m" using mem_view_entries [OF ok'] by simp
    moreover have "acc_id a = j" using mem_view_ok [OF ok] a by (simp add: view_ok_def)
    ultimately show "j \<in> set (map acc_id (map snd m))" by force
  qed
  then have "(\<Sum>i\<leftarrow>map acc_id (map snd m). txn_delta t i) = net_flow t"
    by (rule delta_sum [OF mem_ids_distinct [OF ok']])
  then show "mem_total m' = mem_total m + net_flow t" using posted_total [OF list] by (simp add: mem_total_def)
  show "mem_ok m'" using aok list_posted_ok [OF list] ok by (simp add: mem_ok_def)
qed

text \<open>A run that succeeds moves the net amount of its transaction in or out; any other moves nothing.\<close>

lemma mem_success_total:
  assumes run: "process_impl mem_repositories env t i s = (Inr (result_success rec), s')"
    and ok: "mem_ok (pr_accounts s)" and m: "money_ok (amount_of t)"
  shows "mem_ok (pr_accounts s') \<and> mem_total (pr_accounts s') = mem_total (pr_accounts s) + net_flow t"
proof -
  have "mem_accounts_ok (pr_accounts s)" using ok by (simp add: mem_ok_def)
  then show ?thesis using mem.success_effects [OF run _ mem_view_ok [OF ok] m] mem_posted_total [OF ok] by blast
qed

lemma mem_failure_total:
  assumes "process_impl mem_repositories env t i s = (Inr res, s')" "\<not> result_ok res"
    "mem_ok (pr_accounts s)" "pe_marker env = None"
  shows "pr_accounts s' = pr_accounts s"
  using mem.failure_effects [OF assms(1,2) _ assms(4)] assms(3) by (simp add: mem_ok_def)

end
