(* ===== verification/Bank_Consumers.thy ===== *)
theory Bank_Consumers
  imports Bank_Processor_Memory
begin

text \<open>
  The ids the processor hands out, the draining of its queue, and the consumers that \<open>start()\<close> puts on
  the pool. A consumer pops a transaction, takes the next reserved id, and runs the transaction; the
  first two are separate critical sections, so with several consumers other steps come between them.
\<close>

section \<open>Ids are not reused\<close>

definition wal_ids :: "wal \<Rightarrow> transaction_id set" where
  "wal_ids w = we_id ` set (wal_entries w)"

text \<open>Every entry of the journal can be read back under its own id.\<close>

definition wal_sound :: "wal \<Rightarrow> bool" where
  "wal_sound w \<longleftrightarrow> (\<forall>e \<in> set (wal_entries w). \<exists>r. entry_record e = Some r \<and> rec_id r = we_id e)"

definition ids_ok :: "('a, 't, 'u) processor \<Rightarrow> bool" where
  "ids_ok s \<longleftrightarrow>
     (\<forall>i \<in> wal_ids (pr_wal s) \<union> set (pr_reserved s). id_value i < pr_next_id s) \<and>
     distinct (pr_reserved s) \<and> wal_ids (pr_wal s) \<inter> set (pr_reserved s) = {}"

lemma foldl_max:
  "(m :: u64) \<le> foldl (\<lambda>m r. max m (f r)) m rs \<and> (\<forall>r \<in> set rs. f r \<le> foldl (\<lambda>m r. max m (f r)) m rs)"
proof (induction rs arbitrary: m)
  case (Cons r rs)
  show ?case using Cons.IH [of "max m (f r)"] by auto
qed simp

lemma foldl_max_less:
  "m < k \<Longrightarrow> \<forall>r \<in> set rs. f r < k \<Longrightarrow> foldl (\<lambda>m r. max m (f r)) m rs < (k :: u64)"
  by (induction rs arbitrary: m) auto

lemma word_less_succ: "(w :: u64) < - 1 \<Longrightarrow> x \<le> w \<Longrightarrow> x < w + 1"
proof -
  assume less: "w < - 1" and le: "x \<le> w"
  have "unat (- 1 :: u64) = 2 ^ 64 - 1" by (simp add: unsigned_minus_1_eq_mask mask_eq_exp_minus_1)
  then have "unat w < 2 ^ 64 - 1" using less by (simp add: word_less_nat_alt)
  then have "unat (w + 1) = unat w + 1" by (simp add: unat_word_ariths)
  then show ?thesis using le by (simp add: word_less_nat_alt word_le_nat_alt)
qed

lemma load_all_sound: "wal_sound w \<Longrightarrow> we_id ` set (wal_entries w) = rec_id ` set (load_all w)"
  by (force simp: load_all_def List.map_filter_def wal_sound_def)

lemma processor_create_ids:
  assumes create: "processor_create n repos a t u w = Inr s" and sound: "wal_sound w"
    and small: "\<forall>i \<in> wal_ids w. id_value i < - 1"
    and records: "tr_all (rp_transactions repos) t = Inr rs" "\<forall>r \<in> set rs. id_value (rec_id r) < - 1"
  shows "ids_ok s" "\<forall>r \<in> set rs. id_value (rec_id r) < pr_next_id s"
proof -
  define m1 where "m1 = foldl (\<lambda>m r. max m (id_value (rec_id r))) 0 rs"
  define m2 where "m2 = foldl (\<lambda>m r. max m (id_value (rec_id r))) m1 (load_all w)"
  have s: "pr_next_id s = m2 + 1" "pr_wal s = w" "pr_reserved s = []"
    using create records(1) by (auto simp: processor_create_def m1_def m2_def Let_def)
  have "m1 < - 1" unfolding m1_def using records(2) by (intro foldl_max_less) (auto simp: word_gt_0)
  then have "m2 < - 1" unfolding m2_def using small load_all_sound [OF sound]
    by (intro foldl_max_less) (auto simp: wal_ids_def)
  then have above: "x < pr_next_id s" if "x \<le> m2" for x using s that word_less_succ by simp
  have "\<forall>i \<in> wal_ids w. id_value i \<le> m2"
    using foldl_max [of m1 "\<lambda>r. id_value (rec_id r)" "load_all w"] load_all_sound [OF sound]
    by (auto simp: wal_ids_def m2_def)
  then show "ids_ok s" using above s by (auto simp: ids_ok_def)
  have "m1 \<le> m2" "\<forall>r \<in> set rs. id_value (rec_id r) \<le> m1"
    using foldl_max [of m1 "\<lambda>r. id_value (rec_id r)" "load_all w"]
      foldl_max [of 0 "\<lambda>r. id_value (rec_id r)" rs] by (auto simp: m1_def m2_def)
  then show "\<forall>r \<in> set rs. id_value (rec_id r) < pr_next_id s" using above by force
qed

text \<open>A run adds at most its own id to the journal.\<close>

definition wal_ids_within :: "transaction_id \<Rightarrow> ('a, 't, 'u) processor \<Rightarrow> ('a, 't, 'u) processor \<Rightarrow> bool" where
  "wal_ids_within i s s' \<longleftrightarrow> wal_ids (pr_wal s') \<subseteq> insert i (wal_ids (pr_wal s))"

lemma wal_ids_order: "reflp (wal_ids_within i)" "transp (wal_ids_within i)"
  by (auto simp: wal_ids_within_def reflp_def transp_def)

lemma wal_ids_append: "wal_ids (snd (wal_append io w r)) \<subseteq> insert (rec_id r) (wal_ids w)"
  by (auto simp: wal_append_def truncate_interrupted_tail_def wal_ids_def Let_def
      split: prod.splits sum.splits option.splits write_outcome.splits if_splits)

lemma wal_ids_commit: "wal_ids (snd (mark_committed m w i)) = wal_ids w"
proof (cases "find_entry (wal_entries w) i")
  case (Some n)
  have "map we_id ((wal_entries w)[n := (wal_entries w ! n)\<lparr>we_state := Committed\<rparr>]) = map we_id (wal_entries w)"
    by (simp add: map_update list_update_same_conv find_entry_Some [OF Some])
  then have "we_id ` set ((wal_entries w)[n := (wal_entries w ! n)\<lparr>we_state := Committed\<rparr>]) = we_id ` set (wal_entries w)"
    by (metis set_map)
  then show ?thesis using Some by (simp add: mark_committed_def wal_ids_def Let_def split: option.splits)
qed (simp add: mark_committed_def)

lemma wal_ids_parts:
  "io_keeps (wal_ids_within i) (append_audit repos now actor action details)"
  "io_keeps (wal_ids_within i) (load_accounts_io repos ids)"
  "io_keeps (wal_ids_within i) (save_accounts_io repos as)"
  "io_keeps (wal_ids_within i) (append_record_io repos r)"
  "io_keeps (wal_ids_within i) (create_mutexes ids)"
  "io_keeps (wal_ids_within i) (\<lambda>s. (x, s))"
  by (simp_all add: io_keeps_def wal_ids_within_def append_audit_def load_accounts_io_def save_accounts_io_def
      append_record_io_def create_mutexes_def Let_def subset_insertI split: prod.splits)

lemma wal_ids_writes:
  "io_keeps (wal_ids_within i) (wal_commit_io m j)"
  "rec_id r = i \<Longrightarrow> io_keeps (wal_ids_within i) (wal_append_io io r)"
  using wal_ids_commit [of m _ j] wal_ids_append [of io _ r]
  by (auto simp: io_keeps_def wal_ids_within_def wal_append_io_def wal_commit_io_def split: prod.splits)
    (metis snd_conv, metis in_mono insertE snd_conv)

lemmas wal_ids_rules = io_keeps_bind [OF wal_ids_order(2)] io_keeps_catch [OF wal_ids_order(2)]
  io_keeps_return [OF wal_ids_order(1)] wal_ids_parts wal_ids_writes

lemma wal_ids_refuse: "io_keeps (wal_ids_within i) (refuse_txn repos now msg)"
  unfolding refuse_txn_def by (intro wal_ids_rules)

lemma wal_ids_execute: "io_keeps (wal_ids_within i) (execute_txn repos env t i loaded)"
  unfolding execute_txn_def Let_def by (intro wal_ids_rules) (simp add: project_transaction_def)

lemma wal_ids_locked: "io_keeps (wal_ids_within i) (locked_txn repos env t i)"
  unfolding locked_txn_def
  by (intro wal_ids_rules) (auto split: sum.splits intro: wal_ids_refuse wal_ids_execute)

lemma process_impl_wal_ids:
  "process_impl repos env t i s = (r, s') \<Longrightarrow> wal_ids (pr_wal s') \<subseteq> insert i (wal_ids (pr_wal s))"
  using io_keepsD [of "wal_ids_within i" "process_impl repos env t i" s r s']
  by (simp add: process_impl_def wal_ids_rules wal_ids_locked wal_ids_refuse wal_ids_within_def)

lemma fresh_id_ok:
  assumes "ids_ok s" "pr_next_id s < - 1" "fresh_id s = (i, s')"
  shows "ids_ok s'" "i \<notin> wal_ids (pr_wal s)" "i \<notin> set (pr_reserved s)" "id_value i < pr_next_id s'"
    "pr_wal s' = pr_wal s" "pr_reserved s' = pr_reserved s"
proof -
  have i: "id_value i = pr_next_id s" "i = Id (pr_next_id s)" "s' = s\<lparr>pr_next_id := pr_next_id s + 1\<rparr>"
    using assms(3) by (auto simp: fresh_id_def)
  have up: "x < pr_next_id s + 1" if "x \<le> pr_next_id s" for x using word_less_succ [OF assms(2) that] .
  show "ids_ok s'" using assms(1) up i by (auto simp: ids_ok_def intro: order_less_imp_le)
  show "i \<notin> wal_ids (pr_wal s)" "i \<notin> set (pr_reserved s)" using assms(1) i(1) by (force simp: ids_ok_def)+
  show "id_value i < pr_next_id s'" using up i by simp
  show "pr_wal s' = pr_wal s" "pr_reserved s' = pr_reserved s" using i by simp_all
qed

lemma process_impl_ids:
  assumes run: "process_impl repos env t i s = (r, s')" and ok: "ids_ok s"
    and i: "id_value i < pr_next_id s" "i \<notin> set (pr_reserved s)"
  shows "ids_ok s'"
  using ok i process_impl_wal_ids [OF run] process_impl_intake [OF run]
  by (fastforce simp: ids_ok_def same_intake_def)

lemma process_one_ids:
  assumes "process_one repos env t s = (r, s')" "ids_ok s" "pr_next_id s < - 1"
  shows "ids_ok s'"
proof -
  obtain i s1 where f: "fresh_id s = (i, s1)" by fastforce
  note fresh = fresh_id_ok [OF assms(2,3) f]
  have "process_impl repos env t i s1 = (r, s')" using assms(1) f by (simp add: process_one_def)
  then show ?thesis using process_impl_ids fresh by metis
qed

lemma submit_ids:
  assumes "submit s t = (r, s')" "ids_ok s" "pr_next_id s < - 1" "\<not> tq_closed (pr_queue s)"
  shows "ids_ok s'"
proof (cases "pr_accepting s")
  case False
  then show ?thesis using assms by (simp add: submit_def)
next
  case True
  obtain i s1 where f: "fresh_id s = (i, s1)" by fastforce
  note fresh = fresh_id_ok [OF assms(2,3) f]
  have "pr_queue s1 = pr_queue s" using f by (auto simp: fresh_id_def)
  then have "s' = s1\<lparr>pr_reserved := pr_reserved s1 @ [i], pr_queue := (pr_queue s)\<lparr>tq_queue := tq_queue (pr_queue s) @ [t]\<rparr>\<rparr>"
    using assms(1,4) True f by (simp add: submit_def enqueue_def Let_def)
  then show ?thesis using fresh by (auto simp: ids_ok_def)
qed

lemma take_reserved_ids:
  assumes "take_reserved_id s = (i, s')" "ids_ok s" "pr_next_id s < - 1"
  shows "ids_ok s' \<and> id_value i < pr_next_id s' \<and> i \<notin> set (pr_reserved s') \<and> i \<notin> wal_ids (pr_wal s')"
proof (cases "pr_reserved s")
  case Nil
  then have "fresh_id s = (i, s')" using assms(1) by (simp add: take_reserved_id_def)
  then show ?thesis using fresh_id_ok [OF assms(2,3)] by simp
next
  case (Cons j ids)
  then show ?thesis using assms(1,2) by (auto simp: take_reserved_id_def ids_ok_def)
qed

section \<open>Draining the queue\<close>

lemma process_next_ids:
  assumes "process_next repos env s = (r, s')" "ids_ok s" "pr_next_id s < - 1"
  shows "ids_ok s'"
  using assms(1)
proof (cases rule: process_next_cases)
  case idle then show ?thesis using assms(2) by simp
next
  case (run t ts i s1 x)
  have "ids_ok (s\<lparr>pr_queue := (pr_queue s)\<lparr>tq_queue := ts\<rparr>\<rparr>)" using assms(2) by (simp add: ids_ok_def)
  then have "ids_ok s1" "id_value i < pr_next_id s1" "i \<notin> set (pr_reserved s1)"
    using take_reserved_ids [OF run(2)] assms(3) by simp_all
  then show ?thesis by (rule process_impl_ids [OF run(3)])
qed

text \<open>What a result says about the transaction and the id it was run under.\<close>

definition result_for :: "transaction \<times> transaction_id \<Rightarrow> transaction_record result \<Rightarrow> bool" where
  "result_for = (\<lambda>(t, i) r.
     (\<exists>now. r = result_success ((project_transaction now i t)\<lparr>rec_state := Committed\<rparr>)) \<or> (\<exists>msg. r = result_failure msg))"

lemma process_impl_result:
  assumes "process_impl repos env t i s = (Inr r, s')"
  shows "result_for (t, i) r"
proof -
  have refuse: "result_for (t, i) x" if "refuse_txn repos now msg s0 = (Inr x, s1)" for now msg s0 s1 x
    using refuse_txn_Inr [OF that] by (simp add: result_for_def)
  have locked: "result_for (t, i) x" if "locked_txn repos env t i s0 = (Inr x, s1)" for s0 s1 x
    using that
  proof (cases rule: locked_txn_cases)
    case (executes as)
    then show ?thesis by - (rule execute_txn_Inr, assumption, auto simp: result_for_def committed_record_def)
  qed (auto intro: refuse)
  show ?thesis using assms
    by (auto simp: process_impl_def intro: refuse locked elim!: io_catch_cases)
qed

context reliable_stores begin

text \<open>Every transaction of the queue gets one result, in order, under the id reserved for it.\<close>

lemma process_until_empty_total:
  "length (pr_reserved s) = length (tq_queue (pr_queue s)) \<Longrightarrow>
   \<exists>rs s'. process_until_empty repos env s = (Inr rs, s') \<and> tq_queue (pr_queue s') = [] \<and> pr_reserved s' = [] \<and>
     list_all2 result_for (zip (tq_queue (pr_queue s)) (pr_reserved s)) rs"
proof (induction "length (tq_queue (pr_queue s))" arbitrary: s env)
  case 0
  then show ?case
    by (subst process_until_empty.simps) (simp add: process_next_def try_pop_def)
next
  case (Suc n)
  then obtain t ts where q: "tq_queue (pr_queue s) = t # ts" by (metis length_Suc_conv)
  then obtain i ids where ids: "pr_reserved s = i # ids" using Suc.prems by (metis length_Suc_conv)
  define s1 where "s1 = s\<lparr>pr_queue := (pr_queue s)\<lparr>tq_queue := ts\<rparr>, pr_reserved := ids\<rparr>"
  obtain r s2 where run: "process_impl repos (env 0) t i s1 = (Inr r, s2)" using process_impl_total by blast
  have next_eq: "process_next repos (env 0) s = (Inr (Some r), s2)"
    using q ids run by (simp add: process_next_def try_pop_def take_reserved_id_def io_bind_def s1_def)
  have in2: "tq_queue (pr_queue s2) = ts" "pr_reserved s2 = ids"
    using process_impl_intake [OF run] by (simp_all add: same_intake_def s1_def)
  have "n = length (tq_queue (pr_queue s2))" "length (pr_reserved s2) = length (tq_queue (pr_queue s2))"
    using Suc q ids in2 by simp_all
  from Suc.hyps(1) [OF this, of "\<lambda>k. env (Suc k)"] obtain rs s' where
    rest: "process_until_empty repos (\<lambda>k. env (Suc k)) s2 = (Inr rs, s')"
      "tq_queue (pr_queue s') = []" "pr_reserved s' = []" "list_all2 result_for (zip ts ids) rs"
    using in2 by auto
  have "process_until_empty repos env s = (Inr (r # rs), s')"
    by (subst process_until_empty.simps) (simp add: next_eq rest(1))
  then show ?case using rest process_impl_result [OF run] q ids by simp
qed

end

section \<open>Consumers\<close>

datatype consumer =
    At_pop
  | Has_txn transaction
  | Has_both transaction transaction_id
  | Gone

text \<open>\<open>cs_submitted\<close> and \<open>cs_processed\<close> are a log, which no step reads.\<close>

record ('a, 't, 'u) consumer_system =
  cs_proc :: "('a, 't, 'u) processor"
  cs_stop :: bool
  cs_consumers :: "consumer list"
  cs_submitted :: "(transaction \<times> transaction_id) list"
  cs_processed :: "(transaction \<times> transaction_id) list"

definition start_consumers :: "('a, 't, 'u) processor \<Rightarrow> ('a, 't, 'u) consumer_system" where
  "start_consumers p =
     (let p = start_processor p
      in \<lparr>cs_proc = p, cs_stop = False, cs_consumers = replicate (pr_worker_count p) At_pop,
          cs_submitted = zip (tq_queue (pr_queue p)) (pr_reserved p), cs_processed = []\<rparr>)"

text \<open>
  A step of a consumer, of a client that submits, or of \<open>stop()\<close>. A consumer whose \<open>process_impl\<close>
  throws has no step: the exception ends the program.
\<close>

inductive consumer_step ::
  "('a, 't, 'u) repositories \<Rightarrow> ('a, 't, 'u) consumer_system \<Rightarrow> ('a, 't, 'u) consumer_system \<Rightarrow> bool" for repos where
  client_submits: "submit (cs_proc s) t = (result_success i, p) \<Longrightarrow>
    consumer_step repos s (s\<lparr>cs_proc := p, cs_submitted := cs_submitted s @ [(t, i)]\<rparr>)"
| consumer_pops: "c < length (cs_consumers s) \<Longrightarrow> cs_consumers s ! c = At_pop \<Longrightarrow>
    wait_pop (cs_stop s) (pr_queue (cs_proc s)) = (Returns (Some t), q) \<Longrightarrow>
    consumer_step repos s (s\<lparr>cs_proc := (cs_proc s)\<lparr>pr_queue := q\<rparr>, cs_consumers := (cs_consumers s)[c := Has_txn t]\<rparr>)"
| consumer_exits: "c < length (cs_consumers s) \<Longrightarrow> cs_consumers s ! c = At_pop \<Longrightarrow>
    wait_pop (cs_stop s) (pr_queue (cs_proc s)) = (Returns None, q) \<Longrightarrow>
    consumer_step repos s (s\<lparr>cs_proc := (cs_proc s)\<lparr>pr_queue := q\<rparr>, cs_consumers := (cs_consumers s)[c := Gone]\<rparr>)"
| consumer_takes_id: "c < length (cs_consumers s) \<Longrightarrow> cs_consumers s ! c = Has_txn t \<Longrightarrow>
    take_reserved_id (cs_proc s) = (i, p) \<Longrightarrow>
    consumer_step repos s (s\<lparr>cs_proc := p, cs_consumers := (cs_consumers s)[c := Has_both t i]\<rparr>)"
| consumer_runs: "c < length (cs_consumers s) \<Longrightarrow> cs_consumers s ! c = Has_both t i \<Longrightarrow>
    process_impl repos env t i (cs_proc s) = (Inr r, p) \<Longrightarrow>
    consumer_step repos s (s\<lparr>cs_proc := p, cs_consumers := (cs_consumers s)[c := At_pop],
                            cs_processed := cs_processed s @ [(t, i)]\<rparr>)"
| stop_requested: "consumer_step repos s (s\<lparr>cs_proc := stop_accepting (cs_proc s), cs_stop := True\<rparr>)"

text \<open>With one consumer: what was submitted is what was processed, what it holds, and what waits.\<close>

fun in_hand :: "consumer \<Rightarrow> transaction_id list \<Rightarrow> (transaction \<times> transaction_id) list \<times> transaction_id list" where
  "in_hand (Has_txn t) ids = (case ids of [] \<Rightarrow> ([], []) | i # ids \<Rightarrow> ([(t, i)], ids))"
| "in_hand (Has_both t i) ids = ([(t, i)], ids)"
| "in_hand At_pop ids = ([], ids)"
| "in_hand Gone ids = ([], ids)"

definition single_inv :: "('a, 't, 'u) consumer_system \<Rightarrow> bool" where
  "single_inv s \<longleftrightarrow>
     (\<exists>c. cs_consumers s = [c] \<and> \<not> tq_closed (pr_queue (cs_proc s)) \<and>
       (\<forall>t. c = Has_txn t \<longrightarrow> pr_reserved (cs_proc s) \<noteq> []) \<and>
       (case in_hand c (pr_reserved (cs_proc s)) of (hand, ids) \<Rightarrow>
          length ids = length (tq_queue (pr_queue (cs_proc s))) \<and>
          cs_submitted s = cs_processed s @ hand @ zip (tq_queue (pr_queue (cs_proc s))) ids))"

lemma submit_success:
  assumes "submit s t = (result_success i, s')"
  shows "pr_reserved s' = pr_reserved s @ [i]" "tq_queue (pr_queue s') = tq_queue (pr_queue s) @ [t]"
    "tq_closed (pr_queue s') = tq_closed (pr_queue s)" "pr_accepting s"
  using assms by (auto simp: submit_def fresh_id_def enqueue_def Let_def split: if_splits)

lemma in_hand_append:
  "in_hand c ids = (hand, rest) \<Longrightarrow> (\<forall>t. c = Has_txn t \<longrightarrow> ids \<noteq> []) \<Longrightarrow> in_hand c (ids @ [i]) = (hand, rest @ [i])"
  by (cases c) (auto split: list.splits)

lemma single_inv_step:
  assumes "consumer_step repos s s'" "single_inv s"
  shows "single_inv s'"
proof -
  obtain d where cons: "cs_consumers s = [d]" and op: "\<not> tq_closed (pr_queue (cs_proc s))"
    and res: "\<And>t. d = Has_txn t \<Longrightarrow> pr_reserved (cs_proc s) \<noteq> []"
    using assms(2) by (auto simp: single_inv_def)
  obtain hand ids where hand: "in_hand d (pr_reserved (cs_proc s)) = (hand, ids)" by fastforce
  have len: "length ids = length (tq_queue (pr_queue (cs_proc s)))"
    and sub: "cs_submitted s = cs_processed s @ hand @ zip (tq_queue (pr_queue (cs_proc s))) ids"
    using assms(2) cons hand by (auto simp: single_inv_def)
  from assms(1) show ?thesis
  proof (cases rule: consumer_step.cases)
    case (client_submits t i p)
    have "in_hand d (pr_reserved p) = (hand, ids @ [i])"
      using in_hand_append [OF hand] res submit_success(1) [OF client_submits(2)] by simp
    then show ?thesis
      using cons op submit_success [OF client_submits(2)] len sub client_submits(1)
      by (auto simp: single_inv_def)
  next
    case (consumer_pops c t q)
    then have c: "c = 0" and d: "d = At_pop" using cons by auto
    have q: "tq_queue (pr_queue (cs_proc s)) = t # tq_queue q" "tq_closed q = tq_closed (pr_queue (cs_proc s))"
      using consumer_pops(4) by (simp_all add: wait_pop_Some)
    obtain i rest where r: "pr_reserved (cs_proc s) = i # rest"
      using hand d len q by (cases "pr_reserved (cs_proc s)") auto
    have "hand = []" "ids = i # rest" using hand d r by simp_all
    then show ?thesis
      using cons op len sub q r by (simp add: single_inv_def consumer_pops(1) c)
  next
    case (consumer_exits c q)
    then have c: "c = 0" and d: "d = At_pop" using cons by auto
    have "q = pr_queue (cs_proc s)" using consumer_exits(4) by (simp add: wait_pop_None)
    then show ?thesis using cons op hand d len sub by (simp add: single_inv_def consumer_exits(1) c)
  next
    case (consumer_takes_id c t i p)
    then have c: "c = 0" and d: "d = Has_txn t" using cons by auto
    obtain j rest where r: "pr_reserved (cs_proc s) = j # rest"
      using res [OF d] by (cases "pr_reserved (cs_proc s)") auto
    then have p: "i = j" "p = (cs_proc s)\<lparr>pr_reserved := rest\<rparr>"
      using consumer_takes_id(4) by (simp_all add: take_reserved_id_def)
    show ?thesis
      using cons op hand d len sub r by (simp add: single_inv_def consumer_takes_id(1) c p)
  next
    case (consumer_runs c t i env r p)
    then have c: "c = 0" and d: "d = Has_both t i" using cons by auto
    have "pr_queue p = pr_queue (cs_proc s)" "pr_reserved p = pr_reserved (cs_proc s)"
      using process_impl_intake [OF consumer_runs(4)] by (simp_all add: same_intake_def)
    then show ?thesis
      using cons op hand d len sub by (simp add: single_inv_def consumer_runs(1) c)
  next
    case stop_requested
    then show ?thesis using cons op hand res len sub by (auto simp: single_inv_def stop_accepting_def)
  qed
qed

lemma single_inv_start:
  assumes "pr_worker_count p = 1" "\<not> tq_closed (pr_queue p)"
    "length (pr_reserved p) = length (tq_queue (pr_queue p))"
  shows "single_inv (start_consumers p)"
  using assms by (simp add: single_inv_def start_consumers_def start_processor_def Let_def)

lemma single_inv_run: "(consumer_step repos)\<^sup>*\<^sup>* s s' \<Longrightarrow> single_inv s \<Longrightarrow> single_inv s'"
  by (induction rule: rtranclp_induct) (auto intro: single_inv_step)

text \<open>When the consumer has gone, everything submitted was processed under its own id.\<close>

lemma single_inv_processed:
  "single_inv s \<Longrightarrow> \<exists>rest. cs_submitted s = cs_processed s @ rest"
proof -
  assume "single_inv s"
  then obtain c where "cs_submitted s = cs_processed s @
      fst (in_hand c (pr_reserved (cs_proc s))) @
      zip (tq_queue (pr_queue (cs_proc s))) (snd (in_hand c (pr_reserved (cs_proc s))))"
    unfolding single_inv_def case_prod_beta by blast
  then show ?thesis by blast
qed

text \<open>
  Two consumers: the second may take the id of the transaction that the first popped. No account is
  needed for it, so the in-memory repositories may be in any state.
\<close>

lemma two_consumers_swap:
  fixes env :: process_env
  assumes i: "pr_reserved p = [i, j]" and q: "tq_queue (pr_queue p) = [t, u]" and n: "pr_worker_count p = 2"
  obtains s where "(consumer_step mem_repositories)\<^sup>*\<^sup>* (start_consumers p) s"
    "cs_submitted s = [(t, i), (u, j)]" "cs_processed s = [(u, i)]"
proof -
  define p0 where "p0 = start_processor p"
  have p0: "pr_reserved p0 = [i, j]" "tq_queue (pr_queue p0) = [t, u]"
    using i q by (simp_all add: p0_def start_processor_def)
  define p1 where "p1 = p0\<lparr>pr_queue := (pr_queue p0)\<lparr>tq_queue := [u]\<rparr>\<rparr>"
  define p2 where "p2 = p1\<lparr>pr_queue := (pr_queue p0)\<lparr>tq_queue := []\<rparr>\<rparr>"
  define p3 where "p3 = p2\<lparr>pr_reserved := [j]\<rparr>"
  obtain r p4 where run: "process_impl mem_repositories env u i p3 = (Inr r, p4)"
    using mem.process_impl_total by blast
  define s0 where "s0 = start_consumers p"
  define s1 where "s1 = s0\<lparr>cs_proc := p1, cs_consumers := [Has_txn t, At_pop]\<rparr>"
  define s2 where "s2 = s1\<lparr>cs_proc := p2, cs_consumers := [Has_txn t, Has_txn u]\<rparr>"
  define s3 where "s3 = s2\<lparr>cs_proc := p3, cs_consumers := [Has_txn t, Has_both u i]\<rparr>"
  define s4 where "s4 = s3\<lparr>cs_proc := p4, cs_consumers := [Has_txn t, At_pop], cs_processed := [(u, i)]\<rparr>"
  have s0: "cs_proc s0 = p0" "cs_stop s0 = False" "cs_consumers s0 = [At_pop, At_pop]"
    "cs_submitted s0 = [(t, i), (u, j)]" "cs_processed s0 = []"
    using n p0 by (simp_all add: s0_def start_consumers_def p0_def Let_def start_processor_def numeral_2_eq_2)
  have 1: "consumer_step mem_repositories s0 s1"
    using consumer_pops [of 0 s0 t "(pr_queue p0)\<lparr>tq_queue := [u]\<rparr>" mem_repositories] s0 p0
    by (simp add: wait_pop_Some s1_def p1_def)
  have 2: "consumer_step mem_repositories s1 s2"
    using consumer_pops [of 1 s1 u "(pr_queue p0)\<lparr>tq_queue := []\<rparr>" mem_repositories] s0 p0
    by (simp add: wait_pop_Some s1_def s2_def p1_def p2_def)
  have 3: "consumer_step mem_repositories s2 s3"
    using consumer_takes_id [of 1 s2 u i p3 mem_repositories] s0 p0
    by (simp add: s1_def s2_def s3_def p1_def p2_def p3_def take_reserved_id_def)
  have 4: "consumer_step mem_repositories s3 s4"
    using consumer_runs [of 1 s3 u i mem_repositories env r p4] s0 run
    by (simp add: s1_def s2_def s3_def s4_def)
  have "(consumer_step mem_repositories)\<^sup>*\<^sup>* s0 s4"
    using 1 2 3 4 by (meson converse_rtranclp_into_rtranclp rtranclp.rtrancl_refl)
  then show ?thesis
    by (rule that [unfolded s0_def [symmetric]]) (simp_all add: s4_def s3_def s2_def s1_def s0)
qed

end
