(* ===== verification/Bank_Password.thy ===== *)
theory Bank_Password
  imports Bank_Repositories
begin

unbundle bit_operations_syntax

text \<open>
  src/domain/PasswordHasher.h/.cpp. OpenSSL's \<open>PKCS5_PBKDF2_HMAC\<close> is the parameter
  \<open>kdf pin salt iterations length\<close>: the derived bytes, or \<open>None\<close> when it does not return 1.
  \<open>RAND_bytes\<close> is an argument of \<open>password_create\<close>, \<open>None\<close> when it fails.
\<close>

type_synonym kdf = "string \<Rightarrow> byte list \<Rightarrow> nat \<Rightarrow> nat \<Rightarrow> byte list option"

definition algorithm_name :: string where "algorithm_name = ''pbkdf2-sha256''"
definition iterations :: nat where "iterations = 120000"
definition salt_len_bytes :: nat where "salt_len_bytes = 16"
definition digest_len_bytes :: nat where "digest_len_bytes = 32"

section \<open>Hexadecimal text of bytes\<close>

fun bytes_to_hex :: "byte list \<Rightarrow> string" where
  "bytes_to_hex [] = []"
| "bytes_to_hex (b # bs) = hex_digit (unat (drop_bit 4 b)) # hex_digit (unat (b AND 0x0F)) # bytes_to_hex bs"

definition salt_nibble :: "char \<Rightarrow> exn + nat" where
  "salt_nibble c =
     (case hex_nibble c of
        Some n \<Rightarrow> Inr n
      | None \<Rightarrow> Inl (Invalid_argument ''PasswordHash: salt contains a non-hex digit''))"

fun hex_pairs :: "string \<Rightarrow> exn + byte list" where
  "hex_pairs (c # d # s) =
     bind_exn (salt_nibble c) (\<lambda>hi. bind_exn (salt_nibble d) (\<lambda>lo.
       bind_exn (hex_pairs s) (\<lambda>bs. Inr ((push_bit 4 (of_nat hi) OR of_nat lo) # bs))))"
| "hex_pairs _ = Inr []"

definition hex_to_bytes :: "string \<Rightarrow> exn + byte list" where
  "hex_to_bytes hex =
     (if length hex mod 2 \<noteq> 0 then Inl (Invalid_argument ''PasswordHash: salt is not valid hex'')
      else hex_pairs hex)"

section \<open>Hashing and verifying\<close>

definition derive :: "kdf \<Rightarrow> string \<Rightarrow> byte list \<Rightarrow> exn + password_hash" where
  "derive kdf pin salt =
     (case kdf pin salt iterations digest_len_bytes of
        None \<Rightarrow> Inl (Runtime_error ''PasswordHasher: PBKDF2 derivation failed'')
      | Some digest \<Rightarrow>
          Inr \<lparr>ph_algorithm = algorithm_name, ph_salt = bytes_to_hex salt, ph_digest = bytes_to_hex digest\<rparr>)"

definition password_create :: "kdf \<Rightarrow> byte list option \<Rightarrow> string \<Rightarrow> exn + password_hash" where
  "password_create kdf random pin =
     (case random of
        None \<Rightarrow> Inl (Runtime_error ''PasswordHasher: CSPRNG failure'')
      | Some salt \<Rightarrow> derive kdf pin salt)"

definition create_with_salt :: "kdf \<Rightarrow> string \<Rightarrow> string \<Rightarrow> exn + password_hash" where
  "create_with_salt kdf pin salt_hex = bind_exn (hex_to_bytes salt_hex) (derive kdf pin)"

definition password_verify :: "kdf \<Rightarrow> string \<Rightarrow> password_hash \<Rightarrow> bool" where
  "password_verify kdf pin stored =
     (if ph_algorithm stored \<noteq> algorithm_name \<or> ph_digest stored = [] then False
      else case bind_exn (hex_to_bytes (ph_salt stored)) (derive kdf pin) of
             Inl e \<Rightarrow> False
           | Inr h \<Rightarrow> ph_digest h = ph_digest stored)"

text \<open>\<open>Customer::verify_pin\<close> of src/domain/Customer.h.\<close>

definition verify_pin :: "kdf \<Rightarrow> customer \<Rightarrow> string \<Rightarrow> bool" where
  "verify_pin kdf c pin = password_verify kdf pin (cust_pin_hash c)"

section \<open>Lemmas\<close>

lemma low_nibble: "b AND 0x0F = take_bit 4 (b :: byte)"
  by (simp add: take_bit_eq_mask mask_numeral)

lemma nibbles_byte: "push_bit 4 (drop_bit 4 b) OR (b AND 0x0F) = (b :: byte)"
  unfolding low_nibble by (rule bit_eqI) (auto simp: bit_simps)

lemma nibble_bounds: "unat (drop_bit 4 (b :: byte)) < 16" "unat (b AND 0x0F :: byte) < 16"
proof -
  have "unat b < 256" using unsigned_less [of b] by simp
  moreover have "unat (drop_bit 4 b) = unat b div 16"
    by (simp only: unat_drop_bit_eq) (simp add: drop_bit_eq_div)
  ultimately show "unat (drop_bit 4 b) < 16" by simp
  have "unat (take_bit 4 b) = unat b mod 16"
    by (simp only: unsigned_take_bit_eq) (simp add: take_bit_eq_mod)
  then show "unat (b AND 0x0F) < 16" unfolding low_nibble by simp
qed

lemma length_bytes_to_hex [simp]: "length (bytes_to_hex bs) = 2 * length bs"
  by (induction bs rule: bytes_to_hex.induct) simp_all

lemma bytes_to_hex_Nil [simp]: "bytes_to_hex bs = [] \<longleftrightarrow> bs = []"
  by (cases bs) simp_all

lemma hex_pairs_bytes: "hex_pairs (bytes_to_hex bs) = Inr bs"
  by (induction bs rule: bytes_to_hex.induct) (simp_all add: salt_nibble_def nibble_bounds nibbles_byte)

lemma hex_to_bytes_bytes: "hex_to_bytes (bytes_to_hex bs) = Inr bs"
  by (simp add: hex_to_bytes_def hex_pairs_bytes)

lemma bytes_to_hex_inj: "bytes_to_hex bs = bytes_to_hex cs \<longleftrightarrow> bs = cs"
  by (metis hex_to_bytes_bytes sum.inject(2))

lemma hex_pairs_length: "hex_pairs s = Inr bs \<Longrightarrow> length bs = length s div 2"
  by (induction s arbitrary: bs rule: hex_pairs.induct) (auto simp: bind_exn_Inr_iff)

lemma hex_pairs_digits:
  "even (length s) \<Longrightarrow> (\<exists>bs. hex_pairs s = Inr bs) \<longleftrightarrow> (\<forall>c \<in> set s. hex_nibble c \<noteq> None)"
  by (induction s rule: hex_pairs.induct) (auto simp: bind_exn_Inr_iff salt_nibble_def split: option.splits)

lemma derive_Inr:
  "derive kdf pin salt = Inr h \<longleftrightarrow>
     (\<exists>d. kdf pin salt iterations digest_len_bytes = Some d \<and>
        h = \<lparr>ph_algorithm = algorithm_name, ph_salt = bytes_to_hex salt, ph_digest = bytes_to_hex d\<rparr>)"
  by (auto simp: derive_def split: option.splits)

text \<open>A stored hash accepts exactly the pins from which the same key is derived.\<close>

lemma verify_derived:
  assumes "derive kdf pin salt = Inr h" "kdf pin salt iterations digest_len_bytes \<noteq> Some []"
  shows "password_verify kdf pin' h \<longleftrightarrow>
    kdf pin' salt iterations digest_len_bytes = kdf pin salt iterations digest_len_bytes"
  using assms
  by (auto simp: password_verify_def derive_Inr hex_to_bytes_bytes derive_def bytes_to_hex_inj split: option.splits)

lemma verify_malformed:
  "(\<forall>bs. hex_to_bytes (ph_salt h) \<noteq> Inr bs) \<Longrightarrow> \<not> password_verify kdf pin h"
  by (cases "hex_to_bytes (ph_salt h)") (simp_all add: password_verify_def)

section \<open>Property\<close>

text \<open>
  A stored hash accepts exactly the pins from which the same key is derived. For a hash that \<open>create\<close> made
  from a pin with a random salt, a later \<open>verify\<close> of any pin succeeds if and only if the key derivation
  gives the same key for it under that salt; in particular the pin itself is always accepted. The key
  derivation is OpenSSL's, of which only that it returns the 32 bytes it is asked for is used.
\<close>

theorem verify_accepts_same_key:
  assumes "password_create kdf (Some salt) pin = Inr h"
    "\<And>pin salt n k d. kdf pin salt n k = Some d \<Longrightarrow> length d = k"
  shows "(password_verify kdf pin' h \<longleftrightarrow>
      kdf pin' salt iterations digest_len_bytes = kdf pin salt iterations digest_len_bytes) \<and>
    password_verify kdf pin h \<and> length (ph_digest h) = 64"
proof -
  have d: "derive kdf pin salt = Inr h" using assms(1) by (simp add: password_create_def)
  then obtain k where k: "kdf pin salt iterations digest_len_bytes = Some k" "ph_digest h = bytes_to_hex k"
    by (auto simp: derive_Inr)
  have "length k = 32" using assms(2) [OF k(1)] by (simp add: digest_len_bytes_def)
  then have "kdf pin salt iterations digest_len_bytes \<noteq> Some []" using k(1) by auto
  note accepts = verify_derived [OF d this]
  show ?thesis using accepts [of pin] accepts [of pin'] k \<open>length k = 32\<close> by simp
qed

theorem verify_accepts_same_key_witness:
  "\<exists>h. password_create (\<lambda>pin salt n k. Some (replicate k (of_nat (length pin)))) (Some [1, 2]) ''1234'' = Inr h \<and>
     password_verify (\<lambda>pin salt n k. Some (replicate k (of_nat (length pin)))) ''1234'' h \<and>
     \<not> password_verify (\<lambda>pin salt n k. Some (replicate k (of_nat (length pin)))) ''12345'' h"
proof -
  define kdf :: kdf where "kdf = (\<lambda>pin salt n k. Some (replicate k (of_nat (length pin))))"
  obtain h where h: "password_create kdf (Some [1, 2]) ''1234'' = Inr h"
    by (simp add: password_create_def derive_def kdf_def)
  have len: "length d = k" if "kdf pin salt n k = Some d" for pin salt n k d
    using that by (auto simp: kdf_def)
  have "kdf ''12345'' [1, 2] iterations digest_len_bytes \<noteq> kdf ''1234'' [1, 2] iterations digest_len_bytes"
    by (simp add: kdf_def digest_len_bytes_def)
  moreover have "(password_verify kdf ''12345'' h \<longleftrightarrow>
      kdf ''12345'' [1, 2] iterations digest_len_bytes = kdf ''1234'' [1, 2] iterations digest_len_bytes) \<and>
    password_verify kdf ''1234'' h \<and> length (ph_digest h) = 64"
    by (rule verify_accepts_same_key [OF h]) (rule len)
  ultimately have "password_verify kdf ''1234'' h \<and> \<not> password_verify kdf ''12345'' h" by blast
  then show ?thesis using h unfolding kdf_def by blast
qed

end
