(* ===== verification/Bank_Sessions.thy ===== *)
theory Bank_Sessions
  imports Bank_Password
begin

text \<open>
  src/domain/Session.h and src/services/SessionManager.h/.cpp. The clock and the random device are
  arguments: \<open>draws n\<close> are the 32 bytes of the n-th token generated. Every operation runs under the
  manager's mutex. \<open>now_() + ttl_\<close> is modelled with the wrap-around of the word; the C++ has
  undefined behaviour there.
\<close>

record session =
  ses_token :: string
  ses_customer_id :: customer_id
  ses_role :: role
  ses_state :: session_state
  ses_expires_at :: time_point

text \<open>\<open>sm_sessions\<close> is the hash map; the order of the list has no meaning. \<open>sm_ttl\<close> is in clock ticks.\<close>

record session_manager =
  sm_sessions :: "(string \<times> session) list"
  sm_ttl :: i64

definition new_session_manager :: "i64 \<Rightarrow> session_manager" where
  "new_session_manager ttl = \<lparr>sm_sessions = [], sm_ttl = ttl\<rparr>"

text \<open>Eight hours, the default.\<close>

definition default_ttl :: i64 where
  "default_ttl = 8 * 3600 * 1000000000"

definition generate_token :: "byte list \<Rightarrow> string" where
  "generate_token bytes = bytes_to_hex bytes"

text \<open>The retry loop: it ends when a token is drawn that is not in use.\<close>

partial_function (option) fresh_token ::
  "(string \<times> session) list \<Rightarrow> (nat \<Rightarrow> byte list) \<Rightarrow> nat \<Rightarrow> string option" where
  "fresh_token ss draws n =
     (if map_of ss (generate_token (draws n)) = None then Some (generate_token (draws n))
      else fresh_token ss draws (n + 1))"

definition session_create ::
  "(nat \<Rightarrow> byte list) \<Rightarrow> time_point \<Rightarrow> session_manager \<Rightarrow> customer_id \<Rightarrow> role \<Rightarrow> (session \<times> session_manager) option" where
  "session_create draws now m customer r =
     (case fresh_token (sm_sessions m) draws 0 of
        None \<Rightarrow> None
      | Some token \<Rightarrow>
          (let s = \<lparr>ses_token = token, ses_customer_id = customer, ses_role = r,
                    ses_state = Authenticated, ses_expires_at = now + sm_ttl m\<rparr>
           in Some (s, m\<lparr>sm_sessions := (token, s) # sm_sessions m\<rparr>)))"

definition erase_token :: "string \<Rightarrow> (string \<times> session) list \<Rightarrow> (string \<times> session) list" where
  "erase_token token ss = filter (\<lambda>p. fst p \<noteq> token) ss"

definition session_validate :: "time_point \<Rightarrow> session_manager \<Rightarrow> string \<Rightarrow> session option \<times> session_manager" where
  "session_validate now m token =
     (case map_of (sm_sessions m) token of
        None \<Rightarrow> (None, m)
      | Some s \<Rightarrow>
          if ses_expires_at s <=s now then (None, m\<lparr>sm_sessions := erase_token token (sm_sessions m)\<rparr>)
          else (Some s, m))"

definition session_revoke :: "session_manager \<Rightarrow> string \<Rightarrow> session option \<times> session_manager" where
  "session_revoke m token =
     (case map_of (sm_sessions m) token of
        None \<Rightarrow> (None, m)
      | Some s \<Rightarrow>
          (Some (s\<lparr>ses_state := Revoked\<rparr>), m\<lparr>sm_sessions := erase_token token (sm_sessions m)\<rparr>))"

definition session_count :: "session_manager \<Rightarrow> nat" where
  "session_count m = length (sm_sessions m)"

section \<open>Invariant\<close>

text \<open>A token names one session, which carries it and is authenticated.\<close>

definition sessions_ok :: "session_manager \<Rightarrow> bool" where
  "sessions_ok m \<longleftrightarrow>
     distinct (map fst (sm_sessions m)) \<and>
     (\<forall>(token, s) \<in> set (sm_sessions m). ses_token s = token \<and> ses_state s = Authenticated)"

lemma fresh_token_Some: "fresh_token ss draws n = Some token \<Longrightarrow>
    map_of ss token = None \<and> (\<exists>k. token = generate_token (draws k))"
  by (rule fresh_token.raw_induct [where P = "\<lambda>ss draws n t. map_of ss t = None \<and> (\<exists>k. t = generate_token (draws k))"])
    (auto split: if_splits)

lemma fresh_token_returns:
  "map_of ss (generate_token (draws (n + k))) = None \<Longrightarrow> \<exists>token. fresh_token ss draws n = Some token"
proof (induction k arbitrary: n)
  case 0
  then show ?case by (subst fresh_token.simps) simp
next
  case (Suc k)
  then show ?case by (subst fresh_token.simps) (metis add_Suc_right add_Suc_shift Suc_eq_plus1)
qed

text \<open>More different draws than sessions are enough for the loop to end.\<close>

lemma fresh_token_total:
  assumes "length ss < card (draws ` {..<k})"
  shows "\<exists>token. fresh_token ss draws 0 = Some token"
proof -
  have "inj_on generate_token (draws ` {..<k})" by (auto simp: inj_on_def generate_token_def bytes_to_hex_inj)
  then have "card (generate_token ` draws ` {..<k}) = card (draws ` {..<k})" by (rule card_image)
  moreover have "card (fst ` set ss) \<le> length ss" using card_length [of "map fst ss"] by simp
  moreover have "card (generate_token ` draws ` {..<k}) \<le> card (fst ` set ss)"
    if "generate_token ` draws ` {..<k} \<subseteq> fst ` set ss"
    by (rule card_mono [OF _ that]) simp
  ultimately have "\<not> generate_token ` draws ` {..<k} \<subseteq> fst ` set ss"
    using assms by linarith
  then obtain j where "generate_token (draws j) \<notin> fst ` set ss" by blast
  then have "map_of ss (generate_token (draws (0 + j))) = None" by (simp add: map_of_eq_None_iff)
  then show ?thesis by (rule fresh_token_returns)
qed

lemma map_of_erase: "map_of (erase_token t ss) u = (if u = t then None else map_of ss u)"
  by (induction ss) (auto simp: erase_token_def)

lemma sessions_ok_erase: "sessions_ok m \<Longrightarrow> sessions_ok (m\<lparr>sm_sessions := erase_token t (sm_sessions m)\<rparr>)"
  by (auto simp: sessions_ok_def erase_token_def distinct_map_filter)

lemma session_create_Some:
  assumes "session_create draws now m c r = Some (s, m')"
  shows "map_of (sm_sessions m) (ses_token s) = None" "ses_customer_id s = c" "ses_role s = r"
    "ses_state s = Authenticated" "ses_expires_at s = now + sm_ttl m"
    "m' = m\<lparr>sm_sessions := (ses_token s, s) # sm_sessions m\<rparr>"
  using assms fresh_token_Some [of "sm_sessions m" draws 0]
  by (auto simp: session_create_def Let_def split: option.splits)

lemma sessions_ok_new [bank_inv]: "sessions_ok (new_session_manager ttl)"
  by (simp add: sessions_ok_def new_session_manager_def)

lemma sessions_ok_create [bank_inv]:
  "sessions_ok m \<Longrightarrow> session_create draws now m c r = Some (s, m') \<Longrightarrow> sessions_ok m'"
  using session_create_Some [of draws now m c r s m']
  by (auto simp: sessions_ok_def map_of_eq_None_iff)

lemma sessions_ok_validate [bank_inv]: "sessions_ok m \<Longrightarrow> sessions_ok (snd (session_validate now m t))"
  by (auto simp: session_validate_def sessions_ok_erase split: option.splits)

lemma sessions_ok_revoke [bank_inv]: "sessions_ok m \<Longrightarrow> sessions_ok (snd (session_revoke m t))"
  by (auto simp: session_revoke_def sessions_ok_erase split: option.splits)

lemma validate_Some:
  "session_validate now m t = (Some s, m') \<longleftrightarrow> map_of (sm_sessions m) t = Some s \<and> \<not> ses_expires_at s <=s now \<and> m' = m"
  by (auto simp: session_validate_def split: option.splits)

lemma validate_created:
  assumes "session_create draws now m c r = Some (s, m')"
  shows "fst (session_validate later m' (ses_token s)) = (if now + sm_ttl m <=s later then None else Some s)"
  using session_create_Some [OF assms] by (simp add: session_validate_def)

lemma validate_revoked: "fst (session_validate now (snd (session_revoke m t)) t) = None"
  by (auto simp: session_revoke_def session_validate_def map_of_erase split: option.splits)

lemma validate_other: "u \<noteq> t \<Longrightarrow> fst (session_validate now (snd (session_revoke m t)) u) = fst (session_validate now m u)"
  by (auto simp: session_revoke_def session_validate_def map_of_erase split: option.splits)

lemma validate_expired:
  "session_validate now m t = (None, m') \<Longrightarrow> map_of (sm_sessions m') t = None"
  by (auto simp: session_validate_def map_of_erase split: option.splits if_splits)

section \<open>Properties\<close>

text \<open>
  The life of a session. A created session is found by its token, with the customer and role it was
  made for, until its time of expiry and never from then on; looking at an expired session removes it; and
  once a token is revoked it is never valid again, while all other tokens stay as they were.
\<close>

theorem session_lifecycle:
  assumes "session_create draws now m c r = Some (s, m')"
  shows "ses_customer_id s = c \<and> ses_role s = r \<and> ses_state s = Authenticated \<and>
    fst (session_validate later m' (ses_token s)) = (if now + sm_ttl m <=s later then None else Some s) \<and>
    fst (session_validate later (snd (session_revoke m' token)) token) = None \<and>
    (other \<noteq> token \<longrightarrow>
       fst (session_validate later (snd (session_revoke m' token)) other) = fst (session_validate later m' other))"
  using session_create_Some [OF assms] validate_created [OF assms] validate_revoked validate_other by simp

theorem session_lifecycle_witness:
  "\<exists>s m'. session_create (\<lambda>n. [of_nat n, 255]) 100 (new_session_manager 50) (Id 3) Role_Teller = Some (s, m') \<and>
     fst (session_validate 149 m' (ses_token s)) = Some s \<and> fst (session_validate 150 m' (ses_token s)) = None"
proof -
  have "fresh_token (sm_sessions (new_session_manager 50)) (\<lambda>n. [of_nat n, 255]) 0 = Some (generate_token [0, 255])"
    by (subst fresh_token.simps) (simp add: new_session_manager_def)
  then obtain s m' where c: "session_create (\<lambda>n. [of_nat n, 255]) 100 (new_session_manager 50) (Id 3) Role_Teller = Some (s, m')"
    by (simp add: session_create_def Let_def)
  show ?thesis using c session_lifecycle [OF c, of 149] session_lifecycle [OF c, of 150]
    by (auto simp: new_session_manager_def word_sle_eq)
qed

text \<open>
  Creating a session returns and never clashes. If the random device has drawn more different tokens
  than there are sessions, the retry loop has ended, with a token that no live session has; a token is the
  hexadecimal text of the 32 bytes drawn; and every operation keeps the sessions indexed by their own
  tokens, one session to a token.
\<close>

theorem session_create_returns:
  assumes "session_count m < card (draws ` {..<k})" "\<And>n. length (draws n) = 32" "sessions_ok m"
  shows "\<exists>s m'. session_create draws now m c r = Some (s, m') \<and> length (ses_token s) = 64 \<and>
    map_of (sm_sessions m) (ses_token s) = None \<and> sessions_ok m' \<and>
    session_count m' = session_count m + 1 \<and>
    sessions_ok (snd (session_validate later m' token)) \<and> sessions_ok (snd (session_revoke m' token))"
proof -
  obtain token where t: "fresh_token (sm_sessions m) draws 0 = Some token"
    using fresh_token_total assms(1) unfolding session_count_def by blast
  then obtain s m' where c: "session_create draws now m c r = Some (s, m')" and tok: "ses_token s = token"
    by (auto simp: session_create_def Let_def)
  obtain k where "token = generate_token (draws k)" using fresh_token_Some [OF t] by blast
  then have "length (ses_token s) = 64" using assms(2) tok by (simp add: generate_token_def)
  then show ?thesis
    using c session_create_Some [OF c] sessions_ok_create [OF assms(3) c] sessions_ok_validate sessions_ok_revoke
    by (simp add: session_count_def)
qed

theorem session_create_returns_witness:
  "\<exists>s m'. session_create (\<lambda>n. replicate 32 (of_nat n)) 100 (new_session_manager 50) (Id 3) Role_Admin = Some (s, m') \<and>
     length (ses_token s) = 64 \<and> session_count m' = 1"
proof -
  have "session_count (new_session_manager 50) = 0" by (simp add: session_count_def new_session_manager_def)
  then have "session_count (new_session_manager 50) < card ((\<lambda>n. replicate 32 (of_nat n :: byte)) ` {..<1 :: nat})"
    by (simp add: lessThan_Suc)
  from session_create_returns [OF this _ sessions_ok_new] show ?thesis
    by (simp add: \<open>session_count (new_session_manager 50) = 0\<close>) blast
qed

end
