(* ===== verification/Bank_Services.thy ===== *)
theory Bank_Services
  imports Bank_Consumers Bank_Sessions
begin

text \<open>
  src/services: AuditService, AuthService, BankingService and the InterestService stub. The services
  share the repositories, the processor and the session manager by reference, so one record holds
  them all. A call that an exception leaves has the result \<open>Inl\<close>.
\<close>

section \<open>State\<close>

text \<open>
  \<open>bk_dummy\<close> is the function-local static of \<open>login\<close>, built on first use; \<open>bk_audit_id\<close> the counter of
  the service audit entries.
\<close>

record ('a, 't, 'u, 'c) bank =
  bk_proc :: "('a, 't, 'u) processor"
  bk_customers :: 'c
  bk_sessions :: session_manager
  bk_dummy :: "password_hash option"
  bk_audit_id :: u64

definition first_service_audit_id :: u64 where
  "first_service_audit_id = 1000000000000000"

section \<open>AuditService\<close>

definition audit_append ::
  "('a, 't, 'u) repositories \<Rightarrow> time_point \<Rightarrow> customer_id \<Rightarrow> string \<Rightarrow> string \<Rightarrow>
     ('a, 't, 'u, 'c) bank \<Rightarrow> void_result \<times> ('a, 't, 'u, 'c) bank" where
  "audit_append repos now actor action details b =
     (let entry = \<lparr>ae_id = bk_audit_id b, ae_timestamp = now, ae_actor_id = actor,
                   ae_action = action, ae_details = details\<rparr>
      in case au_append (rp_audit repos) (pr_audit (bk_proc b)) entry of
           (r, u) \<Rightarrow>
             (case r of Inr _ \<Rightarrow> void_success
              | Inl e \<Rightarrow> void_failure (''audit append failed: '' @ exn_what e),
              b\<lparr>bk_audit_id := bk_audit_id b + 1, bk_proc := (bk_proc b)\<lparr>pr_audit := u\<rparr>\<rparr>))"

definition audit_find ::
  "('a, 't, 'u) repositories \<Rightarrow> audit_filter \<Rightarrow> ('a, 't, 'u, 'c) bank \<Rightarrow> audit_entry list result" where
  "audit_find repos f b =
     (case au_find (rp_audit repos) (pr_audit (bk_proc b)) f of
        Inr es \<Rightarrow> result_success es
      | Inl e \<Rightarrow> result_failure (''audit query failed: '' @ exn_what e))"

definition no_filter :: audit_filter where
  "no_filter = \<lparr>af_action = None, af_actor = None, af_since = None\<rparr>"

definition audit_find_by_actor ::
  "('a, 't, 'u) repositories \<Rightarrow> customer_id \<Rightarrow> ('a, 't, 'u, 'c) bank \<Rightarrow> audit_entry list result" where
  "audit_find_by_actor repos actor b = audit_find repos (no_filter\<lparr>af_actor := Some actor\<rparr>) b"

definition audit_find_by_action ::
  "('a, 't, 'u) repositories \<Rightarrow> string \<Rightarrow> ('a, 't, 'u, 'c) bank \<Rightarrow> audit_entry list result" where
  "audit_find_by_action repos action b = audit_find repos (no_filter\<lparr>af_action := Some action\<rparr>) b"

definition audit_find_since ::
  "('a, 't, 'u) repositories \<Rightarrow> time_point \<Rightarrow> ('a, 't, 'u, 'c) bank \<Rightarrow> audit_entry list result" where
  "audit_find_since repos since b = audit_find repos (no_filter\<lparr>af_since := Some since\<rparr>) b"

section \<open>AuthService\<close>

text \<open>
  What a login gets from outside: the salt for the dummy hash, the random tokens, the time the session
  is created and the time of the audit entry.
\<close>

record login_env =
  le_salt :: "byte list option"
  le_draws :: "nat \<Rightarrow> byte list"
  le_session_time :: time_point
  le_audit_time :: time_point

definition dummy_hash ::
  "kdf \<Rightarrow> login_env \<Rightarrow> ('a, 't, 'u, 'c) bank \<Rightarrow> (exn + password_hash) \<times> ('a, 't, 'u, 'c) bank" where
  "dummy_hash kdf env b =
     (case bk_dummy b of
        Some h \<Rightarrow> (Inr h, b)
      | None \<Rightarrow>
          (case password_create kdf (le_salt env) ''dummy-pin-do-not-use'' of
             Inl e \<Rightarrow> (Inl e, b)
           | Inr h \<Rightarrow> (Inr h, b\<lparr>bk_dummy := Some h\<rparr>)))"

text \<open>\<open>None\<close> when the token loop of \<open>SessionManager::create\<close> does not end.\<close>

definition login ::
  "kdf \<Rightarrow> ('a, 't, 'u) repositories \<Rightarrow> 'c customer_repository \<Rightarrow> login_env \<Rightarrow> customer_id \<Rightarrow> string \<Rightarrow>
     ('a, 't, 'u, 'c) bank \<Rightarrow> ((exn + session result) \<times> ('a, 't, 'u, 'c) bank) option" where
  "login kdf repos crepo env i pin b =
     (let refused = (\<lambda>b. case audit_append repos (le_audit_time env) i ''auth.login_failed'' ''invalid credentials'' b of
                          (_, b) \<Rightarrow> Some (Inr (result_failure ''invalid credentials''), b))
      in case cr_find_by_id crepo (bk_customers b) i of
           Inl e \<Rightarrow> Some (Inl e, b)
         | Inr None \<Rightarrow>
             (case dummy_hash kdf env b of
                (Inl e, b) \<Rightarrow> Some (Inl e, b)
              | (Inr _, b) \<Rightarrow> refused b)
         | Inr (Some c) \<Rightarrow>
             if \<not> password_verify kdf pin (cust_pin_hash c) then refused b
             else case session_create (le_draws env) (le_session_time env) (bk_sessions b) (cust_id c) (cust_role c) of
                    None \<Rightarrow> None
                  | Some (s, m) \<Rightarrow>
                      (case audit_append repos (le_audit_time env) (cust_id c) ''auth.login'' ''success''
                              (b\<lparr>bk_sessions := m\<rparr>) of
                         (_, b) \<Rightarrow> Some (Inr (result_success s), b)))"

definition logout ::
  "('a, 't, 'u) repositories \<Rightarrow> time_point \<Rightarrow> string \<Rightarrow> ('a, 't, 'u, 'c) bank \<Rightarrow> void_result \<times> ('a, 't, 'u, 'c) bank" where
  "logout repos now token b =
     (case session_revoke (bk_sessions b) token of
        (None, m) \<Rightarrow> (void_failure ''invalid session'', b\<lparr>bk_sessions := m\<rparr>)
      | (Some s, m) \<Rightarrow>
          (case audit_append repos now (ses_customer_id s) ''auth.logout'' ''success'' (b\<lparr>bk_sessions := m\<rparr>) of
             (_, b) \<Rightarrow> (void_success, b)))"

section \<open>BankingService\<close>

definition on_processor ::
  "(('a, 't, 'u) processor, 'r) io \<Rightarrow> ('a, 't, 'u, 'c) bank \<Rightarrow> (exn + 'r) \<times> ('a, 't, 'u, 'c) bank" where
  "on_processor m b = (case m (bk_proc b) of (r, p) \<Rightarrow> (r, b\<lparr>bk_proc := p\<rparr>))"

definition bank_deposit ::
  "('a, 't, 'u) repositories \<Rightarrow> process_env \<Rightarrow> account_id \<Rightarrow> money \<Rightarrow> ('a, 't, 'u, 'c) bank \<Rightarrow>
     (exn + transaction_record result) \<times> ('a, 't, 'u, 'c) bank" where
  "bank_deposit repos env i m = on_processor (process_one repos env (Deposit i m))"

definition bank_withdraw ::
  "('a, 't, 'u) repositories \<Rightarrow> process_env \<Rightarrow> account_id \<Rightarrow> money \<Rightarrow> ('a, 't, 'u, 'c) bank \<Rightarrow>
     (exn + transaction_record result) \<times> ('a, 't, 'u, 'c) bank" where
  "bank_withdraw repos env i m = on_processor (process_one repos env (Withdraw i m))"

definition bank_transfer ::
  "('a, 't, 'u) repositories \<Rightarrow> process_env \<Rightarrow> account_id \<Rightarrow> account_id \<Rightarrow> money \<Rightarrow> ('a, 't, 'u, 'c) bank \<Rightarrow>
     (exn + transaction_record result) \<times> ('a, 't, 'u, 'c) bank" where
  "bank_transfer repos env i j m = on_processor (process_one repos env (Transfer i j m))"

definition bank_balance ::
  "('a, 't, 'u) repositories \<Rightarrow> account_id \<Rightarrow> ('a, 't, 'u, 'c) bank \<Rightarrow> exn + money result" where
  "bank_balance repos i b =
     bind_exn (ar_find_by_id (rp_accounts repos) (pr_accounts (bk_proc b)) i)
       (\<lambda>x. Inr (case x of
          None \<Rightarrow> result_failure (''account not found: '' @ to_string_u64 (id_value i))
        | Some a \<Rightarrow> result_success (acc_balance a)))"

definition bank_history ::
  "('a, 't, 'u) repositories \<Rightarrow> account_id \<Rightarrow> ('a, 't, 'u, 'c) bank \<Rightarrow> transaction_record list result" where
  "bank_history repos i b =
     (case tr_for_account (rp_transactions repos) (pr_transactions (bk_proc b)) i of
        Inr rs \<Rightarrow> result_success rs
      | Inl e \<Rightarrow> result_failure (''history query failed: '' @ exn_what e))"

text \<open>
  \<open>freeze\<close> reads the account and decides, and then writes the changed copy and the audit entry. It holds the
  mutex of the service, but neither that of the account nor that of the repositories, so transactions of the
  processor's consumers can come between the two.
\<close>

definition freeze_reads ::
  "('a, 't, 'u) repositories \<Rightarrow> account_id \<Rightarrow> ('a, 't, 'u, 'c) bank \<Rightarrow> exn + (void_result + account)" where
  "freeze_reads repos i b =
     bind_exn (ar_find_by_id (rp_accounts repos) (pr_accounts (bk_proc b)) i)
       (\<lambda>x. Inr (case x of
          None \<Rightarrow> Inl (void_failure ''account not found'')
        | Some a \<Rightarrow>
            if acc_status a = Closed then Inl (void_failure ''cannot freeze closed account'')
            else if acc_status a = Frozen then Inl void_success
            else Inr a))"

definition freeze_writes ::
  "('a, 't, 'u) repositories \<Rightarrow> time_point \<Rightarrow> account_id \<Rightarrow> account \<Rightarrow> ('a, 't, 'u, 'c) bank \<Rightarrow>
     (exn + void_result) \<times> ('a, 't, 'u, 'c) bank" where
  "freeze_writes repos now i a b =
     (case ar_save (rp_accounts repos) (pr_accounts (bk_proc b)) (set_status a Frozen) of
        (Inl e, r) \<Rightarrow>
          (Inr (void_failure (''freeze failed: '' @ exn_what e)), b\<lparr>bk_proc := (bk_proc b)\<lparr>pr_accounts := r\<rparr>\<rparr>)
      | (Inr _, r) \<Rightarrow>
          (case audit_append repos now system_actor ''account.frozen''
                  (''account '' @ to_string_u64 (id_value i)) (b\<lparr>bk_proc := (bk_proc b)\<lparr>pr_accounts := r\<rparr>\<rparr>) of
             (_, b) \<Rightarrow> (Inr void_success, b)))"

definition bank_freeze ::
  "('a, 't, 'u) repositories \<Rightarrow> time_point \<Rightarrow> account_id \<Rightarrow> ('a, 't, 'u, 'c) bank \<Rightarrow>
     (exn + void_result) \<times> ('a, 't, 'u, 'c) bank" where
  "bank_freeze repos now i b =
     (case freeze_reads repos i b of
        Inl e \<Rightarrow> (Inl e, b)
      | Inr (Inl res) \<Rightarrow> (Inr res, b)
      | Inr (Inr a) \<Rightarrow> freeze_writes repos now i a b)"

definition bank_unfreeze ::
  "('a, 't, 'u) repositories \<Rightarrow> time_point \<Rightarrow> account_id \<Rightarrow> ('a, 't, 'u, 'c) bank \<Rightarrow>
     (exn + void_result) \<times> ('a, 't, 'u, 'c) bank" where
  "bank_unfreeze repos now i b =
     (case ar_find_by_id (rp_accounts repos) (pr_accounts (bk_proc b)) i of
        Inl e \<Rightarrow> (Inl e, b)
      | Inr None \<Rightarrow> (Inr (void_failure ''account not found''), b)
      | Inr (Some a) \<Rightarrow>
          if acc_status a = Closed then (Inr (void_failure ''cannot unfreeze closed account''), b)
          else if acc_status a = Active then (Inr void_success, b)
          else case ar_save (rp_accounts repos) (pr_accounts (bk_proc b)) (set_status a Active) of
                 (Inl e, r) \<Rightarrow>
                   (Inr (void_failure (''unfreeze failed: '' @ exn_what e)), b\<lparr>bk_proc := (bk_proc b)\<lparr>pr_accounts := r\<rparr>\<rparr>)
               | (Inr _, r) \<Rightarrow>
                   (case audit_append repos now system_actor ''account.unfrozen''
                           (''account '' @ to_string_u64 (id_value i)) (b\<lparr>bk_proc := (bk_proc b)\<lparr>pr_accounts := r\<rparr>\<rparr>) of
                      (_, b) \<Rightarrow> (Inr void_success, b)))"

text \<open>InterestService: a stub that reports success and posts nothing.\<close>

definition accrue_monthly_interest :: "('a, 't, 'u, 'c) bank \<Rightarrow> void_result \<times> ('a, 't, 'u, 'c) bank" where
  "accrue_monthly_interest b = (void_success, b)"

end
