(* ===== verification/Bank_Services_Correct.thy ===== *)
theory Bank_Services_Correct
  imports Bank_Services
begin

text \<open>
  What the services promise: authentication gives a session only to a customer with the right pin and
  tells nothing apart in its refusals; money moves through the processor alone, so its guarantees carry
  over; a frozen account takes part in no transaction until it is unfrozen.
\<close>

section \<open>Audit entries\<close>

text \<open>An audit entry of a service changes the trail and the counter, whatever the repository does.\<close>

definition same_but_audit :: "('a, 't, 'u, 'c) bank \<Rightarrow> ('a, 't, 'u, 'c) bank \<Rightarrow> bool" where
  "same_but_audit b b' \<longleftrightarrow>
     bk_customers b' = bk_customers b \<and> bk_sessions b' = bk_sessions b \<and> bk_dummy b' = bk_dummy b \<and>
     (\<exists>u. bk_proc b' = (bk_proc b)\<lparr>pr_audit := u\<rparr>)"

lemma audit_append_same: "same_but_audit b (snd (audit_append repos now actor action details b))"
  by (auto simp: audit_append_def same_but_audit_def Let_def split: prod.splits)

lemma audit_append_counter: "bk_audit_id (snd (audit_append repos now actor action details b)) = bk_audit_id b + 1"
  by (auto simp: audit_append_def Let_def split: prod.splits)

lemma same_but_audit_simps:
  assumes "same_but_audit b b'"
  shows "bk_customers b' = bk_customers b" "bk_sessions b' = bk_sessions b" "bk_dummy b' = bk_dummy b"
    "pr_accounts (bk_proc b') = pr_accounts (bk_proc b)" "pr_transactions (bk_proc b') = pr_transactions (bk_proc b)"
    "pr_wal (bk_proc b') = pr_wal (bk_proc b)"
  using assms by (auto simp: same_but_audit_def)

lemma audit_find_in_memory:
  "audit_find mem_repositories f b = result_success (filter (matches_filter f) (pr_audit (bk_proc b)))"
  by (simp add: audit_find_def mem_audit_def mem_audit_find_def mem_audit_find_loop_filter)

section \<open>Authentication\<close>

text \<open>The refusal: one audit entry, and the same message for every reason.\<close>

definition refused_login ::
  "('a, 't, 'u) repositories \<Rightarrow> login_env \<Rightarrow> customer_id \<Rightarrow> ('a, 't, 'u, 'c) bank \<Rightarrow>
     (exn + session result) \<times> ('a, 't, 'u, 'c) bank" where
  "refused_login repos env i b =
     (Inr (result_failure ''invalid credentials''),
      snd (audit_append repos (le_audit_time env) i ''auth.login_failed'' ''invalid credentials'' b))"

lemma login_unknown:
  assumes "cr_find_by_id crepo (bk_customers b) i = Inr None" "dummy_hash kdf env b = (Inr h, b1)"
  shows "login kdf repos crepo env i pin b = Some (refused_login repos env i b1)"
  using assms by (simp add: login_def Let_def refused_login_def split: prod.splits)

lemma login_wrong_pin:
  assumes "cr_find_by_id crepo (bk_customers b) i = Inr (Some c)" "\<not> password_verify kdf pin (cust_pin_hash c)"
  shows "login kdf repos crepo env i pin b = Some (refused_login repos env i b)"
  using assms by (simp add: login_def Let_def refused_login_def split: prod.splits)

lemma login_accepts:
  assumes "cr_find_by_id crepo (bk_customers b) i = Inr (Some c)" "password_verify kdf pin (cust_pin_hash c)"
    "session_create (le_draws env) (le_session_time env) (bk_sessions b) (cust_id c) (cust_role c) = Some (s, m)"
  shows "login kdf repos crepo env i pin b =
    Some (Inr (result_success s),
          snd (audit_append repos (le_audit_time env) (cust_id c) ''auth.login'' ''success'' (b\<lparr>bk_sessions := m\<rparr>)))"
  using assms by (simp add: login_def Let_def split: prod.splits)

text \<open>Building the dummy hash changes nothing that a client can see.\<close>

lemma dummy_hash_same: "dummy_hash kdf env b = (x, b1) \<Longrightarrow> \<exists>h. b1 = b\<lparr>bk_dummy := h\<rparr>"
proof (cases "bk_dummy b")
  case None
  assume "dummy_hash kdf env b = (x, b1)"
  then have "b1 = b \<or> (\<exists>h. b1 = b\<lparr>bk_dummy := h\<rparr>)"
    using None by (auto simp: dummy_hash_def split: sum.splits)
  moreover have "b = b\<lparr>bk_dummy := None\<rparr>" using None [symmetric] by simp
  ultimately show ?thesis by metis
next
  case (Some h)
  assume "dummy_hash kdf env b = (x, b1)"
  then have "b1 = b" using Some by (simp add: dummy_hash_def)
  moreover have "b = b\<lparr>bk_dummy := Some h\<rparr>" using Some [symmetric] by simp
  ultimately show ?thesis by metis
qed

lemma audit_append_dummy:
  "audit_append repos now actor action details (b\<lparr>bk_dummy := h\<rparr>) =
     map_prod id (\<lambda>b. b\<lparr>bk_dummy := h\<rparr>) (audit_append repos now actor action details b)"
  by (simp add: audit_append_def Let_def split: prod.splits)

text \<open>A login that succeeds has read the customer, checked the pin and made one session.\<close>

lemma login_success:
  assumes "login kdf repos crepo env i pin b = Some (Inr (result_success s), b')"
  obtains c m where "cr_find_by_id crepo (bk_customers b) i = Inr (Some c)"
    "password_verify kdf pin (cust_pin_hash c)"
    "session_create (le_draws env) (le_session_time env) (bk_sessions b) (cust_id c) (cust_role c) = Some (s, m)"
    "bk_sessions b' = m" "bk_customers b' = bk_customers b"
    "pr_accounts (bk_proc b') = pr_accounts (bk_proc b)"
proof (cases "cr_find_by_id crepo (bk_customers b) i")
  case (Inl e)
  then show ?thesis using assms by (simp add: login_def)
next
  case (Inr x)
  show ?thesis
  proof (cases x)
    case None
    obtain y b1 where "dummy_hash kdf env b = (y, b1)" by fastforce
    then show ?thesis using assms Inr None
      by (cases y) (simp_all add: login_def Let_def split: prod.splits)
  next
    case (Some c)
    show ?thesis
    proof (cases "password_verify kdf pin (cust_pin_hash c)")
      case False
      then show ?thesis using assms login_wrong_pin [of crepo b i c kdf pin repos env] Inr Some
        by (simp add: refused_login_def)
    next
      case True
      show ?thesis
      proof (cases "session_create (le_draws env) (le_session_time env) (bk_sessions b) (cust_id c) (cust_role c)")
        case None
        then show ?thesis using assms Inr Some True by (simp add: login_def)
      next
        case created: (Some sm)
        obtain s1 m where sm: "sm = (s1, m)" by (cases sm)
        note acc = login_accepts [OF Inr [unfolded Some] True created [unfolded sm], of repos]
        have s: "s1 = s" and b': "b' = snd (audit_append repos (le_audit_time env) (cust_id c) ''auth.login'' ''success''
            (b\<lparr>bk_sessions := m\<rparr>))"
          using assms acc by simp_all
        have "same_but_audit (b\<lparr>bk_sessions := m\<rparr>) b'" unfolding b' by (rule audit_append_same)
        from same_but_audit_simps [OF this] show ?thesis
          using that [OF Inr [unfolded Some] True] created sm s by simp
      qed
    qed
  qed
qed

lemma logout_known:
  assumes "map_of (sm_sessions (bk_sessions b)) token = Some s"
  shows "fst (logout repos now token b) = void_success"
    "bk_sessions (snd (logout repos now token b)) = snd (session_revoke (bk_sessions b) token)"
proof -
  let ?b = "b\<lparr>bk_sessions := snd (session_revoke (bk_sessions b) token)\<rparr>"
  have eq: "logout repos now token b =
    (void_success, snd (audit_append repos now (ses_customer_id s) ''auth.logout'' ''success'' ?b))"
    using assms by (simp add: logout_def session_revoke_def split: prod.splits)
  show "fst (logout repos now token b) = void_success" by (simp add: eq)
  show "bk_sessions (snd (logout repos now token b)) = snd (session_revoke (bk_sessions b) token)"
    using same_but_audit_simps(2) [OF audit_append_same, of repos now "ses_customer_id s" "''auth.logout''" "''success''" ?b]
    by (simp add: eq)
qed

lemma logout_unknown:
  "map_of (sm_sessions (bk_sessions b)) token = None \<Longrightarrow> logout repos now token b = (void_failure ''invalid session'', b)"
  by (simp add: logout_def session_revoke_def)

section \<open>Frozen accounts\<close>

text \<open>A transaction is accepted only when every account it names is active.\<close>

lemma verdict_active:
  assumes verdict: "process_verdict t v = None" and i: "i \<in> set (involved_accounts t)" and ok: "view_ok v"
  shows "\<exists>a. v i = Some a \<and> acc_status a = Active"
proof -
  let ?as = "map (\<lambda>i. the (v i)) (lock_plan t)"
  have found: "List.find (\<lambda>i. v i = None) (lock_plan t) = None"
    using verdict by (auto simp: process_verdict_def split: option.splits)
  then have valid: "validate t ?as"
    using verdict by (simp add: process_verdict_def Let_def split: if_splits)
  have at: "v i = Some a" if acc: "find_account ?as i = Some a" for a
  proof -
    obtain j where j: "j \<in> set (lock_plan t)" "a = the (v j)" "acc_id a = i"
      using find_account_Some [OF acc] by auto
    then have "v j = Some a" using found by (auto simp: find_None_iff)
    then show ?thesis using ok j by (auto simp: view_ok_def)
  qed
  from i consider "debit_account t = Some i" | "credit_account t = Some i"
    unfolding set_involved by (auto simp: elem_set)
  then show ?thesis
  proof cases
    case 1
    then show ?thesis using validate_debit [OF valid] at by (auto simp: can_withdraw_def)
  next
    case 2
    then show ?thesis using validate_credit [OF valid] at by blast
  qed
qed

text \<open>The accounts that \<open>freeze\<close> and \<open>unfreeze\<close> leave: the status of one that is not closed is set.\<close>

definition status_changed ::
  "('a \<Rightarrow> bool) \<Rightarrow> ('a \<Rightarrow> account_id \<Rightarrow> account option) \<Rightarrow> account_status \<Rightarrow> account_id \<Rightarrow> ('a, 't, 'u, 'c) bank \<Rightarrow> ('a, 't, 'u, 'c) bank \<Rightarrow> bool" where
  "status_changed aok aview st i b b' \<longleftrightarrow>
     aok (pr_accounts (bk_proc b')) \<and> pr_wal (bk_proc b') = pr_wal (bk_proc b) \<and>
     pr_transactions (bk_proc b') = pr_transactions (bk_proc b) \<and>
     aview (pr_accounts (bk_proc b')) =
      (case aview (pr_accounts (bk_proc b)) i of
         None \<Rightarrow> aview (pr_accounts (bk_proc b))
       | Some a \<Rightarrow> if acc_status a = Closed then aview (pr_accounts (bk_proc b))
                   else (aview (pr_accounts (bk_proc b)))(i \<mapsto> set_status a st))"

context reliable_stores begin

lemma audit_append_total:
  "\<exists>u. audit_append repos now actor action details b =
     (void_success, b\<lparr>bk_audit_id := bk_audit_id b + 1, bk_proc := (bk_proc b)\<lparr>pr_audit := u\<rparr>\<rparr>) \<and>
     uview u = uadd \<lparr>ae_id = bk_audit_id b, ae_timestamp = now, ae_actor_id = actor, ae_action = action,
         ae_details = details\<rparr> (uview (pr_audit (bk_proc b)))"
proof -
  obtain u where u: "au_append (rp_audit repos) (pr_audit (bk_proc b))
      \<lparr>ae_id = bk_audit_id b, ae_timestamp = now, ae_actor_id = actor, ae_action = action, ae_details = details\<rparr> = (Inr (), u)"
    using aud.append_total by blast
  then show ?thesis using aud.append_ok [OF u] by (auto simp: audit_append_def intro!: exI [of _ u])
qed

lemma balance_view:
  assumes "aok (pr_accounts (bk_proc b))"
  shows "bank_balance repos i b =
    Inr (case aview (pr_accounts (bk_proc b)) i of
           None \<Rightarrow> result_failure (''account not found: '' @ to_string_u64 (id_value i))
         | Some a \<Rightarrow> result_success (acc_balance a))"
proof -
  obtain x where "ar_find_by_id (rp_accounts repos) (pr_accounts (bk_proc b)) i = Inr x"
    using acc.find_total [OF assms] by blast
  then show ?thesis using acc.find_view [OF assms] by (simp add: bank_balance_def)
qed

lemma find_account_view: "aok r \<Longrightarrow> ar_find_by_id (rp_accounts repos) r i = Inr (aview r i)"
  using acc.find_total acc.find_view by metis

lemma change_status:
  assumes ok: "aok (pr_accounts (bk_proc b))" and a: "aview (pr_accounts (bk_proc b)) i = Some a"
    and "acc_status a \<noteq> Closed"
  shows "\<exists>r v b'. ar_save (rp_accounts repos) (pr_accounts (bk_proc b)) (set_status a st) = (Inr (), r) \<and>
    audit_append repos now system_actor action details (b\<lparr>bk_proc := (bk_proc b)\<lparr>pr_accounts := r\<rparr>\<rparr>) = (v, b') \<and>
    status_changed aok aview st i b b'"
proof -
  obtain r where save: "ar_save (rp_accounts repos) (pr_accounts (bk_proc b)) (set_status a st) = (Inr (), r)"
    using acc.save_total [OF ok] by blast
  have "acc_id a = i" by (rule acc.view_id [OF ok a])
  then have r: "aok r" "aview r = (aview (pr_accounts (bk_proc b)))(i \<mapsto> set_status a st)"
    using acc.save_ok [OF ok save] by simp_all
  obtain v b' where app: "audit_append repos now system_actor action details
      (b\<lparr>bk_proc := (bk_proc b)\<lparr>pr_accounts := r\<rparr>\<rparr>) = (v, b')" by fastforce
  have "same_but_audit (b\<lparr>bk_proc := (bk_proc b)\<lparr>pr_accounts := r\<rparr>\<rparr>) b'"
    using audit_append_same app by (metis snd_conv)
  from same_but_audit_simps [OF this] have "status_changed aok aview st i b b'"
    using r a assms(3) by (simp add: status_changed_def)
  then show ?thesis using save app by blast
qed

lemma freeze_outcome:
  assumes ok: "aok (pr_accounts (bk_proc b))"
  shows "\<exists>b'. bank_freeze repos now i b =
      (Inr (case aview (pr_accounts (bk_proc b)) i of
              None \<Rightarrow> void_failure ''account not found''
            | Some a \<Rightarrow> if acc_status a = Closed then void_failure ''cannot freeze closed account'' else void_success), b') \<and>
    status_changed aok aview Frozen i b b'"
proof (cases "aview (pr_accounts (bk_proc b)) i")
  case None
  then show ?thesis using find_account_view [OF ok, of i] by (simp add: bank_freeze_def freeze_reads_def freeze_writes_def status_changed_def ok)
next
  case (Some a)
  show ?thesis
  proof (cases "acc_status a = Closed \<or> acc_status a = Frozen")
    case True
    then show ?thesis using find_account_view [OF ok, of i] Some
      by (auto simp: bank_freeze_def freeze_reads_def freeze_writes_def status_changed_def ok set_status_def fun_upd_idem)
  next
    case False
    then show ?thesis using find_account_view [OF ok, of i] Some
        change_status [OF ok Some, of Frozen now "''account.frozen''" "''account '' @ to_string_u64 (id_value i)"]
      by (auto simp: bank_freeze_def freeze_reads_def freeze_writes_def)
  qed
qed

lemma unfreeze_outcome:
  assumes ok: "aok (pr_accounts (bk_proc b))"
  shows "\<exists>b'. bank_unfreeze repos now i b =
      (Inr (case aview (pr_accounts (bk_proc b)) i of
              None \<Rightarrow> void_failure ''account not found''
            | Some a \<Rightarrow> if acc_status a = Closed then void_failure ''cannot unfreeze closed account'' else void_success), b') \<and>
    status_changed aok aview Active i b b'"
proof (cases "aview (pr_accounts (bk_proc b)) i")
  case None
  then show ?thesis using find_account_view [OF ok, of i] by (simp add: bank_unfreeze_def status_changed_def ok)
next
  case (Some a)
  show ?thesis
  proof (cases "acc_status a = Closed \<or> acc_status a = Active")
    case True
    then show ?thesis using find_account_view [OF ok, of i] Some
      by (auto simp: bank_unfreeze_def status_changed_def ok set_status_def fun_upd_idem)
  next
    case False
    then show ?thesis using find_account_view [OF ok, of i] Some
        change_status [OF ok Some, of Active now "''account.unfrozen''" "''account '' @ to_string_u64 (id_value i)"]
      by (auto simp: bank_unfreeze_def)
  qed
qed

text \<open>As long as an account is not active, no transaction that names it is carried out.\<close>

lemma inactive_refused:
  assumes run: "process_one repos env t s = (Inr res, s')"
    and aok: "aok (pr_accounts s)" and vok: "view_ok (aview (pr_accounts s))" and m: "money_ok (amount_of t)"
    and i: "i \<in> set (involved_accounts t)" and inactive: "aview (pr_accounts s) i = Some a" "acc_status a \<noteq> Active"
    and marker: "pe_marker env = None"
  shows "\<not> result_ok res" "pr_accounts s' = pr_accounts s" "pr_transactions s' = pr_transactions s"
proof -
  obtain n s1 where f: "fresh_id s = (n, s1)" by fastforce
  then have s1: "pr_accounts s1 = pr_accounts s" "pr_transactions s1 = pr_transactions s" by (auto simp: fresh_id_def)
  have impl: "process_impl repos env t n s1 = (Inr res, s')" using run f by (simp add: process_one_def)
  have "\<exists>rec. res = result_success rec \<or> \<not> result_ok res" using process_impl_result [OF impl]
    by (auto simp: result_for_def)
  moreover have "res \<noteq> result_success rec" for rec
  proof
    assume "res = result_success rec"
    then have "process_verdict t (aview (pr_accounts s)) = None"
      using success_effects [of env t n s1 rec s'] impl aok vok m s1 by simp
    then show False using verdict_active [OF _ i vok] inactive by force
  qed
  ultimately show bad: "\<not> result_ok res" by blast
  show "pr_accounts s' = pr_accounts s" "pr_transactions s' = pr_transactions s"
    using failure_effects [OF impl bad _ marker] aok s1 by simp_all
qed

end

end
