(* ===== verification/Bank_Sample.thy ===== *)
theory Bank_Sample
  imports Bank_Services_Correct
begin

text \<open>
  A small concrete bank, on which the properties of the processor and the services are applied: two
  active accounts, an empty journal and a system that never fails.
\<close>

definition sample_account :: "u64 \<Rightarrow> i64 \<Rightarrow> account" where
  "sample_account i c = \<lparr>acc_id = Id i, acc_owner_id = Id i, acc_balance = Mk_Money c, acc_status = Active, acc_version = 0\<rparr>"

definition sample_accounts :: memory_accounts where
  "sample_accounts = [(1, sample_account 1 50000), (2, sample_account 2 1000)]"

definition sample_processor :: "(memory_accounts, memory_transactions, memory_audit) processor" where
  "sample_processor =
     \<lparr>pr_accounts = sample_accounts, pr_transactions = [], pr_audit = [], pr_wal = wal_open ''wal'' (Some []),
      pr_locks = [], pr_queue = new_queue, pr_reserved = [], pr_next_id = 1, pr_next_audit_id = 1,
      pr_accepting = True, pr_started = False, pr_worker_count = 1\<rparr>"

definition sample_env :: process_env where
  "sample_env = \<lparr>pe_record_time = 1000000, pe_audit_time = 2000000, pe_handler_time = 3000000,
     pe_append = good_io, pe_marker = None\<rparr>"

definition sample_transfer :: transaction where
  "sample_transfer = Transfer (Id 1) (Id 2) (Mk_Money 300)"

definition sample_bank :: "(memory_accounts, memory_transactions, memory_audit, memory_customers) bank" where
  "sample_bank = \<lparr>bk_proc = sample_processor, bk_customers = [], bk_sessions = new_session_manager 50,
     bk_dummy = None, bk_audit_id = first_service_audit_id\<rparr>"

lemma sample_mem_ok: "mem_ok (pr_accounts sample_processor)"
  by (simp add: sample_processor_def mem_ok_def mem_accounts_ok_def omap_ok_def sample_accounts_def sample_account_def
      accounts_ok_def account_ok_def money_ok_def amount_def)

lemma sample_wal_inv: "wal_inv (pr_wal sample_processor)"
  unfolding sample_processor_def by (simp add: wal_open_inv)

lemma sample_wal_ids: "wal_ids (pr_wal sample_processor) = {}"
  by (simp add: sample_processor_def wal_ids_def scan_no_newline)

lemma sample_ids_ok: "ids_ok sample_processor"
  by (simp add: ids_ok_def sample_wal_ids) (simp add: sample_processor_def)

lemma sample_transfer_ok: "money_ok (amount_of sample_transfer)"
  by (simp add: sample_transfer_def money_ok_def amount_def)

lemma sample_env_simps [simp]:
  "pe_marker sample_env = None" "resize_error (pe_append sample_env) = None" "write_io (pe_append sample_env) = Written"
  by (simp_all add: sample_env_def good_io_def)

lemma sample_verdict: "process_verdict sample_transfer (mem_accounts_view (pr_accounts sample_processor)) = None"
  by code_simp

text \<open>The sample transfer succeeds.\<close>

definition sample_after :: "(memory_accounts, memory_transactions, memory_audit) processor" where
  "sample_after = snd (process_impl mem_repositories sample_env sample_transfer (Id 1) sample_processor)"

lemma sample_run:
  "process_impl mem_repositories sample_env sample_transfer (Id 1) sample_processor =
     (Inr (result_success (committed_record sample_env (Id 1) sample_transfer)), sample_after)"
proof -
  have "fst (process_impl mem_repositories sample_env sample_transfer (Id 1) sample_processor) =
      Inr (result_success (committed_record sample_env (Id 1) sample_transfer))"
    using mem.verdict_outcome [of sample_processor sample_transfer sample_env "Id 1"]
      sample_mem_ok mem_view_ok [OF sample_mem_ok] sample_wal_inv sample_transfer_ok sample_verdict
    by (simp add: mem_ok_def)
  then show ?thesis by (simp add: sample_after_def prod_eq_iff)
qed

text \<open>A transaction that the sample accounts allow succeeds through the bank.\<close>

lemma sample_success:
  assumes "process_verdict t (mem_accounts_view (pr_accounts sample_processor)) = None" "money_ok (amount_of t)"
  obtains rec b' where "on_processor (process_one mem_repositories sample_env t) sample_bank = (Inr (result_success rec), b')"
proof -
  let ?s = "sample_processor\<lparr>pr_next_id := pr_next_id sample_processor + 1\<rparr>" and ?i = "Id (pr_next_id sample_processor)"
  have "fst (process_impl mem_repositories sample_env t ?i ?s) =
      Inr (result_success (committed_record sample_env ?i t))"
    using mem.verdict_outcome [of ?s t sample_env ?i] sample_mem_ok mem_view_ok [OF sample_mem_ok] sample_wal_inv assms
    by (simp add: mem_ok_def)
  then obtain p where "process_impl mem_repositories sample_env t ?i ?s =
      (Inr (result_success (committed_record sample_env ?i t)), p)" by (metis prod.collapse)
  then show ?thesis using that by (simp add: on_processor_def process_one_def fresh_id_def sample_bank_def)
qed

section \<open>A customer\<close>

definition sample_kdf :: kdf where
  "sample_kdf = (\<lambda>pin salt n k. Some (replicate k (of_nat (length pin))))"

definition sample_customer :: customer where
  "sample_customer = \<lparr>cust_id = Id 3, cust_name = ''Ada'',
     cust_pin_hash = \<lparr>ph_algorithm = algorithm_name, ph_salt = ''00ff'',
       ph_digest = bytes_to_hex (replicate 32 4)\<rparr>, cust_role = Role_Teller\<rparr>"

definition sample_login_env :: login_env where
  "sample_login_env = \<lparr>le_salt = Some [1, 2], le_draws = (\<lambda>n. [of_nat n, 7]), le_session_time = 100, le_audit_time = 100\<rparr>"

lemma sample_pin: "password_verify sample_kdf pin (cust_pin_hash sample_customer) \<longleftrightarrow>
    (of_nat (length pin) :: byte) = 4"
proof -
  have "hex_to_bytes ''00ff'' = Inr [0, 255]" by code_simp
  then show ?thesis
    by (simp add: password_verify_def sample_customer_def algorithm_name_def derive_def sample_kdf_def bytes_to_hex_inj
        digest_len_bytes_def)
qed

end
