(* ===== verification/Bank_Pool.thy ===== *)
theory Bank_Pool
  imports Bank_Queue "HOL-Library.Multiset"
begin

text \<open>
  src/concurrency/ThreadPool.h/.cpp. A task is a value of type \<open>'k\<close>; workers, submitters and one
  thread that calls \<open>stop()\<close> interleave, each step being one critical section of the pool's mutex.
  The pool keeps a log of the tasks accepted, started and finished, which is not part of the code and
  which no operation reads.
\<close>

section \<open>State and operations\<close>

datatype 'k worker_state = Waiting | Running 'k | Exited

text \<open>Where \<open>stop()\<close> stands: not called, joining the n-th worker, draining, running a drained task,
  returned.\<close>

datatype 'k stop_phase = Serving | Joining nat | Draining | Draining_task 'k | Stopped

record 'k thread_pool =
  tp_workers :: "'k worker_state list"
  tp_tasks :: "'k list"
  tp_stopping :: bool
  tp_phase :: "'k stop_phase"
  tp_accepted :: "'k list"
  tp_started :: "'k list"
  tp_finished :: "'k list"

definition new_pool :: "nat \<Rightarrow> 'k thread_pool" where
  "new_pool n =
     \<lparr>tp_workers = replicate n Waiting, tp_tasks = [], tp_stopping = False, tp_phase = Serving,
      tp_accepted = [], tp_started = [], tp_finished = []\<rparr>"

definition pool_submit :: "'k thread_pool \<Rightarrow> 'k \<Rightarrow> bool \<times> 'k thread_pool" where
  "pool_submit p k =
     (if tp_stopping p then (False, p)
      else (True, p\<lparr>tp_tasks := tp_tasks p @ [k], tp_accepted := tp_accepted p @ [k]\<rparr>))"

text \<open>Moving the front of the queue out, as the worker loop and the drain loop of \<open>stop()\<close> do.\<close>

definition pool_pop :: "'k thread_pool \<Rightarrow> 'k option \<times> 'k thread_pool" where
  "pool_pop p =
     (case tp_tasks p of
        [] \<Rightarrow> (None, p)
      | k # ks \<Rightarrow> (Some k, p\<lparr>tp_tasks := ks, tp_started := tp_started p @ [k]\<rparr>))"

text \<open>
  One turn of a worker's loop: it sleeps (\<open>None\<close>) unless the pool is stopping or has a task; awake, it
  takes a task if there is one and exits otherwise.
\<close>

definition worker_turn :: "'k thread_pool \<Rightarrow> ('k worker_state \<times> 'k thread_pool) option" where
  "worker_turn p =
     (if \<not> (tp_stopping p \<or> tp_tasks p \<noteq> []) then None
      else case pool_pop p of
             (None, p) \<Rightarrow> if tp_stopping p then Some (Exited, p) else Some (Waiting, p)
           | (Some k, p) \<Rightarrow> Some (Running k, p))"

definition thread_count :: "'k thread_pool \<Rightarrow> nat" where
  "thread_count p = length (tp_workers p)"

definition pool_pending :: "'k thread_pool \<Rightarrow> nat" where
  "pool_pending p = length (tp_tasks p)"

text \<open>\<open>stop()\<close>, from one of its scheduling points to the next: raise the flag; join the workers in turn;
  clear the vector; run what is left; return. \<open>None\<close> when it has to wait or is not running.\<close>

definition stop_call :: "'k thread_pool \<Rightarrow> 'k thread_pool" where
  "stop_call p = p\<lparr>tp_stopping := True, tp_phase := Joining 0\<rparr>"

definition stop_turn :: "'k thread_pool \<Rightarrow> 'k thread_pool option" where
  "stop_turn p =
     (case tp_phase p of
        Serving \<Rightarrow> None
      | Joining n \<Rightarrow>
          if n < length (tp_workers p)
          then (if tp_workers p ! n = Exited then Some (p\<lparr>tp_phase := Joining (n + 1)\<rparr>) else None)
          else Some (p\<lparr>tp_workers := [], tp_phase := Draining\<rparr>)
      | Draining \<Rightarrow>
          (case pool_pop p of
             (None, p) \<Rightarrow> Some (p\<lparr>tp_phase := Stopped\<rparr>)
           | (Some k, p) \<Rightarrow> Some (p\<lparr>tp_phase := Draining_task k\<rparr>))
      | Draining_task k \<Rightarrow> Some (p\<lparr>tp_phase := Draining, tp_finished := tp_finished p @ [k]\<rparr>)
      | Stopped \<Rightarrow> None)"

interpretation pool_fifo: fifo pool_submit pool_pop tp_tasks
  by unfold_locales (auto simp: pool_submit_def pool_pop_def split: if_splits list.splits)

section \<open>Interleavings\<close>

text \<open>The steps the pool takes by itself, and the calls from outside.\<close>

inductive pool_internal :: "'k thread_pool \<Rightarrow> 'k thread_pool \<Rightarrow> bool" where
  worker_moves: "w < length (tp_workers p) \<Longrightarrow> tp_workers p ! w = Waiting \<Longrightarrow>
    worker_turn p = Some (st, p') \<Longrightarrow> pool_internal p (p'\<lparr>tp_workers := (tp_workers p)[w := st]\<rparr>)"
| worker_done: "w < length (tp_workers p) \<Longrightarrow> tp_workers p ! w = Running k \<Longrightarrow>
    pool_internal p (p\<lparr>tp_workers := (tp_workers p)[w := Waiting], tp_finished := tp_finished p @ [k]\<rparr>)"
| stop_moves: "stop_turn p = Some p' \<Longrightarrow> pool_internal p p'"

inductive pool_step :: "'k thread_pool \<Rightarrow> 'k thread_pool \<Rightarrow> bool" where
  internal: "pool_internal p p' \<Longrightarrow> pool_step p p'"
| submitted: "pool_submit p k = (r, p') \<Longrightarrow> pool_step p p'"
| stop_called: "tp_phase p = Serving \<or> tp_phase p = Stopped \<Longrightarrow> pool_step p (stop_call p)"

inductive pool_reachable :: "nat \<Rightarrow> 'k thread_pool \<Rightarrow> bool" for n where
  pool_start: "pool_reachable n (new_pool n)"
| pool_next: "pool_reachable n p \<Longrightarrow> pool_step p p' \<Longrightarrow> pool_reachable n p'"

section \<open>The invariant\<close>

fun worker_task :: "'k worker_state \<Rightarrow> 'k list" where
  "worker_task (Running k) = [k]"
| "worker_task Waiting = []"
| "worker_task Exited = []"

fun phase_task :: "'k stop_phase \<Rightarrow> 'k list" where
  "phase_task (Draining_task k) = [k]"
| "phase_task p = []"

text \<open>The tasks that have been started and are not finished.\<close>

definition running :: "'k thread_pool \<Rightarrow> 'k multiset" where
  "running p = mset (concat (map worker_task (tp_workers p)) @ phase_task (tp_phase p))"

fun phase_ok :: "'k thread_pool \<Rightarrow> 'k stop_phase \<Rightarrow> bool" where
  "phase_ok p Serving \<longleftrightarrow> \<not> tp_stopping p"
| "phase_ok p (Joining n) \<longleftrightarrow> tp_stopping p \<and> n \<le> length (tp_workers p) \<and> (\<forall>i < n. tp_workers p ! i = Exited)"
| "phase_ok p Draining \<longleftrightarrow> tp_stopping p \<and> tp_workers p = []"
| "phase_ok p (Draining_task k) \<longleftrightarrow> tp_stopping p \<and> tp_workers p = []"
| "phase_ok p Stopped \<longleftrightarrow> tp_stopping p \<and> tp_workers p = [] \<and> tp_tasks p = []"

definition pool_inv :: "'k thread_pool \<Rightarrow> bool" where
  "pool_inv p \<longleftrightarrow>
     tp_accepted p = tp_started p @ tp_tasks p \<and>
     mset (tp_started p) = mset (tp_finished p) + running p \<and>
     phase_ok p (tp_phase p)"

text \<open>What the threads hold together, when one of them changes.\<close>

lemma mset_concat_update:
  assumes "k < length xs"
  shows "mset (concat (map f (xs[k := x]))) + mset (f (xs ! k)) = mset (concat (map f xs)) + mset (f x)"
proof -
  obtain M where M: "mset xs = add_mset (xs ! k) M" using assms by (metis in_multiset_in_set multi_member_split nth_mem)
  have held: "mset (concat (map f ys)) = (\<Sum>y\<in>#mset ys. mset (f y))" for ys by (induction ys) simp_all
  have "mset (xs[k := x]) = add_mset x M" using M assms by (simp add: mset_update)
  then show ?thesis unfolding held M by (simp add: ac_simps)
qed

lemmas running_update = mset_concat_update [where f = worker_task]

lemma running_all_exited: "\<forall>st \<in> set ws. st = Exited \<Longrightarrow> concat (map worker_task ws) = []"
  by auto

lemma worker_turn_cases:
  assumes "worker_turn p = Some (st, p')"
  obtains k ks where "tp_tasks p = k # ks" "st = Running k" "p' = p\<lparr>tp_tasks := ks, tp_started := tp_started p @ [k]\<rparr>"
  | "tp_tasks p = []" "tp_stopping p" "st = Exited" "p' = p"
proof (cases "tp_tasks p")
  case Nil
  then show ?thesis using assms that(2) by (simp add: worker_turn_def pool_pop_def split: if_splits)
next
  case (Cons k ks)
  then show ?thesis using assms that(1) by (simp add: worker_turn_def pool_pop_def)
qed

lemma pool_inv_new: "pool_inv (new_pool n)"
proof -
  have "concat (map worker_task (replicate n Waiting)) = []" by auto
  then show ?thesis by (simp add: pool_inv_def new_pool_def running_def)
qed

text \<open>Exited workers stay exited, so what \<open>stop()\<close> has joined stays joined.\<close>

lemma phase_ok_worker:
  assumes "phase_ok p (tp_phase p)" "w < length (tp_workers p)" "tp_workers p ! w \<noteq> Exited"
    "tp_stopping p' = tp_stopping p" "tp_phase p' = tp_phase p" "tp_workers p' = (tp_workers p)[w := st]"
  shows "phase_ok p' (tp_phase p')"
proof (cases "tp_phase p")
  case (Joining n)
  then have "\<not> w < n" using assms by auto
  then show ?thesis using assms Joining by simp
qed (use assms in auto)

lemma pool_inv_worker_moves:
  assumes inv: "pool_inv p" and w: "w < length (tp_workers p)" "tp_workers p ! w = Waiting"
    and turn: "worker_turn p = Some (st, p')"
  shows "pool_inv (p'\<lparr>tp_workers := (tp_workers p)[w := st]\<rparr>)"
proof -
  have run: "mset (concat (map worker_task ((tp_workers p)[w := st]))) =
      mset (concat (map worker_task (tp_workers p))) + mset (worker_task st)"
    using running_update [OF w(1), of st] w(2) by simp
  have ph: "phase_ok (p'\<lparr>tp_workers := (tp_workers p)[w := st]\<rparr>) (tp_phase p)"
    using phase_ok_worker [of p w "p'\<lparr>tp_workers := (tp_workers p)[w := st]\<rparr>" st] inv w turn
    by (auto simp: pool_inv_def elim!: worker_turn_cases)
  from turn show ?thesis
    by (rule worker_turn_cases) (use inv run ph in \<open>simp_all add: pool_inv_def running_def\<close>)
qed

lemma pool_inv_worker_done:
  assumes inv: "pool_inv p" and w: "w < length (tp_workers p)" "tp_workers p ! w = Running k"
  shows "pool_inv (p\<lparr>tp_workers := (tp_workers p)[w := Waiting], tp_finished := tp_finished p @ [k]\<rparr>)"
proof -
  have "mset (concat (map worker_task (tp_workers p))) =
      add_mset k (mset (concat (map worker_task ((tp_workers p)[w := Waiting]))))"
    using running_update [OF w(1), of Waiting] w(2) by simp
  moreover have "phase_ok (p\<lparr>tp_workers := (tp_workers p)[w := Waiting], tp_finished := tp_finished p @ [k]\<rparr>) (tp_phase p)"
    using phase_ok_worker [of p w "p\<lparr>tp_workers := (tp_workers p)[w := Waiting], tp_finished := tp_finished p @ [k]\<rparr>" Waiting]
      inv w by (simp add: pool_inv_def)
  ultimately show ?thesis using inv by (simp add: pool_inv_def running_def)
qed

lemma stop_turn_cases:
  assumes "stop_turn p = Some p'"
  obtains (joined) n where "tp_phase p = Joining n" "n < length (tp_workers p)" "tp_workers p ! n = Exited"
      "p' = p\<lparr>tp_phase := Joining (n + 1)\<rparr>"
  | (cleared) n where "tp_phase p = Joining n" "length (tp_workers p) \<le> n"
      "p' = p\<lparr>tp_workers := [], tp_phase := Draining\<rparr>"
  | (empty) "tp_phase p = Draining" "tp_tasks p = []" "p' = p\<lparr>tp_phase := Stopped\<rparr>"
  | (drain) k ks where "tp_phase p = Draining" "tp_tasks p = k # ks"
      "p' = p\<lparr>tp_tasks := ks, tp_started := tp_started p @ [k], tp_phase := Draining_task k\<rparr>"
  | (drained) k where "tp_phase p = Draining_task k"
      "p' = p\<lparr>tp_phase := Draining, tp_finished := tp_finished p @ [k]\<rparr>"
proof (cases "tp_phase p")
  case (Joining n)
  then show ?thesis using assms that(1,2) by (cases "n < length (tp_workers p)") (simp_all add: stop_turn_def split: if_splits)
next
  case Draining
  then show ?thesis using assms that(3,4) by (cases "tp_tasks p") (simp_all add: stop_turn_def pool_pop_def)
qed (use assms that(5) in \<open>simp_all add: stop_turn_def\<close>)

lemma pool_inv_stop_moves:
  assumes inv: "pool_inv p" and turn: "stop_turn p = Some p'"
  shows "pool_inv p'"
  using turn
proof (cases rule: stop_turn_cases)
  case (joined n)
  then show ?thesis using inv by (simp add: pool_inv_def running_def less_Suc_eq all_conj_distrib)
next
  case (cleared n)
  then have "\<forall>st \<in> set (tp_workers p). st = Exited"
    using inv by (auto simp: pool_inv_def in_set_conv_nth)
  then have "concat (map worker_task (tp_workers p)) = []" by (rule running_all_exited)
  then show ?thesis using inv cleared by (simp add: pool_inv_def running_def)
qed (use inv in \<open>simp_all add: pool_inv_def running_def\<close>)

lemma pool_internal_inv: "pool_internal p p' \<Longrightarrow> pool_inv p \<Longrightarrow> pool_inv p'"
  by (induction rule: pool_internal.induct)
    (metis pool_inv_worker_moves, metis pool_inv_worker_done, metis pool_inv_stop_moves)

lemma pool_inv_submit: "pool_inv p \<Longrightarrow> pool_submit p k = (r, p') \<Longrightarrow> pool_inv p'"
  by (cases "tp_phase p") (auto simp: pool_submit_def pool_inv_def running_def split: if_splits)

lemma pool_inv_stop_call:
  "pool_inv p \<Longrightarrow> tp_phase p = Serving \<or> tp_phase p = Stopped \<Longrightarrow> pool_inv (stop_call p)"
  by (auto simp: stop_call_def pool_inv_def running_def)

lemma pool_step_inv [bank_inv]: "pool_step p p' \<Longrightarrow> pool_inv p \<Longrightarrow> pool_inv p'"
  by (induction rule: pool_step.induct)
    (blast intro: pool_internal_inv pool_inv_submit pool_inv_stop_call)+

lemma pool_reachable_inv: "pool_reachable n p \<Longrightarrow> pool_inv p"
  by (induction rule: pool_reachable.induct) (blast intro: pool_inv_new pool_step_inv)+

lemma pool_inv_stopped:
  assumes "pool_inv p" "tp_phase p = Stopped"
  shows "tp_started p = tp_accepted p" "mset (tp_finished p) = mset (tp_accepted p)" "tp_workers p = []"
  using assms by (simp_all add: pool_inv_def running_def)

section \<open>Shutdown terminates\<close>

fun worker_work :: "'k worker_state \<Rightarrow> nat" where
  "worker_work Waiting = 1"
| "worker_work (Running k) = 2"
| "worker_work Exited = 0"

fun phase_work :: "'k thread_pool \<Rightarrow> 'k stop_phase \<Rightarrow> nat" where
  "phase_work p Serving = 0"
| "phase_work p (Joining n) = (length (tp_workers p) - n) + 3"
| "phase_work p Draining = 2"
| "phase_work p (Draining_task k) = 3"
| "phase_work p Stopped = 0"

definition pool_work :: "'k thread_pool \<Rightarrow> nat" where
  "pool_work p = 3 * length (tp_tasks p) + sum_list (map worker_work (tp_workers p)) + phase_work p (tp_phase p)"

lemma worker_work_update:
  "w < length ws \<Longrightarrow> sum_list (map worker_work (ws[w := st])) + worker_work (ws ! w) =
    sum_list (map worker_work ws) + worker_work st"
  using sum_list_update [of w "map worker_work ws" "worker_work st"]
    member_le_sum_list [of "worker_work (ws ! w)" "map worker_work ws"]
  by (simp add: map_update)

lemma phase_work_cong: "length (tp_workers p') = length (tp_workers p) \<Longrightarrow> phase_work p' f = phase_work p f"
  by (cases f) simp_all

lemma pool_internal_work: "pool_internal p p' \<Longrightarrow> pool_work p' < pool_work p"
proof (induction rule: pool_internal.induct)
  case (worker_moves w p st p')
  have sum: "sum_list (map worker_work ((tp_workers p)[w := st])) + 1 =
      sum_list (map worker_work (tp_workers p)) + worker_work st"
    using worker_work_update [OF worker_moves(1), of st] worker_moves(2) by simp
  have ph: "phase_work (p'\<lparr>tp_workers := (tp_workers p)[w := st]\<rparr>) f = phase_work p f" for f
    by (rule phase_work_cong) simp
  show ?case
    using worker_moves(3) by (rule worker_turn_cases) (use sum ph in \<open>simp_all add: pool_work_def\<close>)
next
  case (worker_done w p k)
  have sum: "sum_list (map worker_work ((tp_workers p)[w := Waiting])) + 2 =
      sum_list (map worker_work (tp_workers p)) + 1"
    using worker_work_update [OF worker_done(1), of Waiting] worker_done(2) by simp
  have "phase_work (p\<lparr>tp_workers := (tp_workers p)[w := Waiting], tp_finished := tp_finished p @ [k]\<rparr>) f =
      phase_work p f" for f
    by (rule phase_work_cong) simp
  then show ?case using sum by (simp add: pool_work_def)
next
  case (stop_moves p p')
  then show ?case by (cases rule: stop_turn_cases) (simp_all add: pool_work_def)
qed

text \<open>While \<open>stop()\<close> runs, the pool can always take a step by itself.\<close>

lemma pool_inv_stop_progress:
  assumes inv: "pool_inv p" and phase: "tp_phase p \<noteq> Serving" "tp_phase p \<noteq> Stopped"
  shows "\<exists>p'. pool_internal p p'"
proof (cases "stop_turn p")
  case (Some p') then show ?thesis by (blast intro: stop_moves)
next
  case None
  then obtain n where n: "tp_phase p = Joining n" "n < length (tp_workers p)" "tp_workers p ! n \<noteq> Exited"
    using phase by (cases "tp_phase p") (auto simp: stop_turn_def pool_pop_def split: if_splits list.splits)
  then have stop: "tp_stopping p" using inv by (simp add: pool_inv_def)
  show ?thesis
  proof (cases "tp_workers p ! n")
    case Waiting
    have "worker_turn p \<noteq> None" using stop by (simp add: worker_turn_def pool_pop_def split: list.splits)
    then show ?thesis using worker_moves [OF n(2) Waiting] by (metis not_None_eq surj_pair)
  next
    case (Running k) then show ?thesis using worker_done [OF n(2)] by blast
  qed (use n in simp)
qed

lemma pool_internal_stopping:
  "pool_internal p p' \<Longrightarrow> tp_phase p \<noteq> Serving \<Longrightarrow> tp_phase p' \<noteq> Serving"
proof (induction rule: pool_internal.induct)
  case (worker_moves w p st p')
  from worker_moves(3) show ?case by (rule worker_turn_cases) (use worker_moves(4) in simp_all)
next
  case (stop_moves p p')
  from stop_moves(1) show ?case by (rule stop_turn_cases) simp_all
qed simp

lemma pool_inv_stops:
  "pool_inv p \<Longrightarrow> tp_phase p \<noteq> Serving \<Longrightarrow>
   \<exists>p'. pool_internal\<^sup>*\<^sup>* p p' \<and> pool_inv p' \<and> tp_phase p' = Stopped"
proof (induction "pool_work p" arbitrary: p rule: less_induct)
  case less
  show ?case
  proof (cases "tp_phase p = Stopped")
    case True then show ?thesis using less.prems by blast
  next
    case False
    then obtain p1 where "pool_internal p p1" using pool_inv_stop_progress less.prems by blast
    then show ?thesis
      using less.hyps [OF pool_internal_work pool_internal_inv pool_internal_stopping] less.prems
      by (meson converse_rtranclp_into_rtranclp)
  qed
qed

section \<open>Properties\<close>

text \<open>
  C38: \<open>stop()\<close> drops no work. However submitters, workers and a stopping thread interleave, tasks are started
  in the order they were accepted; and when \<open>stop()\<close> has returned, every accepted task has been started and
  finished exactly once, no worker is left, and nothing more is accepted.
\<close>

theorem pool_stop_drops_nothing:
  assumes "pool_reachable n p"
  shows "tp_accepted p = tp_started p @ tp_tasks p \<and>
    (tp_phase p = Stopped \<longrightarrow>
       tp_started p = tp_accepted p \<and> mset (tp_finished p) = mset (tp_accepted p) \<and> tp_workers p = [] \<and>
       (\<forall>k. pool_submit p k = (False, p)))"
  using pool_reachable_inv [OF assms] pool_inv_stopped [OF pool_reachable_inv [OF assms]]
  by (auto simp: pool_inv_def pool_submit_def)

theorem pool_stop_drops_nothing_witness:
  "\<exists>p :: nat thread_pool. pool_reachable 1 p \<and> tp_phase p = Stopped \<and> tp_accepted p = [7] \<and>
     mset (tp_finished p) = {#7#} \<and> fst (pool_submit p 8) = False"
proof -
  define st where "st ws ts stop ph started done =
      \<lparr>tp_workers = ws, tp_tasks = ts, tp_stopping = stop, tp_phase = ph, tp_accepted = [7 :: nat],
       tp_started = started, tp_finished = done\<rparr>" for ws ts stop ph started "done"
  note run = pool_next [OF _ internal]
  have "pool_reachable 1 (st [Waiting] [7] False Serving [] [])"
    by (rule pool_next [OF pool_start submitted [of _ 7 True]]) (simp add: st_def pool_submit_def new_pool_def)
  then have "pool_reachable 1 (st [Running 7] [] False Serving [7] [])"
    by (rule run) (use worker_moves [of 0 "st [Waiting] [7] False Serving [] []"] in
      \<open>simp add: st_def worker_turn_def pool_pop_def\<close>)
  then have "pool_reachable 1 (st [Running 7] [] True (Joining 0) [7] [])"
    by (rule pool_next) (use stop_called [of "st [Running 7] [] False Serving [7] []"] in \<open>simp add: st_def stop_call_def\<close>)
  then have "pool_reachable 1 (st [Waiting] [] True (Joining 0) [7] [7])"
    by (rule run) (use worker_done [of 0 "st [Running 7] [] True (Joining 0) [7] []" 7] in \<open>simp add: st_def\<close>)
  then have "pool_reachable 1 (st [Exited] [] True (Joining 0) [7] [7])"
    by (rule run) (use worker_moves [of 0 "st [Waiting] [] True (Joining 0) [7] [7]"] in
      \<open>simp add: st_def worker_turn_def pool_pop_def\<close>)
  then have "pool_reachable 1 (st [Exited] [] True (Joining 1) [7] [7])"
    by (rule run) (rule stop_moves, simp add: st_def stop_turn_def)
  then have "pool_reachable 1 (st [] [] True Draining [7] [7])"
    by (rule run) (rule stop_moves, simp add: st_def stop_turn_def)
  then have stopped: "pool_reachable 1 (st [] [] True Stopped [7] [7])"
    by (rule run) (rule stop_moves, simp add: st_def stop_turn_def pool_pop_def)
  let ?p = "st [] [] True Stopped [7] [7]"
  have shape: "tp_phase ?p = Stopped" "tp_accepted ?p = [7]" by (simp_all add: st_def)
  then have "mset (tp_finished ?p) = {#7#}" "pool_submit ?p 8 = (False, ?p)"
    using pool_stop_drops_nothing [OF stopped, THEN conjunct2, THEN mp, OF shape(1)] by simp_all
  then show ?thesis using stopped shape by (intro exI [of _ ?p]) simp
qed

text \<open>
  C39: \<open>stop()\<close> returns, given that the tasks do. Once it has been called, the pool can run by itself to the
  state in which it has returned, it can never get stuck on the way, and it cannot run for ever.
\<close>

theorem pool_stop_returns:
  fixes p :: "'k thread_pool"
  assumes "pool_reachable n p" "tp_phase p \<noteq> Serving"
  shows "(\<exists>p'. pool_internal\<^sup>*\<^sup>* p p' \<and> tp_phase p' = Stopped) \<and>
    (tp_phase p \<noteq> Stopped \<longrightarrow> (\<exists>p'. pool_internal p p')) \<and>
    wfP (\<lambda>p' p. pool_internal (p :: 'k thread_pool) p')"
proof (intro conjI)
  note inv = pool_reachable_inv [OF assms(1)]
  show "\<exists>p'. pool_internal\<^sup>*\<^sup>* p p' \<and> tp_phase p' = Stopped" using pool_inv_stops [OF inv assms(2)] by blast
  show "tp_phase p \<noteq> Stopped \<longrightarrow> (\<exists>p'. pool_internal p p')" using pool_inv_stop_progress [OF inv assms(2)] by blast
  show "wfP (\<lambda>p' p. pool_internal (p :: 'k thread_pool) p')"
    by (rule wfp_if_convertible_to_nat [of _ pool_work]) (rule pool_internal_work)
qed

theorem pool_stop_returns_witness:
  "\<exists>p'. pool_internal\<^sup>*\<^sup>* (stop_call (snd (pool_submit (new_pool 2) (7 :: nat)))) p' \<and> tp_phase p' = Stopped"
proof -
  have "pool_reachable 2 (snd (pool_submit (new_pool 2) (7 :: nat)))"
    by (rule pool_next [OF pool_start submitted]) (rule prod.collapse [symmetric])
  then have "pool_reachable 2 (stop_call (snd (pool_submit (new_pool 2) (7 :: nat))))"
    by (rule pool_next [OF _ stop_called]) (simp add: pool_submit_def new_pool_def)
  moreover have "tp_phase (stop_call (snd (pool_submit (new_pool 2) (7 :: nat)))) \<noteq> Serving" by (simp add: stop_call_def)
  ultimately show ?thesis by (rule pool_stop_returns [THEN conjunct1])
qed

end
