(* ===== verification/Bank_Shutdown.thy ===== *)
theory Bank_Shutdown
  imports Bank_Sample Bank_Pool
begin

text \<open>
  The shutdown of src/concurrency/TransactionProcessor.cpp with any number of consumers: after \<open>stop()\<close> was
  called, the consumers empty the queue and exit, and everything that was submitted has been processed.
\<close>

section \<open>What the consumers hold\<close>

fun held_txns :: "consumer \<Rightarrow> transaction list" where
  "held_txns (Has_txn t) = [t]"
| "held_txns (Has_both t i) = [t]"
| "held_txns At_pop = []"
| "held_txns Gone = []"

fun held_ids :: "consumer \<Rightarrow> transaction_id list" where
  "held_ids (Has_both t i) = [i]"
| "held_ids (Has_txn t) = []"
| "held_ids At_pop = []"
| "held_ids Gone = []"

text \<open>The consumers that have a transaction and not yet its id; each has an id reserved for it.\<close>

fun lacks_id :: "consumer \<Rightarrow> unit list" where
  "lacks_id (Has_txn t) = [()]"
| "lacks_id (Has_both t i) = []"
| "lacks_id At_pop = []"
| "lacks_id Gone = []"

definition held :: "(consumer \<Rightarrow> 'x list) \<Rightarrow> consumer list \<Rightarrow> 'x multiset" where
  "held f cs = mset (concat (map f cs))"

definition drain_inv :: "('a, 't, 'u) consumer_system \<Rightarrow> bool" where
  "drain_inv s \<longleftrightarrow>
     (let p = cs_proc s
      in mset (map fst (cs_submitted s)) = mset (map fst (cs_processed s)) + held held_txns (cs_consumers s) + mset (tq_queue (pr_queue p)) \<and>
         mset (map snd (cs_submitted s)) = mset (map snd (cs_processed s)) + held held_ids (cs_consumers s) + mset (pr_reserved p) \<and>
         length (pr_reserved p) = size (held lacks_id (cs_consumers s)) + length (tq_queue (pr_queue p)) \<and>
         \<not> tq_closed (pr_queue p) \<and> (cs_stop s \<longrightarrow> \<not> pr_accepting p) \<and>
         (Gone \<in> set (cs_consumers s) \<longrightarrow> cs_stop s \<and> tq_queue (pr_queue p) = []))"

lemma held_update:
  assumes "k < length cs" "cs ! k = c"
  shows "held f (cs[k := c']) + mset (f c) = held f cs + mset (f c')"
  using mset_concat_update [OF assms(1), of f c'] assms(2) by (simp add: held_def)

lemma gone_update: "Gone \<in> set (cs[k := c]) \<Longrightarrow> c \<noteq> Gone \<Longrightarrow> Gone \<in> set cs"
  using set_update_subset_insert [of cs k c] by auto

lemma drain_inv_step [bank_inv]:
  assumes "consumer_step repos s s'" "drain_inv s"
  shows "drain_inv s'"
  using assms(1)
proof (cases rule: consumer_step.cases)
  case (client_submits t i p)
  have "pr_accepting p" using client_submits(2) by (auto simp: submit_def fresh_id_def Let_def split: if_splits prod.splits bool.splits)
  moreover note submit_success [OF client_submits(2)]
  ultimately show ?thesis using assms(2) by (auto simp: client_submits(1) drain_inv_def Let_def)
next
  case (consumer_pops c t q)
  note held = held_update [OF consumer_pops(2,3), where c' = "Has_txn t"]
  have q: "tq_queue (pr_queue (cs_proc s)) = t # tq_queue q" "tq_closed q = tq_closed (pr_queue (cs_proc s))"
    using consumer_pops(4) by (simp_all add: wait_pop_Some)
  show ?thesis using assms(2) q held [of held_txns] held [of held_ids] arg_cong [OF held [of lacks_id], of size]
    by (auto simp: consumer_pops(1) drain_inv_def Let_def dest!: gone_update)
next
  case (consumer_exits c q)
  note held = held_update [OF consumer_exits(2,3), where c' = "Gone"]
  have q: "tq_queue (pr_queue (cs_proc s)) = []" "q = pr_queue (cs_proc s)" "cs_stop s"
    using consumer_exits(4) assms(2) by (auto simp: wait_pop_None drain_inv_def Let_def)
  show ?thesis using assms(2) q held [of held_txns] held [of held_ids] arg_cong [OF held [of lacks_id], of size]
    by (auto simp: consumer_exits(1) drain_inv_def Let_def)
next
  case (consumer_takes_id c t i p)
  note held = held_update [OF consumer_takes_id(2,3), where c' = "Has_both t i"]
  have "pr_reserved (cs_proc s) \<noteq> []"
    using assms(2) held [of lacks_id] by (auto simp: drain_inv_def Let_def)
  then obtain rest where r: "pr_reserved (cs_proc s) = i # rest" "p = (cs_proc s)\<lparr>pr_reserved := rest\<rparr>"
    using consumer_takes_id(4) by (cases "pr_reserved (cs_proc s)") (auto simp: take_reserved_id_def)
  show ?thesis using assms(2) r held [of held_txns] held [of held_ids] arg_cong [OF held [of lacks_id], of size]
    by (auto simp: consumer_takes_id(1) drain_inv_def Let_def dest!: gone_update)
next
  case (consumer_runs c t i env r p)
  note held = held_update [OF consumer_runs(2,3), where c' = At_pop]
  have "pr_queue p = pr_queue (cs_proc s)" "pr_reserved p = pr_reserved (cs_proc s)" "pr_accepting p = pr_accepting (cs_proc s)"
    using process_impl_intake [OF consumer_runs(4)] by (simp_all add: same_intake_def)
  then show ?thesis using assms(2) held [of held_txns] held [of held_ids] arg_cong [OF held [of lacks_id], of size]
    by (auto simp: consumer_runs(1) drain_inv_def Let_def dest!: gone_update)
next
  case stop_requested
  then show ?thesis using assms(2) by (auto simp: drain_inv_def Let_def stop_accepting_def)
qed

lemma drain_inv_start:
  assumes "length (pr_reserved p) = length (tq_queue (pr_queue p))" "\<not> tq_closed (pr_queue p)"
  shows "drain_inv (start_consumers p)"
  using assms by (auto simp: drain_inv_def start_consumers_def start_processor_def Let_def held_def)

lemma drain_inv_run: "(consumer_step repos)\<^sup>*\<^sup>* s s' \<Longrightarrow> drain_inv s \<Longrightarrow> drain_inv s'"
  by (induction rule: rtranclp_induct) (auto intro: drain_inv_step)

lemma consumers_stay: "(consumer_step repos)\<^sup>*\<^sup>* s s' \<Longrightarrow> length (cs_consumers s') = length (cs_consumers s)"
  by (induction rule: rtranclp_induct) (auto elim: consumer_step.cases)

text \<open>When all consumers have gone, nothing waits and nothing is held.\<close>

lemma queue_worked_off:
  assumes "drain_inv s" "\<forall>c \<in> set (cs_consumers s). c = Gone" "cs_consumers s \<noteq> []"
  shows "tq_queue (pr_queue (cs_proc s)) = []" "pr_reserved (cs_proc s) = []"
    "mset (map fst (cs_processed s)) = mset (map fst (cs_submitted s))"
    "mset (map snd (cs_processed s)) = mset (map snd (cs_submitted s))"
proof -
  have "held f (cs_consumers s) = {#}" if "f Gone = []" for f :: "consumer \<Rightarrow> 'x list"
    using assms(2) that by (auto simp: held_def)
  note none = this [of held_txns] this [of held_ids] this [of lacks_id]
  have "Gone \<in> set (cs_consumers s)" using assms(2,3) by (cases "cs_consumers s") auto
  then show "tq_queue (pr_queue (cs_proc s)) = []" "pr_reserved (cs_proc s) = []"
    "mset (map fst (cs_processed s)) = mset (map fst (cs_submitted s))"
    "mset (map snd (cs_processed s)) = mset (map snd (cs_submitted s))"
    using assms(1) none by (auto simp: drain_inv_def Let_def)
qed

section \<open>The way to the end\<close>

text \<open>A step of a consumer, and what the consumers still have to do.\<close>

definition consumer_moves ::
  "('a, 't, 'u) repositories \<Rightarrow> ('a, 't, 'u) consumer_system \<Rightarrow> ('a, 't, 'u) consumer_system \<Rightarrow> bool" where
  "consumer_moves repos s s' \<longleftrightarrow> consumer_step repos s s' \<and> cs_consumers s' \<noteq> cs_consumers s"

fun consumer_work :: "consumer \<Rightarrow> nat" where
  "consumer_work Gone = 0"
| "consumer_work At_pop = 1"
| "consumer_work (Has_both t i) = 2"
| "consumer_work (Has_txn t) = 3"

definition drain_work :: "('a, 't, 'u) consumer_system \<Rightarrow> nat" where
  "drain_work s = 3 * length (tq_queue (pr_queue (cs_proc s))) + sum_list (map consumer_work (cs_consumers s))"

lemma consumer_work_update:
  assumes "k < length cs" "cs ! k = c"
  shows "sum_list (map consumer_work (cs[k := c'])) + consumer_work c = sum_list (map consumer_work cs) + consumer_work c'"
  using sum_list_update [of k "map consumer_work cs" "consumer_work c'"]
    member_le_sum_list [of "consumer_work c" "map consumer_work cs"] assms nth_mem [OF assms(1)]
  by (simp add: map_update)

lemma consumer_moves_work:
  assumes "consumer_moves repos s s'"
  shows "drain_work s' < drain_work s \<and> cs_stop s' = cs_stop s \<and> cs_submitted s' = cs_submitted s"
proof -
  have step: "consumer_step repos s s'" and new: "cs_consumers s' \<noteq> cs_consumers s"
    using assms by (simp_all add: consumer_moves_def)
  from step show ?thesis
  proof (cases rule: consumer_step.cases)
    case (consumer_pops c t q)
    then have "tq_queue (pr_queue (cs_proc s)) = t # tq_queue q" by (simp add: wait_pop_Some)
    then show ?thesis using consumer_work_update [OF consumer_pops(2,3), of "Has_txn t"]
      by (simp add: consumer_pops(1) drain_work_def)
  next
    case (consumer_exits c q)
    then have "q = pr_queue (cs_proc s)" by (simp add: wait_pop_None)
    then show ?thesis using consumer_work_update [OF consumer_exits(2,3), of Gone]
      by (simp add: consumer_exits(1) drain_work_def)
  next
    case (consumer_takes_id c t i p)
    then have "pr_queue p = pr_queue (cs_proc s)" by (auto simp: take_reserved_id_def fresh_id_def split: list.splits)
    then show ?thesis using consumer_work_update [OF consumer_takes_id(2,3), of "Has_both t i"]
      by (simp add: consumer_takes_id(1) drain_work_def)
  next
    case (consumer_runs c t i env r p)
    have "pr_queue p = pr_queue (cs_proc s)" using process_impl_intake [OF consumer_runs(4)] by (simp add: same_intake_def)
    then show ?thesis using consumer_work_update [OF consumer_runs(2,3), of At_pop]
      by (simp add: consumer_runs(1) drain_work_def)
  qed (use new in simp_all)
qed

lemma consumer_moves_keep:
  "(consumer_moves repos)\<^sup>*\<^sup>* s s' \<Longrightarrow>
   (consumer_step repos)\<^sup>*\<^sup>* s s' \<and> cs_stop s' = cs_stop s \<and> cs_submitted s' = cs_submitted s"
proof (induction rule: rtranclp_induct)
  case (step s1 s2)
  then show ?case using consumer_moves_work [OF step(2)] by (auto simp: consumer_moves_def)
qed simp

text \<open>A step that changes one consumer is such a step.\<close>

lemma consumer_moves_update:
  "consumer_step repos s s' \<Longrightarrow> k < length (cs_consumers s) \<Longrightarrow> cs_consumers s' ! k \<noteq> cs_consumers s ! k \<Longrightarrow>
   \<exists>s'. consumer_moves repos s s'"
  unfolding consumer_moves_def by metis

context reliable_stores begin

lemma consumer_progress:
  assumes stop: "cs_stop s" and k: "k < length (cs_consumers s)" and busy: "cs_consumers s ! k \<noteq> Gone"
  shows "\<exists>s'. consumer_moves repos s s'"
proof (cases "cs_consumers s ! k")
  case At_pop
  show ?thesis
  proof (cases "tq_queue (pr_queue (cs_proc s))")
    case Nil
    then have "wait_pop (cs_stop s) (pr_queue (cs_proc s)) = (Returns None, pr_queue (cs_proc s))"
      using stop by (simp add: wait_pop_None)
    from consumer_exits [OF k At_pop this] show ?thesis
      by (rule consumer_moves_update [OF _ k]) (use k At_pop in simp)
  next
    case (Cons t ts)
    then have "wait_pop (cs_stop s) (pr_queue (cs_proc s)) = (Returns (Some t), (pr_queue (cs_proc s))\<lparr>tq_queue := ts\<rparr>)"
      by (simp add: wait_pop_Some)
    from consumer_pops [OF k At_pop this] show ?thesis
      by (rule consumer_moves_update [OF _ k]) (use k At_pop in simp)
  qed
next
  case (Has_txn t)
  obtain i p where "take_reserved_id (cs_proc s) = (i, p)" by fastforce
  from consumer_takes_id [OF k Has_txn this] show ?thesis
    by (rule consumer_moves_update [OF _ k]) (use k Has_txn in simp)
next
  case (Has_both t i)
  fix env
  obtain r p where "process_impl repos env t i (cs_proc s) = (Inr r, p)" using process_impl_total by blast
  from consumer_runs [OF k Has_both this] show ?thesis
    by (rule consumer_moves_update [OF _ k]) (use k Has_both in simp)
qed (use busy in simp)

lemma consumers_leave:
  "cs_stop s \<Longrightarrow> \<exists>s'. (consumer_moves repos)\<^sup>*\<^sup>* s s' \<and> (\<forall>c \<in> set (cs_consumers s'). c = Gone)"
proof (induction "drain_work s" arbitrary: s rule: less_induct)
  case less
  show ?case
  proof (cases "\<forall>c \<in> set (cs_consumers s). c = Gone")
    case True then show ?thesis by blast
  next
    case False
    then obtain k where "k < length (cs_consumers s)" "cs_consumers s ! k \<noteq> Gone" by (auto simp: in_set_conv_nth)
    then obtain s1 where s1: "consumer_moves repos s s1" using consumer_progress less.prems by blast
    have "drain_work s1 < drain_work s" "cs_stop s1" using consumer_moves_work [OF s1] less.prems by simp_all
    from less.hyps [OF this] s1 show ?thesis by (meson converse_rtranclp_into_rtranclp)
  qed
qed

end

section \<open>Property\<close>

text \<open>
  C20: \<open>stop()\<close> drains the queue, on the in-memory repositories and with any number of consumers but none. Start
  the consumers of a processor whose queue is open and holds as many transactions as there are reserved ids.
  From every state in which \<open>stop()\<close> has been called, the consumers only have finitely many steps left, after
  which they have all exited; nothing more is accepted meanwhile; and then the queue is empty, every
  transaction that \<open>submit\<close> accepted, or that was queued before, has been processed exactly once, and the ids
  they were processed under are exactly those reserved for them. Without a consumer nothing is processed, and a
  repository that throws ends the program; neither is covered.
\<close>

theorem stop_drains_queue:
  assumes "(consumer_step mem_repositories)\<^sup>*\<^sup>* (start_consumers p) s" "cs_stop s" "pr_worker_count p \<noteq> 0"
    "length (pr_reserved p) = length (tq_queue (pr_queue p))" "\<not> tq_closed (pr_queue p)"
  shows "wfP (\<lambda>s' s. consumer_moves mem_repositories s s') \<and>
    (\<exists>s'. (consumer_moves mem_repositories)\<^sup>*\<^sup>* s s' \<and> (\<forall>c \<in> set (cs_consumers s'). c = Gone)) \<and>
    (\<forall>s'. (consumer_moves mem_repositories)\<^sup>*\<^sup>* s s' \<longrightarrow> (\<forall>c \<in> set (cs_consumers s'). c = Gone) \<longrightarrow>
      tq_queue (pr_queue (cs_proc s')) = [] \<and> pr_reserved (cs_proc s') = [] \<and> cs_submitted s' = cs_submitted s \<and>
      mset (map fst (cs_processed s')) = mset (map fst (cs_submitted s)) \<and>
      mset (map snd (cs_processed s')) = mset (map snd (cs_submitted s)))"
proof (intro conjI allI impI)
  show "wfP (\<lambda>s' s. consumer_moves mem_repositories s s')"
    by (rule wfp_if_convertible_to_nat [of _ drain_work]) (use consumer_moves_work in blast)
  show "\<exists>s'. (consumer_moves mem_repositories)\<^sup>*\<^sup>* s s' \<and> (\<forall>c \<in> set (cs_consumers s'). c = Gone)"
    by (rule mem.consumers_leave [OF assms(2)])
  fix s' assume moves: "(consumer_moves mem_repositories)\<^sup>*\<^sup>* s s'" and gone: "\<forall>c \<in> set (cs_consumers s'). c = Gone"
  have run: "(consumer_step mem_repositories)\<^sup>*\<^sup>* (start_consumers p) s'" and same: "cs_submitted s' = cs_submitted s"
    using assms(1) consumer_moves_keep [OF moves] by auto
  have "drain_inv s'" by (rule drain_inv_run [OF run drain_inv_start [OF assms(4,5)]])
  moreover have "length (cs_consumers s') = pr_worker_count p"
    using consumers_stay [OF run] by (simp add: start_consumers_def start_processor_def Let_def)
  then have "cs_consumers s' \<noteq> []" using assms(3) by auto
  ultimately show "tq_queue (pr_queue (cs_proc s')) = []" "pr_reserved (cs_proc s') = []" "cs_submitted s' = cs_submitted s"
    "mset (map fst (cs_processed s')) = mset (map fst (cs_submitted s))"
    "mset (map snd (cs_processed s')) = mset (map snd (cs_submitted s))"
    using queue_worked_off [OF _ gone] same by simp_all
qed

theorem stop_drains_queue_witness:
  "\<exists>p s. (consumer_step mem_repositories)\<^sup>*\<^sup>* (start_consumers p) s \<and>
     cs_submitted s = [(sample_transfer, Id 1), (sample_transfer, Id 2)] \<and>
     (\<forall>c \<in> set (cs_consumers s). c = Gone) \<and> length (cs_consumers s) = 2 \<and>
     tq_queue (pr_queue (cs_proc s)) = [] \<and> mset (map snd (cs_processed s)) = {#Id 1, Id 2#}"
proof -
  define p where "p = sample_processor\<lparr>pr_worker_count := 2, pr_reserved := [Id 1, Id 2],
    pr_queue := new_queue\<lparr>tq_queue := [sample_transfer, sample_transfer]\<rparr>, pr_next_id := 3\<rparr>"
  let ?s = "(start_consumers p)\<lparr>cs_proc := stop_accepting (cs_proc (start_consumers p)), cs_stop := True\<rparr>"
  have p: "pr_worker_count p \<noteq> 0" "length (pr_reserved p) = length (tq_queue (pr_queue p))" "\<not> tq_closed (pr_queue p)"
    by (simp_all add: p_def new_queue_def)
  have stopped: "(consumer_step mem_repositories)\<^sup>*\<^sup>* (start_consumers p) ?s" by (rule r_into_rtranclp) (rule stop_requested)
  have sub: "cs_submitted ?s = [(sample_transfer, Id 1), (sample_transfer, Id 2)]"
    by (simp add: start_consumers_def start_processor_def p_def Let_def)
  note drains = stop_drains_queue [OF stopped _ p]
  obtain s where s: "(consumer_moves mem_repositories)\<^sup>*\<^sup>* ?s s" "\<forall>c \<in> set (cs_consumers s). c = Gone"
    using drains by auto
  have "length (cs_consumers s) = 2"
    using consumers_stay [OF conjunct1 [OF consumer_moves_keep [OF s(1)]]]
    by (simp add: start_consumers_def start_processor_def p_def Let_def)
  moreover have "tq_queue (pr_queue (cs_proc s)) = []" "cs_submitted s = cs_submitted ?s"
    "mset (map snd (cs_processed s)) = mset (map snd (cs_submitted ?s))" using drains s by auto
  moreover have "(consumer_step mem_repositories)\<^sup>*\<^sup>* (start_consumers p) s"
    using stopped consumer_moves_keep [OF s(1)] by auto
  ultimately show ?thesis using s(2) sub by (intro exI [of _ p] exI [of _ s]) simp
qed

end
