(* ===== verification/Bank_Sqlite.thy ===== *)
theory Bank_Sqlite
  imports Bank_Repositories
begin

text \<open>
  src/persistence/Sqlite*.h/.cpp: the connection, the statement helpers, the row readers and the four
  repositories. The SQLite library is not part of the repository: its calls are the fields of the
  record \<open>sqlite\<close>, an argument of every definition. A result code comes with the message that
  \<open>sqlite3_errmsg\<close> gives after the call. What is relied on of the library is stated where it is used, in
  \<open>Bank_Sqlite_Tables\<close>.

  \<open>sq_run\<close> is the run of a prepared statement with its bindings: the rows that \<open>sqlite3_step\<close> hands out one
  by one, the code of the step that ends the run, and the connection after it. A run has finitely many
  rows, so the loops over \<open>sqlite3_step\<close> end. Only the values that the source binds occur in rows (no
  reals, no blobs).
\<close>

section \<open>The library\<close>

datatype sql_value = Sql_null | Sql_int i64 | Sql_text string

type_synonym sql_row = "sql_value list"
type_synonym sql_code = "int \<times> string"
type_synonym sql_binds = "(nat \<times> sql_value) list"

abbreviation SQLITE_OK :: int where "SQLITE_OK \<equiv> 0"
abbreviation SQLITE_ROW :: int where "SQLITE_ROW \<equiv> 100"
abbreviation SQLITE_DONE :: int where "SQLITE_DONE \<equiv> 101"

record 'db sqlite =
  sq_open :: "string \<Rightarrow> sql_code \<times> 'db option"
  sq_exec :: "'db \<Rightarrow> string \<Rightarrow> int \<times> string option \<times> 'db"
  sq_prepare :: "'db \<Rightarrow> string \<Rightarrow> sql_code"
  sq_bind :: "'db \<Rightarrow> string \<Rightarrow> nat \<Rightarrow> sql_value \<Rightarrow> sql_code"
  sq_run :: "'db \<Rightarrow> string \<Rightarrow> sql_binds \<Rightarrow> sql_row list \<times> sql_code \<times> 'db"
  sq_int_of_text :: "string \<Rightarrow> i64"

section \<open>SqliteDatabase\<close>

definition schema_sql :: string where
  "schema_sql =
     ''CREATE TABLE IF NOT EXISTS customers (  id            INTEGER PRIMARY KEY,  name          TEXT    NOT NULL,'' @
     ''  pin_algorithm TEXT    NOT NULL,  pin_salt      TEXT    NOT NULL,  pin_digest    TEXT    NOT NULL,'' @
     ''  role          TEXT    NOT NULL);'' @
     ''CREATE TABLE IF NOT EXISTS accounts (  id            INTEGER PRIMARY KEY,'' @
     ''  owner_id      INTEGER NOT NULL REFERENCES customers(id),  balance_cents INTEGER NOT NULL,'' @
     ''  status        TEXT    NOT NULL,  version       INTEGER NOT NULL);'' @
     ''CREATE TABLE IF NOT EXISTS transactions (  id           INTEGER PRIMARY KEY,  timestamp_ms INTEGER NOT NULL,'' @
     ''  type         TEXT    NOT NULL,  state        TEXT    NOT NULL,  from_id      INTEGER,'' @
     ''  to_id        INTEGER,  amount_cents INTEGER NOT NULL);'' @
     ''CREATE TABLE IF NOT EXISTS audit_log (  id           INTEGER PRIMARY KEY,  timestamp_ms INTEGER NOT NULL,'' @
     ''  actor_id     INTEGER NOT NULL,  action       TEXT    NOT NULL,  details      TEXT    NOT NULL);''"

definition initialize_schema :: "'db sqlite \<Rightarrow> ('db, unit) io" where
  "initialize_schema api db =
     (case sq_exec api db schema_sql of
        (rc, err, db) \<Rightarrow>
          if rc \<noteq> SQLITE_OK
          then (Inl (Runtime_error (''schema initialization failed: '' @
                  (case err of Some msg \<Rightarrow> msg | None \<Rightarrow> ''unknown schema error''))), db)
          else (Inr (), db))"

text \<open>
  The constructor, and the connection that is open when it ends. An exception of the constructor body
  does not run the destructor.
\<close>

definition open_database :: "'db sqlite \<Rightarrow> string \<Rightarrow> (exn + unit) \<times> 'db option" where
  "open_database api path =
     (case sq_open api path of
        (rc, handle) \<Rightarrow>
          (case (if fst rc \<noteq> SQLITE_OK then None else handle) of
             None \<Rightarrow>
               (Inl (Runtime_error (''cannot open database '' @ path @ '': '' @
                  (if handle \<noteq> None then snd rc else ''sqlite3_open_v2 failed''))), None)
           | Some db \<Rightarrow>
               (let db = foldl (\<lambda>db pragma. snd (snd (sq_exec api db pragma))) db
                      [''PRAGMA journal_mode=WAL;'', ''PRAGMA synchronous=FULL;'', ''PRAGMA foreign_keys=ON;'']
                in map_prod id Some (initialize_schema api db))))"

section \<open>Statements\<close>

record 'db statement =
  st_db :: 'db
  st_sql :: string
  st_binds :: sql_binds
  st_pending :: "(sql_row list \<times> sql_code) option"
  st_row :: sql_row

definition expect_ok :: "sql_code \<Rightarrow> string \<Rightarrow> ('s, unit) io" where
  "expect_ok rc what s =
     (if fst rc = SQLITE_OK \<or> fst rc = SQLITE_ROW \<or> fst rc = SQLITE_DONE then (Inr (), s)
      else (Inl (Runtime_error (what @ '' failed: '' @ snd rc)), s))"

text \<open>The life of a \<open>Statement\<close>: prepared, used, finalized when the block is left in any way.\<close>

definition with_statement :: "'db sqlite \<Rightarrow> string \<Rightarrow> string \<Rightarrow> ('db statement, 'a) io \<Rightarrow> ('db, 'a) io" where
  "with_statement api sql what body db =
     (let rc = sq_prepare api db sql
      in if fst rc \<noteq> SQLITE_OK
         then (Inl (Runtime_error (what @ '' prepare failed: '' @ snd rc)), db)
         else map_prod id st_db
                (body \<lparr>st_db = db, st_sql = sql, st_binds = [], st_pending = None, st_row = []\<rparr>))"

definition bind_value :: "'db sqlite \<Rightarrow> string \<Rightarrow> nat \<Rightarrow> sql_value \<Rightarrow> ('db statement, unit) io" where
  "bind_value api what i v st =
     io_bind (expect_ok (sq_bind api (st_db st) (st_sql st) i v) what)
       (\<lambda>_ st. (Inr (), st\<lparr>st_binds := st_binds st @ [(i, v)]\<rparr>)) st"

definition bind_i64 :: "'db sqlite \<Rightarrow> nat \<Rightarrow> i64 \<Rightarrow> ('db statement, unit) io" where
  "bind_i64 api i n = bind_value api ''bind int64'' i (Sql_int n)"

definition bind_text :: "'db sqlite \<Rightarrow> nat \<Rightarrow> string \<Rightarrow> ('db statement, unit) io" where
  "bind_text api i s = bind_value api ''bind text'' i (Sql_text s)"

definition bind_integer_id :: "'db sqlite \<Rightarrow> nat \<Rightarrow> account_id option \<Rightarrow> ('db statement, unit) io" where
  "bind_integer_id api i x =
     (case x of Some a \<Rightarrow> bind_i64 api i (id_value a) | None \<Rightarrow> bind_value api ''bind null'' i Sql_null)"

text \<open>\<open>sqlite3_step\<close>: the first call runs the statement, each call hands out a row or the final code.\<close>

definition sql_step :: "'db sqlite \<Rightarrow> 'db statement \<Rightarrow> sql_code \<times> 'db statement" where
  "sql_step api st =
     (let st = (if st_pending st = None
                then case sq_run api (st_db st) (st_sql st) (st_binds st) of
                       (rows, rc, db) \<Rightarrow> st\<lparr>st_db := db, st_pending := Some (rows, rc)\<rparr>
                else st)
      in case the (st_pending st) of
           ([], rc) \<Rightarrow> (rc, st)
         | (r # rows, rc) \<Rightarrow> ((SQLITE_ROW, []), st\<lparr>st_pending := Some (rows, rc), st_row := r\<rparr>))"

section \<open>Columns and row readers\<close>

text \<open>A column that is not there reads as NULL; \<open>std::string(const char*)\<close> ends at the first NUL.\<close>

definition column :: "sql_row \<Rightarrow> nat \<Rightarrow> sql_value" where
  "column r i = (if i < length r then r ! i else Sql_null)"

definition c_string :: "string \<Rightarrow> string" where
  "c_string s = takeWhile (\<lambda>c. c \<noteq> CHR 0x00) s"

definition column_i64 :: "'db sqlite \<Rightarrow> sql_row \<Rightarrow> nat \<Rightarrow> i64" where
  "column_i64 api r i =
     (case column r i of Sql_int n \<Rightarrow> n | Sql_null \<Rightarrow> 0 | Sql_text s \<Rightarrow> sq_int_of_text api s)"

definition column_text :: "sql_row \<Rightarrow> nat \<Rightarrow> string" where
  "column_text r i =
     (case column r i of Sql_null \<Rightarrow> [] | Sql_int n \<Rightarrow> to_string_i64 n | Sql_text s \<Rightarrow> c_string s)"

definition read_account :: "'db sqlite \<Rightarrow> sql_row \<Rightarrow> exn + account" where
  "read_account api r =
     bind_exn (Money (column_i64 api r 2)) (\<lambda>balance.
       case account_status_from_string (column_text r 3) of
         None \<Rightarrow> Inl (Runtime_error ''corrupt account row: unknown status'')
       | Some status \<Rightarrow>
           Inr \<lparr>acc_id = Id (column_i64 api r 0), acc_owner_id = Id (column_i64 api r 1), acc_balance = balance,
                acc_status = status, acc_version = column_i64 api r 4\<rparr>)"

definition read_customer :: "'db sqlite \<Rightarrow> sql_row \<Rightarrow> exn + customer" where
  "read_customer api r =
     (case role_from_string (column_text r 5) of
        None \<Rightarrow> Inl (Runtime_error ''corrupt customer row: unknown role'')
      | Some role \<Rightarrow>
          Inr \<lparr>cust_id = Id (column_i64 api r 0), cust_name = column_text r 1,
               cust_pin_hash = \<lparr>ph_algorithm = column_text r 2, ph_salt = column_text r 3, ph_digest = column_text r 4\<rparr>,
               cust_role = role\<rparr>)"

definition read_leg :: "'db sqlite \<Rightarrow> sql_row \<Rightarrow> nat \<Rightarrow> account_id option" where
  "read_leg api r i = (if column r i = Sql_null then None else Some (Id (column_i64 api r i)))"

definition read_transaction :: "'db sqlite \<Rightarrow> sql_row \<Rightarrow> exn + transaction_record" where
  "read_transaction api r =
     (case (transaction_type_from_string (column_text r 2), transaction_state_from_string (column_text r 3)) of
        (Some type, Some state) \<Rightarrow>
          bind_exn (Money (column_i64 api r 6)) (\<lambda>amount.
            Inr \<lparr>rec_id = Id (column_i64 api r 0), rec_timestamp = from_unix_ms (column_i64 api r 1),
                 rec_type = type, rec_state = state, rec_from = read_leg api r 4, rec_to = read_leg api r 5,
                 rec_amount = amount\<rparr>)
      | _ \<Rightarrow> Inl (Runtime_error ''corrupt transaction row''))"

definition read_audit :: "'db sqlite \<Rightarrow> sql_row \<Rightarrow> exn + audit_entry" where
  "read_audit api r =
     Inr \<lparr>ae_id = column_i64 api r 0, ae_timestamp = from_unix_ms (column_i64 api r 1),
          ae_actor_id = Id (column_i64 api r 2), ae_action = column_text r 3, ae_details = column_text r 4\<rparr>"

section \<open>Queries and updates\<close>

text \<open>A query for one row: no row when the first step is done, an exception when it fails.\<close>

definition query_one :: "'db sqlite \<Rightarrow> string \<Rightarrow> (sql_row \<Rightarrow> exn + 'a) \<Rightarrow> ('db statement, 'a option) io" where
  "query_one api what read st =
     (case sql_step api st of
        (rc, st) \<Rightarrow>
          if fst rc = SQLITE_DONE then (Inr None, st)
          else io_bind (expect_ok rc what) (\<lambda>_ st. (map_sum id Some (read (st_row st)), st)) st)"

text \<open>
  \<open>for (rc = sqlite3_step(stmt); rc == SQLITE_ROW; rc = sqlite3_step(stmt)) out.push_back(read(stmt))\<close>; the
  code that ends the loop is not looked at. \<open>query_rows\<close> is the loop.
\<close>

fun push_rows :: "(sql_row \<Rightarrow> exn + 'a) \<Rightarrow> sql_row list \<Rightarrow> exn + 'a list" where
  "push_rows read [] = Inr []"
| "push_rows read (r # rows) = bind_exn (read r) (\<lambda>x. bind_exn (push_rows read rows) (\<lambda>xs. Inr (x # xs)))"

definition query_rows :: "'db sqlite \<Rightarrow> (sql_row \<Rightarrow> exn + 'a) \<Rightarrow> ('db statement, 'a list) io" where
  "query_rows api read st =
     (case sq_run api (st_db st) (st_sql st) (st_binds st) of
        (rows, rc, db) \<Rightarrow> (push_rows read rows, st\<lparr>st_db := db, st_pending := Some ([], rc)\<rparr>))"

definition run_update :: "'db sqlite \<Rightarrow> string \<Rightarrow> ('db statement, unit) io" where
  "run_update api what st = (case sql_step api st of (rc, st) \<Rightarrow> expect_ok rc what st)"

section \<open>SqliteAccountRepository\<close>

definition accounts_find_sql :: string where
  "accounts_find_sql = ''SELECT id, owner_id, balance_cents, status, version FROM accounts WHERE id = ?1;''"
definition accounts_all_sql :: string where
  "accounts_all_sql = ''SELECT id, owner_id, balance_cents, status, version FROM accounts ORDER BY id;''"
definition accounts_save_sql :: string where
  "accounts_save_sql =
     ''INSERT INTO accounts (id, owner_id, balance_cents, status, version) VALUES (?1, ?2, ?3, ?4, ?5) '' @
     ''ON CONFLICT(id) DO UPDATE SET owner_id=excluded.owner_id, balance_cents=excluded.balance_cents, '' @
     ''status=excluded.status, version=excluded.version;''"
definition accounts_remove_sql :: string where
  "accounts_remove_sql = ''DELETE FROM accounts WHERE id = ?1;''"

definition sqlite_accounts_find :: "'db sqlite \<Rightarrow> account_id \<Rightarrow> ('db, account option) io" where
  "sqlite_accounts_find api i =
     with_statement api accounts_find_sql ''accounts.find''
       (io_bind (bind_i64 api 1 (id_value i)) (\<lambda>_. query_one api ''accounts.find'' (read_account api)))"

definition sqlite_accounts_all :: "'db sqlite \<Rightarrow> ('db, account list) io" where
  "sqlite_accounts_all api =
     with_statement api accounts_all_sql ''accounts.all'' (query_rows api (read_account api))"

definition sqlite_accounts_save :: "'db sqlite \<Rightarrow> account \<Rightarrow> ('db, unit) io" where
  "sqlite_accounts_save api a =
     with_statement api accounts_save_sql ''accounts.save''
       (io_bind (bind_i64 api 1 (id_value (acc_id a))) (\<lambda>_.
        io_bind (bind_i64 api 2 (id_value (acc_owner_id a))) (\<lambda>_.
        io_bind (bind_i64 api 3 (cents (acc_balance a))) (\<lambda>_.
        io_bind (bind_text api 4 (status_to_string (acc_status a))) (\<lambda>_.
        io_bind (bind_i64 api 5 (acc_version a)) (\<lambda>_. run_update api ''accounts.save''))))))"

definition sqlite_accounts_remove :: "'db sqlite \<Rightarrow> account_id \<Rightarrow> ('db, unit) io" where
  "sqlite_accounts_remove api i =
     with_statement api accounts_remove_sql ''accounts.remove''
       (io_bind (bind_i64 api 1 (id_value i)) (\<lambda>_. run_update api ''accounts.remove''))"

text \<open>The repositories behind their interfaces; a \<open>const\<close> method hands the connection back as it was.\<close>

definition sqlite_accounts :: "'db sqlite \<Rightarrow> 'db account_repository" where
  "sqlite_accounts api =
     \<lparr>ar_find_by_id = (\<lambda>db i. fst (sqlite_accounts_find api i db)), ar_all = (\<lambda>db. fst (sqlite_accounts_all api db)),
      ar_save = (\<lambda>db a. sqlite_accounts_save api a db), ar_remove = (\<lambda>db i. sqlite_accounts_remove api i db)\<rparr>"

section \<open>SqliteCustomerRepository\<close>

definition customers_find_sql :: string where
  "customers_find_sql = ''SELECT id, name, pin_algorithm, pin_salt, pin_digest, role FROM customers WHERE id = ?1;''"
definition customers_save_sql :: string where
  "customers_save_sql =
     ''INSERT INTO customers (id, name, pin_algorithm, pin_salt, pin_digest, role) VALUES (?1, ?2, ?3, ?4, ?5, ?6) '' @
     ''ON CONFLICT(id) DO UPDATE SET name=excluded.name, pin_algorithm=excluded.pin_algorithm, '' @
     ''pin_salt=excluded.pin_salt, pin_digest=excluded.pin_digest, role=excluded.role;''"

definition sqlite_customers_find :: "'db sqlite \<Rightarrow> customer_id \<Rightarrow> ('db, customer option) io" where
  "sqlite_customers_find api i =
     with_statement api customers_find_sql ''customers.find''
       (io_bind (bind_i64 api 1 (id_value i)) (\<lambda>_. query_one api ''customers.find'' (read_customer api)))"

definition sqlite_customers_save :: "'db sqlite \<Rightarrow> customer \<Rightarrow> ('db, unit) io" where
  "sqlite_customers_save api c =
     with_statement api customers_save_sql ''customers.save''
       (io_bind (bind_i64 api 1 (id_value (cust_id c))) (\<lambda>_.
        io_bind (bind_text api 2 (cust_name c)) (\<lambda>_.
        io_bind (bind_text api 3 (ph_algorithm (cust_pin_hash c))) (\<lambda>_.
        io_bind (bind_text api 4 (ph_salt (cust_pin_hash c))) (\<lambda>_.
        io_bind (bind_text api 5 (ph_digest (cust_pin_hash c))) (\<lambda>_.
        io_bind (bind_text api 6 (role_to_string (cust_role c))) (\<lambda>_. run_update api ''customers.save'')))))))"

definition sqlite_customers :: "'db sqlite \<Rightarrow> 'db customer_repository" where
  "sqlite_customers api =
     \<lparr>cr_find_by_id = (\<lambda>db i. fst (sqlite_customers_find api i db)),
      cr_save = (\<lambda>db c. sqlite_customers_save api c db)\<rparr>"

section \<open>SqliteTransactionRepository\<close>

definition transactions_append_sql :: string where
  "transactions_append_sql =
     ''INSERT INTO transactions (id, timestamp_ms, type, state, from_id, to_id, amount_cents) '' @
     ''VALUES (?1, ?2, ?3, ?4, ?5, ?6, ?7);''"
definition transactions_for_account_sql :: string where
  "transactions_for_account_sql =
     ''SELECT id, timestamp_ms, type, state, from_id, to_id, amount_cents '' @
     ''FROM transactions WHERE from_id = ?1 OR to_id = ?1 ORDER BY id;''"
definition transactions_all_sql :: string where
  "transactions_all_sql =
     ''SELECT id, timestamp_ms, type, state, from_id, to_id, amount_cents FROM transactions ORDER BY id;''"

definition sqlite_transactions_append :: "'db sqlite \<Rightarrow> transaction_record \<Rightarrow> ('db, unit) io" where
  "sqlite_transactions_append api r =
     with_statement api transactions_append_sql ''transactions.append''
       (io_bind (bind_i64 api 1 (id_value (rec_id r))) (\<lambda>_.
        io_bind (bind_i64 api 2 (to_unix_ms (rec_timestamp r))) (\<lambda>_.
        io_bind (bind_text api 3 (type_to_string (rec_type r))) (\<lambda>_.
        io_bind (bind_text api 4 (state_to_string (rec_state r))) (\<lambda>_.
        io_bind (bind_integer_id api 5 (rec_from r)) (\<lambda>_.
        io_bind (bind_integer_id api 6 (rec_to r)) (\<lambda>_.
        io_bind (bind_i64 api 7 (cents (rec_amount r))) (\<lambda>_. run_update api ''transactions.append''))))))))"

definition sqlite_transactions_for_account :: "'db sqlite \<Rightarrow> account_id \<Rightarrow> ('db, transaction_record list) io" where
  "sqlite_transactions_for_account api i =
     with_statement api transactions_for_account_sql ''transactions.for_account''
       (io_bind (bind_i64 api 1 (id_value i)) (\<lambda>_. query_rows api (read_transaction api)))"

definition sqlite_transactions_all :: "'db sqlite \<Rightarrow> ('db, transaction_record list) io" where
  "sqlite_transactions_all api =
     with_statement api transactions_all_sql ''transactions.all'' (query_rows api (read_transaction api))"

definition sqlite_transactions :: "'db sqlite \<Rightarrow> 'db transaction_repository" where
  "sqlite_transactions api =
     \<lparr>tr_append = (\<lambda>db r. sqlite_transactions_append api r db),
      tr_for_account = (\<lambda>db i. fst (sqlite_transactions_for_account api i db)),
      tr_all = (\<lambda>db. fst (sqlite_transactions_all api db))\<rparr>"

section \<open>SqliteAuditRepository\<close>

definition audit_append_sql :: string where
  "audit_append_sql =
     ''INSERT INTO audit_log (id, timestamp_ms, actor_id, action, details) VALUES (?1, ?2, ?3, ?4, ?5);''"

definition sqlite_audit_append :: "'db sqlite \<Rightarrow> audit_entry \<Rightarrow> ('db, unit) io" where
  "sqlite_audit_append api e =
     with_statement api audit_append_sql ''audit.append''
       (io_bind (bind_i64 api 1 (ae_id e)) (\<lambda>_.
        io_bind (bind_i64 api 2 (to_unix_ms (ae_timestamp e))) (\<lambda>_.
        io_bind (bind_i64 api 3 (id_value (ae_actor_id e))) (\<lambda>_.
        io_bind (bind_text api 4 (ae_action e)) (\<lambda>_.
        io_bind (bind_text api 5 (ae_details e)) (\<lambda>_. run_update api ''audit.append''))))))"

text \<open>The query text: a clause for each criterion that is set, in a fixed order.\<close>

definition audit_clauses :: "audit_filter \<Rightarrow> string list" where
  "audit_clauses f =
     (if af_action f \<noteq> None then [''action = ?1''] else []) @
     (if af_actor f \<noteq> None then [''actor_id = ?2''] else []) @
     (if af_since f \<noteq> None then [''timestamp_ms >= ?3''] else [])"

fun join_clauses :: "string list \<Rightarrow> string" where
  "join_clauses [] = []"
| "join_clauses [c] = c"
| "join_clauses (c # cs) = c @ '' AND '' @ join_clauses cs"

definition audit_find_sql :: "audit_filter \<Rightarrow> string" where
  "audit_find_sql f =
     ''SELECT id, timestamp_ms, actor_id, action, details FROM audit_log'' @
     (if audit_clauses f = [] then [] else '' WHERE '' @ join_clauses (audit_clauses f)) @
     '' ORDER BY timestamp_ms;''"

definition bind_criterion :: "('a \<Rightarrow> ('s, unit) io) \<Rightarrow> 'a option \<Rightarrow> ('s, unit) io" where
  "bind_criterion bnd x = (case x of Some y \<Rightarrow> bnd y | None \<Rightarrow> io_return ())"

definition sqlite_audit_find :: "'db sqlite \<Rightarrow> audit_filter \<Rightarrow> ('db, audit_entry list) io" where
  "sqlite_audit_find api f =
     with_statement api (audit_find_sql f) ''audit.find''
       (io_bind (bind_criterion (bind_text api 1) (af_action f)) (\<lambda>_.
        io_bind (bind_criterion (\<lambda>a. bind_i64 api 2 (id_value a)) (af_actor f)) (\<lambda>_.
        io_bind (bind_criterion (\<lambda>t. bind_i64 api 3 (to_unix_ms t)) (af_since f)) (\<lambda>_.
        query_rows api (read_audit api)))))"

definition sqlite_audit :: "'db sqlite \<Rightarrow> 'db audit_repository" where
  "sqlite_audit api =
     \<lparr>au_append = (\<lambda>db e. sqlite_audit_append api e db), au_find = (\<lambda>db f. fst (sqlite_audit_find api f db))\<rparr>"

end
