(* ===== verification/Bank_Sqlite_Tables.thy ===== *)
theory Bank_Sqlite_Tables
  imports Bank_Sqlite Bank_Serializer "HOL-Library.Sublist" "HOL-Library.Multiset"
begin

text \<open>
  What the SQLite repositories do, given the documented behaviour of SQLite for the statements they run.
  \<open>rows db\<close> is a table as SQLite keeps it: rows by their INTEGER PRIMARY KEY, in ascending order of that
  signed key. Every call may fail; a SELECT that fails has handed out the first rows of its answer, and
  an update that fails is undone.
\<close>

section \<open>Documented behaviour\<close>

type_synonym sql_table = "(int \<times> sql_row) list"

definition table_ok :: "sql_table \<Rightarrow> bool" where
  "table_ok t \<longleftrightarrow> omap_ok t \<and> (\<forall>k \<in> fst ` set t. - (2 ^ 63) \<le> k \<and> k < 2 ^ 63)"

definition full_row :: "int \<times> sql_row \<Rightarrow> sql_row" where
  "full_row p = Sql_int (word_of_int (fst p)) # snd p"

definition is_error :: "sql_code \<Rightarrow> bool" where
  "is_error rc \<longleftrightarrow> fst rc \<noteq> SQLITE_OK \<and> fst rc \<noteq> SQLITE_ROW \<and> fst rc \<noteq> SQLITE_DONE"

definition selects ::
  "'db sqlite \<Rightarrow> ('db \<Rightarrow> sql_table) \<Rightarrow> string \<Rightarrow> sql_binds \<Rightarrow> (sql_table \<Rightarrow> sql_row list \<Rightarrow> bool) \<Rightarrow> bool" where
  "selects api rows sql ps answer \<longleftrightarrow>
     (\<forall>db. case sq_run api db sql ps of (rs, rc, db') \<Rightarrow>
        rows db' = rows db \<and>
        (\<exists>full. answer (rows db) full \<and> prefix rs full \<and> (fst rc = SQLITE_DONE \<and> rs = full \<or> is_error rc)))"

definition updates ::
  "'db sqlite \<Rightarrow> ('db \<Rightarrow> sql_table) \<Rightarrow> string \<Rightarrow> sql_binds \<Rightarrow> (sql_table \<Rightarrow> sql_table option) \<Rightarrow> bool" where
  "updates api rows sql ps f \<longleftrightarrow>
     (\<forall>db. case sq_run api db sql ps of (rs, rc, db') \<Rightarrow>
        rs = [] \<and> (fst rc = SQLITE_DONE \<and> f (rows db) = Some (rows db') \<or> is_error rc \<and> rows db' = rows db))"

text \<open>The run is not cut short by an error.\<close>

definition run_finishes :: "'db sqlite \<Rightarrow> 'db \<Rightarrow> string \<Rightarrow> sql_binds \<Rightarrow> bool" where
  "run_finishes api db sql ps \<longleftrightarrow> fst (fst (snd (sq_run api db sql ps))) = SQLITE_DONE"

text \<open>INSERT without a conflict clause: refused when the key is taken.\<close>

definition insert_new :: "int \<Rightarrow> sql_row \<Rightarrow> sql_table \<Rightarrow> sql_table option" where
  "insert_new k r t = (if omap_find k t = None then Some (omap_insert_or_assign k r t) else None)"

definition lookup_answer :: "i64 \<Rightarrow> sql_table \<Rightarrow> sql_row list \<Rightarrow> bool" where
  "lookup_answer k t full \<longleftrightarrow>
     full = (case omap_find (sint k) t of None \<Rightarrow> [] | Some r \<Rightarrow> [Sql_int k # r])"

definition accounts_documented :: "'db sqlite \<Rightarrow> ('db \<Rightarrow> sql_table) \<Rightarrow> bool" where
  "accounts_documented api rows \<longleftrightarrow>
     (\<forall>db. table_ok (rows db)) \<and>
     (\<forall>k. selects api rows accounts_find_sql [(1, Sql_int k)] (lookup_answer k)) \<and>
     selects api rows accounts_all_sql [] (\<lambda>t full. full = map full_row t) \<and>
     (\<forall>k owner balance status version.
        updates api rows accounts_save_sql
          [(1, Sql_int k), (2, Sql_int owner), (3, Sql_int balance), (4, Sql_text status), (5, Sql_int version)]
          (\<lambda>t. Some (omap_insert_or_assign (sint k)
                  [Sql_int owner, Sql_int balance, Sql_text status, Sql_int version] t))) \<and>
     (\<forall>k. updates api rows accounts_remove_sql [(1, Sql_int k)] (\<lambda>t. Some (omap_erase (sint k) t)))"

definition customers_documented :: "'db sqlite \<Rightarrow> ('db \<Rightarrow> sql_table) \<Rightarrow> bool" where
  "customers_documented api rows \<longleftrightarrow>
     (\<forall>db. table_ok (rows db)) \<and>
     (\<forall>k. selects api rows customers_find_sql [(1, Sql_int k)] (lookup_answer k)) \<and>
     (\<forall>k name alg salt digest role.
        updates api rows customers_save_sql
          [(1, Sql_int k), (2, Sql_text name), (3, Sql_text alg), (4, Sql_text salt), (5, Sql_text digest),
           (6, Sql_text role)]
          (\<lambda>t. Some (omap_insert_or_assign (sint k)
                  [Sql_text name, Sql_text alg, Sql_text salt, Sql_text digest, Sql_text role] t)))"

definition transactions_documented :: "'db sqlite \<Rightarrow> ('db \<Rightarrow> sql_table) \<Rightarrow> bool" where
  "transactions_documented api rows \<longleftrightarrow>
     (\<forall>db. table_ok (rows db)) \<and>
     (\<forall>k ms type state from to amount.
        updates api rows transactions_append_sql
          [(1, Sql_int k), (2, Sql_int ms), (3, Sql_text type), (4, Sql_text state), (5, from), (6, to),
           (7, Sql_int amount)]
          (insert_new (sint k) [Sql_int ms, Sql_text type, Sql_text state, from, to, Sql_int amount])) \<and>
     (\<forall>k. selects api rows transactions_for_account_sql [(1, Sql_int k)]
        (\<lambda>t full. full = filter (\<lambda>r. column r 4 = Sql_int k \<or> column r 5 = Sql_int k) (map full_row t))) \<and>
     selects api rows transactions_all_sql [] (\<lambda>t full. full = map full_row t)"

text \<open>
  The WHERE clause of the audit query compares the text and the actor with the bound values and the time as
  a signed integer; ORDER BY leaves the order of entries with the same time open.
\<close>

definition audit_where :: "audit_filter \<Rightarrow> sql_row \<Rightarrow> bool" where
  "audit_where f r \<longleftrightarrow>
     (case af_action f of None \<Rightarrow> True | Some a \<Rightarrow> column r 3 = Sql_text a) \<and>
     (case af_actor f of None \<Rightarrow> True | Some i \<Rightarrow> column r 2 = Sql_int (id_value i)) \<and>
     (case af_since f of None \<Rightarrow> True | Some t \<Rightarrow> (\<exists>n. column r 1 = Sql_int n \<and> to_unix_ms t <=s n))"

definition audit_binds :: "audit_filter \<Rightarrow> sql_binds" where
  "audit_binds f =
     (case af_action f of None \<Rightarrow> [] | Some a \<Rightarrow> [(1, Sql_text a)]) @
     (case af_actor f of None \<Rightarrow> [] | Some i \<Rightarrow> [(2, Sql_int (id_value i))]) @
     (case af_since f of None \<Rightarrow> [] | Some t \<Rightarrow> [(3, Sql_int (to_unix_ms t))])"

definition row_time :: "sql_row \<Rightarrow> int" where
  "row_time r = (case column r 1 of Sql_int n \<Rightarrow> sint n | _ \<Rightarrow> 0)"

definition audit_documented :: "'db sqlite \<Rightarrow> ('db \<Rightarrow> sql_table) \<Rightarrow> bool" where
  "audit_documented api rows \<longleftrightarrow>
     (\<forall>db. table_ok (rows db)) \<and>
     (\<forall>k ms actor action details.
        updates api rows audit_append_sql
          [(1, Sql_int k), (2, Sql_int ms), (3, Sql_int actor), (4, Sql_text action), (5, Sql_text details)]
          (insert_new (sint k) [Sql_int ms, Sql_int actor, Sql_text action, Sql_text details])) \<and>
     (\<forall>f. selects api rows (audit_find_sql f) (audit_binds f)
        (\<lambda>t full. mset full = mset (filter (audit_where f) (map full_row t)) \<and>
                  sorted_wrt (\<lambda>a b. row_time a \<le> row_time b) full))"

section \<open>Running a statement\<close>

text \<open>Bindings in sequence, then the statement.\<close>

fun bind_list :: "'db sqlite \<Rightarrow> (string \<times> nat \<times> sql_value) list \<Rightarrow> ('db statement, 'a) io \<Rightarrow> ('db statement, 'a) io" where
  "bind_list api [] m = m"
| "bind_list api ((what, i, v) # bs) m = io_bind (bind_value api what i v) (\<lambda>_. bind_list api bs m)"

lemma expect_ok_cases: "expect_ok rc what s = ((if is_error rc then Inl (Runtime_error (what @ '' failed: '' @ snd rc)) else Inr ()), s)"
  by (auto simp: expect_ok_def is_error_def)

lemma bind_value_cases:
  "bind_value api what i v st = (x, st') \<Longrightarrow>
     (\<exists>e. x = Inl e) \<and> st' = st \<or> x = Inr () \<and> st' = st\<lparr>st_binds := st_binds st @ [(i, v)]\<rparr>"
  by (auto simp: bind_value_def io_bind_def expect_ok_cases split: if_splits)

lemma bind_list_cases:
  assumes "bind_list api bs m st = (x, st')"
  shows "(\<exists>e. x = Inl e) \<and> st_db st' = st_db st \<or> m (st\<lparr>st_binds := st_binds st @ map snd bs\<rparr>) = (x, st')"
  using assms
proof (induction bs arbitrary: st)
  case (Cons b bs)
  obtain what i v where b: "b = (what, i, v)" by (cases b)
  from Cons.prems [unfolded b bind_list.simps] show ?case
  proof (cases rule: io_bind_cases)
    case (throws e)
    then show ?thesis using bind_value_cases [OF throws(1)] by auto
  next
    case (runs y s1)
    then have s1: "s1 = st\<lparr>st_binds := st_binds st @ [(i, v)]\<rparr>" using bind_value_cases [OF runs(1)] by auto
    from Cons.IH [OF runs(2)] show ?thesis by (simp add: s1 b)
  qed
qed simp

lemma bind_list_runs:
  assumes "\<And>db sql i v. fst (sq_bind api db sql i v) = SQLITE_OK"
  shows "bind_list api bs m st = m (st\<lparr>st_binds := st_binds st @ map snd bs\<rparr>)"
  using assms
  by (induction bs arbitrary: st rule: list.induct)
    (auto simp: bind_value_def io_bind_def expect_ok_cases is_error_def)

lemma with_statement_runs:
  assumes "\<And>db sql i v. fst (sq_bind api db sql i v) = SQLITE_OK" "fst (sq_prepare api db sql) = SQLITE_OK"
  shows "with_statement api sql what (bind_list api bs m) db =
    map_prod id st_db (m \<lparr>st_db = db, st_sql = sql, st_binds = map snd bs, st_pending = None, st_row = []\<rparr>)"
  using assms(2) by (simp add: with_statement_def bind_list_runs [OF assms(1)])

lemma with_statement_cases:
  assumes "with_statement api sql what (bind_list api bs m) db = (x, db')"
  shows "(\<exists>e. x = Inl e) \<and> db' = db \<or>
    (\<exists>st'. m \<lparr>st_db = db, st_sql = sql, st_binds = map snd bs, st_pending = None, st_row = []\<rparr> = (x, st') \<and> db' = st_db st')"
proof (cases "fst (sq_prepare api db sql) = SQLITE_OK")
  case True
  let ?st = "\<lparr>st_db = db, st_sql = sql, st_binds = [], st_pending = None, st_row = []\<rparr>"
  obtain st' where run: "bind_list api bs m ?st = (x, st')" and db': "db' = st_db st'"
    using assms True by (cases "bind_list api bs m ?st") (auto simp: with_statement_def)
  from bind_list_cases [OF run] db' show ?thesis by auto
qed (use assms in \<open>auto simp: with_statement_def Let_def\<close>)

lemma update_outcome:
  assumes "with_statement api sql what (bind_list api bs (run_update api what')) db = (x, db')"
    "updates api rows sql (map snd bs) f"
  shows "x = Inr () \<and> f (rows db) = Some (rows db') \<or> (\<exists>e. x = Inl e) \<and> rows db' = rows db"
proof -
  have "rs = [] \<and> (fst rc = SQLITE_DONE \<and> f (rows db) = Some (rows db2) \<or> is_error rc \<and> rows db2 = rows db)"
    if "sq_run api db sql (map snd bs) = (rs, rc, db2)" for rs rc db2
    using assms(2) that unfolding updates_def by (auto dest: spec [of _ db])
  then show ?thesis using with_statement_cases [OF assms(1)]
    by (auto simp: run_update_def sql_step_def expect_ok_cases is_error_def split: prod.splits if_splits)
qed

lemma selects_run:
  assumes "selects api rows sql ps answer" "sq_run api db sql ps = (rs, rc, db')"
  obtains full where "rows db' = rows db" "answer (rows db) full" "prefix rs full"
    "fst rc = SQLITE_DONE \<and> rs = full \<or> is_error rc"
  using assms unfolding selects_def by (auto dest: spec [of _ db])

lemma query_one_outcome:
  assumes "with_statement api sql what (bind_list api bs (query_one api what' read)) db = (x, db')"
    "selects api rows sql (map snd bs) answer"
  shows "rows db' = rows db \<and>
    ((\<exists>e. x = Inl e) \<or> x = Inr None \<and> answer (rows db) [] \<or>
     (\<exists>r rest y. answer (rows db) (r # rest) \<and> read r = Inr y \<and> x = Inr (Some y)))"
proof -
  consider (throws) e where "x = Inl e" "db' = db"
    | (runs) st' where "query_one api what' read
        \<lparr>st_db = db, st_sql = sql, st_binds = map snd bs, st_pending = None, st_row = []\<rparr> = (x, st')" "db' = st_db st'"
    using with_statement_cases [OF assms(1)] by blast
  then show ?thesis
  proof cases
    case runs
    obtain rs rc db2 where run: "sq_run api db sql (map snd bs) = (rs, rc, db2)" by (cases "sq_run api db sql (map snd bs)") auto
    obtain full where full: "rows db2 = rows db" "answer (rows db) full" "prefix rs full"
      "fst rc = SQLITE_DONE \<and> rs = full \<or> is_error rc" by (rule selects_run [OF assms(2) run])
    show ?thesis
    proof (cases rs)
      case Nil
      then show ?thesis using runs run full
        by (auto simp: query_one_def sql_step_def expect_ok_cases is_error_def io_bind_def split: if_splits)
    next
      case (Cons r rest)
      have ok: "\<not> is_error (SQLITE_ROW, [])" by (simp add: is_error_def)
      from Cons full(3) obtain rest' where "full = r # rest'" by (auto simp: prefix_def)
      then show ?thesis using runs run full Cons ok
        by (cases "read r") (auto simp: query_one_def sql_step_def expect_ok_cases io_bind_def)
    qed
  qed auto
qed

text \<open>A query for several rows may throw, or return the rows up to the code that ended it.\<close>

lemma query_rows_outcome:
  assumes "with_statement api sql what (bind_list api bs (query_rows api read)) db = (x, db')"
    "selects api rows sql (map snd bs) answer"
  shows "rows db' = rows db \<and>
    ((\<exists>e. x = Inl e) \<or>
     (\<exists>full rs. answer (rows db) full \<and> prefix rs full \<and> x = push_rows read rs \<and>
        (run_finishes api db sql (map snd bs) \<longrightarrow> rs = full)))"
proof -
  obtain rs rc db2 where run: "sq_run api db sql (map snd bs) = (rs, rc, db2)" by (cases "sq_run api db sql (map snd bs)") auto
  obtain full where "rows db2 = rows db" "answer (rows db) full" "prefix rs full"
      "fst rc = SQLITE_DONE \<and> rs = full \<or> is_error rc" by (rule selects_run [OF assms(2) run])
  then show ?thesis using with_statement_cases [OF assms(1)] run
    by (auto simp: query_rows_def is_error_def run_finishes_def)
qed

end
