(* ===== verification/Bank_Sqlite_Correct.thy ===== *)
theory Bank_Sqlite_Correct
  imports Bank_Sqlite_Tables Bank_Processor_Correct
begin

text \<open>
  The four SQLite repositories meet the contracts of the repository interfaces: each table is the image of
  the abstract contents under the encoding of one row, and what is read is what was written.
\<close>

section \<open>Texts and ids\<close>

lemma c_string_id [simp]: "c_string s = s \<longleftrightarrow> CHR 0x00 \<notin> set s"
  by (auto simp: c_string_def takeWhile_eq_all_conv)

lemma enum_texts_plain [simp]:
  "c_string (role_to_string x1) = role_to_string x1" "c_string (status_to_string x2) = status_to_string x2"
  "c_string (type_to_string x3) = type_to_string x3" "c_string (state_to_string x4) = state_to_string x4"
  by ((cases x1; simp), (cases x2; simp), (cases x3; simp), (cases x4; simp))

lemma column_simps [simp]:
  "column (v # r) 0 = v" "column (v # r) (Suc i) = column r i" "column [] i = Sql_null"
  by (simp_all add: column_def)

lemma column_numeral [simp]: "column (v # r) (numeral n) = column r (pred_numeral n)"
  by (simp add: numeral_eq_Suc)

lemma full_row_sint [simp]: "full_row (sint k, r) = Sql_int k # r"
  by (simp add: full_row_def)

lemma omap_find_insert: "omap_find k (omap_insert_or_assign k' v t) = (if k = k' then Some v else omap_find k t)"
  by (simp add: omap_find_map_of omap_insert_map_of)

lemma omap_find_erase: "omap_ok t \<Longrightarrow> omap_find k (omap_erase k' t) = (if k = k' then None else omap_find k t)"
  by (simp add: omap_find_map_of omap_erase_map_of)

lemma push_rows_Inr: "push_rows read rs = Inr xs \<longleftrightarrow> list_all2 (\<lambda>r x. read r = Inr x) rs xs"
  by (induction rs arbitrary: xs) (auto simp: bind_exn_Inr_iff list_all2_Cons1)

lemma push_rows_total: "\<forall>r \<in> set rs. read r = Inr (f r) \<Longrightarrow> push_rows read rs = Inr (map f rs)"
  by (induction rs) auto

text \<open>Statements as a list of bindings.\<close>

lemmas bind_forms = bind_i64_def bind_text_def bind_integer_id_def

section \<open>Accounts\<close>

definition account_row :: "account \<Rightarrow> sql_row" where
  "account_row a = [Sql_int (id_value (acc_owner_id a)), Sql_int (cents (acc_balance a)),
     Sql_text (status_to_string (acc_status a)), Sql_int (acc_version a)]"

text \<open>What a row denotes, without the check of the balance.\<close>

definition decode_account :: "'db sqlite \<Rightarrow> sql_row \<Rightarrow> account option" where
  "decode_account api r =
     map_option (\<lambda>status. \<lparr>acc_id = Id (column_i64 api r 0), acc_owner_id = Id (column_i64 api r 1),
        acc_balance = Mk_Money (column_i64 api r 2), acc_status = status, acc_version = column_i64 api r 4\<rparr>)
       (account_status_from_string (column_text r 3))"

definition sqlite_accounts_view :: "'db sqlite \<Rightarrow> ('db \<Rightarrow> sql_table) \<Rightarrow> 'db \<Rightarrow> account_id \<Rightarrow> account option" where
  "sqlite_accounts_view api rows db i =
     Option.bind (omap_find (sint (id_value i)) (rows db)) (\<lambda>r. decode_account api (Sql_int (id_value i) # r))"

lemma read_account_decode: "read_account api r = Inr a \<Longrightarrow> decode_account api r = Some a"
  by (auto simp: read_account_def decode_account_def bind_exn_Inr_iff Money_def split: if_splits option.splits)

lemma decode_account_row: "decode_account api (Sql_int (id_value (acc_id a)) # account_row a) = Some a"
  by (cases a) (simp add: decode_account_def account_row_def column_i64_def column_text_def status_text.parse_print)

lemma read_account_row: "money_ok (acc_balance a) \<Longrightarrow> read_account api (Sql_int (id_value (acc_id a)) # account_row a) = Inr a"
  by (cases a) (simp add: read_account_def account_row_def column_i64_def column_text_def status_text.parse_print
      Money_def money_ok_def amount_def word_sless_alt)

lemma decode_account_id: "decode_account api (Sql_int k # r) = Some a \<Longrightarrow> acc_id a = Id k"
  by (auto simp: decode_account_def column_i64_def)

lemma sqlite_accounts_forms:
  "sqlite_accounts_find api i = with_statement api accounts_find_sql ''accounts.find''
     (bind_list api [(''bind int64'', 1, Sql_int (id_value i))] (query_one api ''accounts.find'' (read_account api)))"
  "sqlite_accounts_save api a = with_statement api accounts_save_sql ''accounts.save''
     (bind_list api [(''bind int64'', 1, Sql_int (id_value (acc_id a))),
        (''bind int64'', 2, Sql_int (id_value (acc_owner_id a))), (''bind int64'', 3, Sql_int (cents (acc_balance a))),
        (''bind text'', 4, Sql_text (status_to_string (acc_status a))), (''bind int64'', 5, Sql_int (acc_version a))]
       (run_update api ''accounts.save''))"
  "sqlite_accounts_remove api i = with_statement api accounts_remove_sql ''accounts.remove''
     (bind_list api [(''bind int64'', 1, Sql_int (id_value i))] (run_update api ''accounts.remove''))"
  "sqlite_accounts_all api = with_statement api accounts_all_sql ''accounts.all''
     (bind_list api [] (query_rows api (read_account api)))"
  by (simp_all add: sqlite_accounts_find_def sqlite_accounts_save_def sqlite_accounts_remove_def sqlite_accounts_all_def
      bind_forms)

lemma accounts_documentedD:
  assumes "accounts_documented api rows"
  shows "table_ok (rows db)"
    "selects api rows accounts_find_sql [(1, Sql_int k)] (lookup_answer k)"
    "selects api rows accounts_all_sql [] (\<lambda>t full. full = map full_row t)"
    "updates api rows accounts_save_sql
       [(1, Sql_int k), (2, Sql_int owner), (3, Sql_int balance), (4, Sql_text status), (5, Sql_int version)]
       (\<lambda>t. Some (omap_insert_or_assign (sint k) [Sql_int owner, Sql_int balance, Sql_text status, Sql_int version] t))"
    "updates api rows accounts_remove_sql [(1, Sql_int k)] (\<lambda>t. Some (omap_erase (sint k) t))"
  using assms by (simp_all add: accounts_documented_def)

lemma sqlite_accounts_save_outcome:
  assumes "accounts_documented api rows" "sqlite_accounts_save api a db = (x, db')"
  shows "x = Inr () \<and> rows db' = omap_insert_or_assign (sint (id_value (acc_id a))) (account_row a) (rows db) \<or>
    (\<exists>e. x = Inl e) \<and> rows db' = rows db"
  using update_outcome [OF assms(2) [unfolded sqlite_accounts_forms], unfolded list.map snd_conv,
      OF accounts_documentedD(4) [OF assms(1)]]
  by (auto simp: account_row_def)

lemma sqlite_accounts_remove_outcome:
  assumes "accounts_documented api rows" "sqlite_accounts_remove api i db = (x, db')"
  shows "x = Inr () \<and> rows db' = omap_erase (sint (id_value i)) (rows db) \<or> (\<exists>e. x = Inl e) \<and> rows db' = rows db"
  using update_outcome [OF assms(2) [unfolded sqlite_accounts_forms], unfolded list.map snd_conv,
      OF accounts_documentedD(5) [OF assms(1)]]
  by auto

lemma sqlite_accounts_find_outcome:
  assumes "accounts_documented api rows" "sqlite_accounts_find api i db = (x, db')"
  shows "rows db' = rows db \<and> ((\<exists>e. x = Inl e) \<or> x = Inr (sqlite_accounts_view api rows db i))"
  using query_one_outcome [OF assms(2) [unfolded sqlite_accounts_forms], unfolded list.map snd_conv,
      OF accounts_documentedD(2) [OF assms(1)]]
  by (auto simp: lookup_answer_def sqlite_accounts_view_def dest!: read_account_decode split: option.splits)

lemma sqlite_accounts_view_save:
  assumes "rows db' = omap_insert_or_assign (sint (id_value (acc_id a))) (account_row a) (rows db)"
  shows "sqlite_accounts_view api rows db' = (sqlite_accounts_view api rows db)(acc_id a \<mapsto> a)"
proof
  fix i
  have "sint (id_value i) = sint (id_value (acc_id a)) \<longleftrightarrow> i = acc_id a"
    by (cases i; cases "acc_id a") (simp add: sint_eq_iff_i64)
  then show "sqlite_accounts_view api rows db' i = ((sqlite_accounts_view api rows db)(acc_id a \<mapsto> a)) i"
    using decode_account_row [of api a] by (auto simp: sqlite_accounts_view_def assms omap_find_insert)
qed

lemma sqlite_account_store:
  assumes "accounts_documented api rows"
  shows "account_store (sqlite_accounts api) (\<lambda>_. True) (sqlite_accounts_view api rows)"
proof
  show "x = sqlite_accounts_view api rows db i" if "ar_find_by_id (sqlite_accounts api) db i = Inr x" for db i x
    using that sqlite_accounts_find_outcome [OF assms, of i db] by (auto simp: sqlite_accounts_def prod_eq_iff)
  show "True \<and> sqlite_accounts_view api rows db' = (sqlite_accounts_view api rows db)(acc_id a \<mapsto> a)"
    if "ar_save (sqlite_accounts api) db a = (Inr (), db')" for db a db'
    using sqlite_accounts_save_outcome [OF assms, of a db] that sqlite_accounts_view_save [of rows db' a db api]
    by (auto simp: sqlite_accounts_def)
  show "True \<and> sqlite_accounts_view api rows db' = sqlite_accounts_view api rows db"
    if "ar_save (sqlite_accounts api) db a = (Inl e, db')" for db a e db'
    using sqlite_accounts_save_outcome [OF assms, of a db] that
    by (auto simp: sqlite_accounts_def sqlite_accounts_view_def fun_eq_iff)
  show "acc_id a = i" if "sqlite_accounts_view api rows db i = Some a" for db i a
    using that by (cases i) (auto simp: sqlite_accounts_view_def bind_eq_Some_conv dest: decode_account_id)
qed

section \<open>Customers\<close>

definition customer_row :: "customer \<Rightarrow> sql_row" where
  "customer_row c = [Sql_text (cust_name c), Sql_text (ph_algorithm (cust_pin_hash c)),
     Sql_text (ph_salt (cust_pin_hash c)), Sql_text (ph_digest (cust_pin_hash c)),
     Sql_text (role_to_string (cust_role c))]"

text \<open>A text with a NUL character comes back cut there.\<close>

definition customer_plain :: "customer \<Rightarrow> bool" where
  "customer_plain c \<longleftrightarrow> CHR 0x00 \<notin> set (cust_name c) \<union> set (ph_algorithm (cust_pin_hash c)) \<union>
     set (ph_salt (cust_pin_hash c)) \<union> set (ph_digest (cust_pin_hash c))"

definition sqlite_customers_view :: "'db sqlite \<Rightarrow> ('db \<Rightarrow> sql_table) \<Rightarrow> 'db \<Rightarrow> customer_id \<Rightarrow> customer option" where
  "sqlite_customers_view api rows db i =
     Option.bind (omap_find (sint (id_value i)) (rows db))
       (\<lambda>r. case read_customer api (Sql_int (id_value i) # r) of Inl e \<Rightarrow> None | Inr c \<Rightarrow> Some c)"

lemma read_customer_row:
  "customer_plain c \<Longrightarrow> read_customer api (Sql_int (id_value (cust_id c)) # customer_row c) = Inr c"
  by (cases c) (simp add: read_customer_def customer_row_def column_i64_def column_text_def role_text.parse_print
      customer_plain_def)

lemma read_customer_id: "read_customer api (Sql_int k # r) = Inr c \<Longrightarrow> cust_id c = Id k"
  by (auto simp: read_customer_def column_i64_def split: option.splits)

lemma sqlite_customers_forms:
  "sqlite_customers_find api i = with_statement api customers_find_sql ''customers.find''
     (bind_list api [(''bind int64'', 1, Sql_int (id_value i))] (query_one api ''customers.find'' (read_customer api)))"
  "sqlite_customers_save api c = with_statement api customers_save_sql ''customers.save''
     (bind_list api [(''bind int64'', 1, Sql_int (id_value (cust_id c))), (''bind text'', 2, Sql_text (cust_name c)),
        (''bind text'', 3, Sql_text (ph_algorithm (cust_pin_hash c))),
        (''bind text'', 4, Sql_text (ph_salt (cust_pin_hash c))),
        (''bind text'', 5, Sql_text (ph_digest (cust_pin_hash c))),
        (''bind text'', 6, Sql_text (role_to_string (cust_role c)))]
       (run_update api ''customers.save''))"
  by (simp_all add: sqlite_customers_find_def sqlite_customers_save_def bind_forms)

lemma customers_documentedD:
  assumes "customers_documented api rows"
  shows "selects api rows customers_find_sql [(1, Sql_int k)] (lookup_answer k)"
    "updates api rows customers_save_sql
       [(1, Sql_int k), (2, Sql_text name), (3, Sql_text alg), (4, Sql_text salt), (5, Sql_text digest), (6, Sql_text role)]
       (\<lambda>t. Some (omap_insert_or_assign (sint k)
               [Sql_text name, Sql_text alg, Sql_text salt, Sql_text digest, Sql_text role] t))"
  using assms by (simp_all add: customers_documented_def)

lemma sqlite_customers_save_outcome:
  assumes "customers_documented api rows" "sqlite_customers_save api c db = (x, db')"
  shows "x = Inr () \<and> rows db' = omap_insert_or_assign (sint (id_value (cust_id c))) (customer_row c) (rows db) \<or>
    (\<exists>e. x = Inl e) \<and> rows db' = rows db"
  using update_outcome [OF assms(2) [unfolded sqlite_customers_forms], unfolded list.map snd_conv,
      OF customers_documentedD(2) [OF assms(1)]]
  by (auto simp: customer_row_def)

lemma sqlite_customers_find_outcome:
  assumes "customers_documented api rows" "sqlite_customers_find api i db = (x, db')"
  shows "rows db' = rows db \<and> ((\<exists>e. x = Inl e) \<or> x = Inr (sqlite_customers_view api rows db i))"
  using query_one_outcome [OF assms(2) [unfolded sqlite_customers_forms], unfolded list.map snd_conv,
      OF customers_documentedD(1) [OF assms(1)]]
  by (auto simp: lookup_answer_def sqlite_customers_view_def split: option.splits)

lemma sint_ids: "sint (id_value i) = sint (id_value j) \<longleftrightarrow> i = j"
  by (cases i; cases j) (simp add: sint_eq_iff_i64)

lemma sqlite_customer_store:
  assumes "customers_documented api rows"
  shows "customer_store (sqlite_customers api) (\<lambda>_. True) (sqlite_customers_view api rows) customer_plain"
proof
  show "x = sqlite_customers_view api rows db i" if "cr_find_by_id (sqlite_customers api) db i = Inr x" for db i x
    using that sqlite_customers_find_outcome [OF assms, of i db] by (auto simp: sqlite_customers_def prod_eq_iff)
  show "True \<and> sqlite_customers_view api rows db' = (sqlite_customers_view api rows db)(cust_id c \<mapsto> c)"
    if "customer_plain c" "cr_save (sqlite_customers api) db c = (Inr (), db')" for db c db'
    using sqlite_customers_save_outcome [OF assms, of c db] that read_customer_row [OF that(1), of api]
    by (auto simp: sqlite_customers_def sqlite_customers_view_def fun_eq_iff omap_find_insert sint_ids)
  show "True \<and> sqlite_customers_view api rows db' = sqlite_customers_view api rows db"
    if "cr_save (sqlite_customers api) db c = (Inl e, db')" for db c e db'
    using sqlite_customers_save_outcome [OF assms, of c db] that
    by (auto simp: sqlite_customers_def sqlite_customers_view_def fun_eq_iff)
  show "cust_id c = i" if found: "sqlite_customers_view api rows db i = Some c" for db i c
  proof -
    obtain r where "(case read_customer api (Sql_int (id_value i) # r) of Inl e \<Rightarrow> None | Inr c \<Rightarrow> Some c) = Some c"
      using found by (auto simp: sqlite_customers_view_def bind_eq_Some_conv)
    then have "read_customer api (Sql_int (id_value i) # r) = Inr c"
      by (cases "read_customer api (Sql_int (id_value i) # r)") simp_all
    from read_customer_id [OF this] show ?thesis by simp
  qed
qed

section \<open>Transactions\<close>

fun leg_value :: "account_id option \<Rightarrow> sql_value" where
  "leg_value None = Sql_null"
| "leg_value (Some a) = Sql_int (id_value a)"

definition transaction_row :: "transaction_record \<Rightarrow> sql_row" where
  "transaction_row r = [Sql_int (to_unix_ms (rec_timestamp r)), Sql_text (type_to_string (rec_type r)),
     Sql_text (state_to_string (rec_state r)), leg_value (rec_from r), leg_value (rec_to r),
     Sql_int (cents (rec_amount r))]"

abbreviation record_key :: "transaction_record \<Rightarrow> int" where
  "record_key r \<equiv> sint (id_value (rec_id r))"

text \<open>The table that holds a list of records.\<close>

definition transaction_table :: "transaction_record list \<Rightarrow> sql_table" where
  "transaction_table rs = map (\<lambda>r. (record_key r, transaction_row r)) rs"

lemma leg_value_null [simp]: "leg_value x = Sql_null \<longleftrightarrow> x = None" "leg_value x = Sql_int (id_value i) \<longleftrightarrow> x = Some i"
  by (cases x, simp_all) (cases x, auto simp: ident.expand)

lemma read_transaction_row:
  assumes "money_ok (rec_amount r)"
  shows "read_transaction api (Sql_int (id_value (rec_id r)) # transaction_row r) = Inr (stored_form r)"
proof (cases r)
  case (fields id ts ty st src dst m)
  then show ?thesis using assms
    by (cases src; cases dst; cases m)
      (simp_all add: read_transaction_def transaction_row_def column_i64_def column_text_def type_text.parse_print
        state_text.parse_print Money_def money_ok_def amount_def word_sless_alt read_leg_def stored_form_def ms_trunc_def)
qed

lemma sqlite_transactions_forms:
  "sqlite_transactions_append api r = with_statement api transactions_append_sql ''transactions.append''
     (bind_list api [(''bind int64'', 1, Sql_int (id_value (rec_id r))),
        (''bind int64'', 2, Sql_int (to_unix_ms (rec_timestamp r))),
        (''bind text'', 3, Sql_text (type_to_string (rec_type r))),
        (''bind text'', 4, Sql_text (state_to_string (rec_state r))),
        (case rec_from r of None \<Rightarrow> ''bind null'' | Some a \<Rightarrow> ''bind int64'', 5, leg_value (rec_from r)),
        (case rec_to r of None \<Rightarrow> ''bind null'' | Some a \<Rightarrow> ''bind int64'', 6, leg_value (rec_to r)),
        (''bind int64'', 7, Sql_int (cents (rec_amount r)))]
       (run_update api ''transactions.append''))"
  "sqlite_transactions_for_account api i = with_statement api transactions_for_account_sql ''transactions.for_account''
     (bind_list api [(''bind int64'', 1, Sql_int (id_value i))] (query_rows api (read_transaction api)))"
  "sqlite_transactions_all api = with_statement api transactions_all_sql ''transactions.all''
     (bind_list api [] (query_rows api (read_transaction api)))"
  by (simp_all add: sqlite_transactions_append_def sqlite_transactions_for_account_def sqlite_transactions_all_def
      bind_forms split: option.splits)

lemma transactions_documentedD:
  assumes "transactions_documented api rows"
  shows "table_ok (rows db)"
    "updates api rows transactions_append_sql
       [(1, Sql_int k), (2, Sql_int ms), (3, Sql_text type), (4, Sql_text state), (5, from), (6, to), (7, Sql_int balance)]
       (insert_new (sint k) [Sql_int ms, Sql_text type, Sql_text state, from, to, Sql_int balance])"
    "selects api rows transactions_for_account_sql [(1, Sql_int k)]
       (\<lambda>t full. full = filter (\<lambda>r. column r 4 = Sql_int k \<or> column r 5 = Sql_int k) (map full_row t))"
    "selects api rows transactions_all_sql [] (\<lambda>t full. full = map full_row t)"
  using assms by (simp_all add: transactions_documented_def)

lemma sqlite_transactions_append_outcome:
  assumes "transactions_documented api rows" "sqlite_transactions_append api r db = (x, db')"
  shows "x = Inr () \<and> insert_new (record_key r) (transaction_row r) (rows db) = Some (rows db') \<or>
    (\<exists>e. x = Inl e) \<and> rows db' = rows db"
  using update_outcome [OF assms(2) [unfolded sqlite_transactions_forms], unfolded list.map snd_conv,
      OF transactions_documentedD(2) [OF assms(1)]]
  by (auto simp: transaction_row_def)

lemma insert_new_Some: "insert_new k r t = Some t' \<longleftrightarrow> omap_find k t = None \<and> t' = omap_insert_or_assign k r t"
  by (auto simp: insert_new_def)

lemma sqlite_transaction_store:
  assumes "transactions_documented api rows"
  shows "transaction_store (sqlite_transactions api) rows (\<lambda>r. omap_insert_or_assign (record_key r) (transaction_row r))"
proof
  show "rows db' = omap_insert_or_assign (record_key r) (transaction_row r) (rows db)"
    if "tr_append (sqlite_transactions api) db r = (Inr (), db')" for db r db'
    using sqlite_transactions_append_outcome [OF assms, of r db] that
    by (auto simp: sqlite_transactions_def insert_new_Some)
  show "rows db' = rows db" if "tr_append (sqlite_transactions api) db r = (Inl e, db')" for db r e db'
    using sqlite_transactions_append_outcome [OF assms, of r db] that by (auto simp: sqlite_transactions_def)
qed

lemma transaction_table_insert:
  "omap_find (record_key r) (transaction_table rs) = None \<Longrightarrow>
   omap_insert_or_assign (record_key r) (transaction_row r) (transaction_table rs) =
     transaction_table (insort_key record_key r rs)"
  by (induction rs) (auto simp: transaction_table_def split: if_splits)

lemma full_row_transaction: "full_row (record_key r, transaction_row r) = Sql_int (id_value (rec_id r)) # transaction_row r"
  by simp

lemma transaction_row_involves:
  "column (full_row (record_key r, transaction_row r)) 4 = Sql_int (id_value i) \<or>
   column (full_row (record_key r, transaction_row r)) 5 = Sql_int (id_value i) \<longleftrightarrow> involves i r"
  by (auto simp: transaction_row_def involves_def)

lemma read_transaction_rows:
  "\<forall>r \<in> set rs. money_ok (rec_amount r) \<Longrightarrow>
   push_rows (read_transaction api) (map full_row (transaction_table rs)) = Inr (map stored_form rs)"
  by (induction rs) (simp_all add: transaction_table_def read_transaction_row)

lemma filter_transaction_table:
  "filter (\<lambda>r. column r 4 = Sql_int (id_value i) \<or> column r 5 = Sql_int (id_value i)) (map full_row (transaction_table rs)) =
   map full_row (transaction_table (filter (involves i) rs))"
  by (induction rs) (simp_all add: transaction_table_def transaction_row_involves del: full_row_sint)

lemma prefix_transaction_table:
  "prefix xs (map full_row (transaction_table rs)) \<Longrightarrow> \<exists>n. xs = map full_row (transaction_table (take n rs))"
  by (auto simp: transaction_table_def prefix_def take_map intro!: exI [of _ "length xs"])
    (metis append_eq_conv_conj take_map map_map)


lemma sqlite_for_account_outcome:
  assumes "transactions_documented api rows" "rows db = transaction_table rs" "\<forall>r \<in> set rs. money_ok (rec_amount r)"
    "sqlite_transactions_for_account api i db = (Inr xs, db')"
  shows "prefix xs (map stored_form (filter (involves i) rs)) \<and> rows db' = rows db \<and>
    (run_finishes api db transactions_for_account_sql [(1, Sql_int (id_value i))] \<longrightarrow>
       xs = map stored_form (filter (involves i) rs))"
proof -
  let ?rs = "filter (involves i) rs"
  obtain ys where ys: "rows db' = rows db" "prefix ys (map full_row (transaction_table ?rs))"
    "Inr xs = push_rows (read_transaction api) ys"
    "run_finishes api db transactions_for_account_sql [(1, Sql_int (id_value i))] \<longrightarrow> ys = map full_row (transaction_table ?rs)"
    using query_rows_outcome [OF assms(4) [unfolded sqlite_transactions_forms], unfolded list.map snd_conv,
        OF transactions_documentedD(3) [OF assms(1)]]
    by (auto simp: assms(2) filter_transaction_table)
  obtain n where n: "ys = map full_row (transaction_table (take n ?rs))"
    using prefix_transaction_table [OF ys(2)] by blast
  have "\<forall>r \<in> set (take n ?rs). money_ok (rec_amount r)" using assms(3) by (auto dest: in_set_takeD)
  from read_transaction_rows [OF this, of api] ys(3) [symmetric] n have "xs = map stored_form (take n ?rs)" by simp
  moreover have "map stored_form (take n ?rs) = take n (map stored_form ?rs)" by (simp add: take_map)
  moreover have "xs = map stored_form ?rs" if "run_finishes api db transactions_for_account_sql [(1, Sql_int (id_value i))]"
    using ys(3) [symmetric] ys(4) that read_transaction_rows [of ?rs api] assms(3) by simp
  ultimately show ?thesis using ys(1) by (auto simp: take_is_prefix)
qed

lemma sqlite_append_table:
  assumes "transactions_documented api rows" "rows db = transaction_table rs"
    "sqlite_transactions_append api r db = (x, db')"
  shows "x = Inr () \<and> rec_id r \<notin> rec_id ` set rs \<and> rows db' = transaction_table (insort_key record_key r rs) \<or>
    (\<exists>e. x = Inl e) \<and> rows db' = rows db"
proof -
  have "rec_id r \<notin> rec_id ` set rs" if "omap_find (record_key r) (transaction_table rs) = None"
    using that by (auto simp: omap_find_map_of map_of_eq_None_iff transaction_table_def image_iff)
  then show ?thesis using sqlite_transactions_append_outcome [OF assms(1,3)]
    by (auto simp: assms(2) insert_new_Some transaction_table_insert)
qed

section \<open>Audit entries\<close>

definition audit_row :: "audit_entry \<Rightarrow> sql_row" where
  "audit_row e = [Sql_int (to_unix_ms (ae_timestamp e)), Sql_int (id_value (ae_actor_id e)),
     Sql_text (ae_action e), Sql_text (ae_details e)]"

definition audit_table :: "audit_entry list \<Rightarrow> sql_table" where
  "audit_table es = map (\<lambda>e. (sint (ae_id e), audit_row e)) es"

definition audit_plain :: "audit_entry \<Rightarrow> bool" where
  "audit_plain e \<longleftrightarrow> CHR 0x00 \<notin> set (ae_action e) \<union> set (ae_details e)"

text \<open>The times of entries and filters, cut to the millisecond.\<close>

definition ms_entry :: "audit_entry \<Rightarrow> audit_entry" where
  "ms_entry e = e\<lparr>ae_timestamp := ms_trunc (ae_timestamp e)\<rparr>"

definition ms_filter :: "audit_filter \<Rightarrow> audit_filter" where
  "ms_filter f = f\<lparr>af_since := map_option ms_trunc (af_since f)\<rparr>"

lemma sint_ms_trunc: "sint (ms_trunc t) = sint (to_unix_ms t) * ticks_per_ms"
  by (simp add: ms_trunc_def sint_from_unix_ms ms_ok_to_unix_ms)

lemma read_audit_row: "audit_plain e \<Longrightarrow> read_audit api (Sql_int (ae_id e) # audit_row e) = Inr (ms_entry e)"
  by (cases e) (simp add: read_audit_def audit_row_def column_i64_def column_text_def audit_plain_def ms_entry_def
      ms_trunc_def)

lemma audit_where_row: "audit_where f (Sql_int (ae_id e) # audit_row e) \<longleftrightarrow> matches_filter (ms_filter f) (ms_entry e)"
  by (cases "af_action f"; cases "af_actor f"; cases "af_since f")
    (auto simp: audit_where_def audit_row_def matches_filter_def ms_filter_def ms_entry_def word_sle_eq sint_ms_trunc
      ident.expand)

lemma sqlite_audit_forms:
  "sqlite_audit_append api e = with_statement api audit_append_sql ''audit.append''
     (bind_list api [(''bind int64'', 1, Sql_int (ae_id e)), (''bind int64'', 2, Sql_int (to_unix_ms (ae_timestamp e))),
        (''bind int64'', 3, Sql_int (id_value (ae_actor_id e))), (''bind text'', 4, Sql_text (ae_action e)),
        (''bind text'', 5, Sql_text (ae_details e))] (run_update api ''audit.append''))"
  by (simp add: sqlite_audit_append_def bind_forms)

lemma audit_documentedD:
  assumes "audit_documented api rows"
  shows "table_ok (rows db)"
    "updates api rows audit_append_sql
       [(1, Sql_int k), (2, Sql_int ms), (3, Sql_int actor), (4, Sql_text action), (5, Sql_text details)]
       (insert_new (sint k) [Sql_int ms, Sql_int actor, Sql_text action, Sql_text details])"
    "selects api rows (audit_find_sql f) (audit_binds f)
       (\<lambda>t full. mset full = mset (filter (audit_where f) (map full_row t)) \<and>
                 sorted_wrt (\<lambda>a b. row_time a \<le> row_time b) full)"
  using assms by (simp_all add: audit_documented_def)

lemma sqlite_audit_append_outcome:
  assumes "audit_documented api rows" "sqlite_audit_append api e db = (x, db')"
  shows "x = Inr () \<and> insert_new (sint (ae_id e)) (audit_row e) (rows db) = Some (rows db') \<or>
    (\<exists>err. x = Inl err) \<and> rows db' = rows db"
  using update_outcome [OF assms(2) [unfolded sqlite_audit_forms], unfolded list.map snd_conv,
      OF audit_documentedD(2) [OF assms(1)]]
  by (auto simp: audit_row_def)

lemma sqlite_audit_store:
  assumes "audit_documented api rows"
  shows "audit_store (sqlite_audit api) rows (\<lambda>e. omap_insert_or_assign (sint (ae_id e)) (audit_row e))"
proof
  show "rows db' = omap_insert_or_assign (sint (ae_id e)) (audit_row e) (rows db)"
    if "au_append (sqlite_audit api) db e = (Inr (), db')" for db e db'
    using sqlite_audit_append_outcome [OF assms, of e db] that by (auto simp: sqlite_audit_def insert_new_Some)
  show "rows db' = rows db" if "au_append (sqlite_audit api) db e = (Inl err, db')" for db e err db'
    using sqlite_audit_append_outcome [OF assms, of e db] that by (auto simp: sqlite_audit_def)
qed

text \<open>The bindings of a query, as a list.\<close>

definition audit_bind_list :: "audit_filter \<Rightarrow> (string \<times> nat \<times> sql_value) list" where
  "audit_bind_list f =
     (case af_action f of None \<Rightarrow> [] | Some a \<Rightarrow> [(''bind text'', 1, Sql_text a)]) @
     (case af_actor f of None \<Rightarrow> [] | Some i \<Rightarrow> [(''bind int64'', 2, Sql_int (id_value i))]) @
     (case af_since f of None \<Rightarrow> [] | Some t \<Rightarrow> [(''bind int64'', 3, Sql_int (to_unix_ms t))])"

lemma audit_bind_list_binds: "map snd (audit_bind_list f) = audit_binds f"
  by (simp add: audit_bind_list_def audit_binds_def split: option.splits)

lemma io_bind_unit: "io_bind (io_return x) f = f x"
  by (simp add: io_bind_def fun_eq_iff)

lemma sqlite_audit_find_form:
  "sqlite_audit_find api f = with_statement api (audit_find_sql f) ''audit.find''
     (bind_list api (audit_bind_list f) (query_rows api (read_audit api)))"
  by (cases "af_action f"; cases "af_actor f"; cases "af_since f")
    (simp_all add: sqlite_audit_find_def audit_bind_list_def bind_criterion_def bind_forms io_bind_unit)

end
