(* ===== verification/Bank_Sqlite_Sample.thy ===== *)
theory Bank_Sqlite_Sample
  imports Bank_Sqlite_Correct
begin

text \<open>
  Small concrete engines, one for each table, that behave as SQLite is documented to. They show that the
  hypotheses on the library can be met, and carry the concrete instances of the properties.
\<close>

definition sane :: "sql_table \<Rightarrow> sql_table" where
  "sane t = (if table_ok t then t else [])"

lemma table_ok_sane: "table_ok (sane t)"
  by (simp add: sane_def table_ok_def omap_ok_def)

lemma sane_id [simp]: "table_ok t \<Longrightarrow> sane t = t"
  by (simp add: sane_def)

lemma table_ok_insert: "table_ok t \<Longrightarrow> table_ok (omap_insert_or_assign (sint (k :: i64)) r t)"
  using sint_i64_range [of k] by (auto simp: table_ok_def omap_insert_ok omap_insert_keys)

lemma table_ok_erase: "table_ok t \<Longrightarrow> table_ok (omap_erase k t)"
  using omap_erase_set [of k t] by (auto simp: table_ok_def omap_erase_ok)

definition sql_done :: sql_code where "sql_done = (SQLITE_DONE, [])"
definition sql_refused :: sql_code where "sql_refused = (19, ''UNIQUE constraint failed'')"

lemma codes [simp]: "fst sql_done = SQLITE_DONE" "is_error sql_refused" "fst sql_refused \<noteq> SQLITE_DONE"
  by (simp_all add: sql_done_def sql_refused_def is_error_def)

text \<open>An engine that prepares and binds everything, given what it runs.\<close>

definition engine :: "(sql_table \<Rightarrow> string \<Rightarrow> sql_value list \<Rightarrow> sql_row list \<times> sql_code \<times> sql_table) \<Rightarrow> sql_table sqlite" where
  "engine run =
     \<lparr>sq_open = (\<lambda>path. ((SQLITE_OK, []), Some [])), sq_exec = (\<lambda>db sql. (SQLITE_OK, None, db)),
      sq_prepare = (\<lambda>db sql. (SQLITE_OK, [])), sq_bind = (\<lambda>db sql i v. (SQLITE_OK, [])),
      sq_run = (\<lambda>db sql ps. run (sane db) sql (map snd ps)), sq_int_of_text = (\<lambda>s. 0)\<rparr>"

lemma engine_selects:
  assumes "\<And>t. table_ok t \<Longrightarrow> run t sql (map snd ps) = (full t, sql_done, t)" "\<And>t. table_ok t \<Longrightarrow> answer t (full t)"
  shows "selects (engine run) sane sql ps answer"
  using assms [OF table_ok_sane] by (auto simp: selects_def engine_def table_ok_sane)

lemma engine_updates:
  assumes "\<And>t. table_ok t \<Longrightarrow> run t sql (map snd ps) =
      (case f t of Some t' \<Rightarrow> ([], sql_done, t') | None \<Rightarrow> ([], sql_refused, t))"
    "\<And>t t'. table_ok t \<Longrightarrow> f t = Some t' \<Longrightarrow> table_ok t'"
  shows "updates (engine run) sane sql ps f"
  using assms [OF table_ok_sane] by (auto simp: updates_def engine_def table_ok_sane split: option.splits)

section \<open>Accounts\<close>

definition run_accounts :: "sql_table \<Rightarrow> string \<Rightarrow> sql_value list \<Rightarrow> sql_row list \<times> sql_code \<times> sql_table" where
  "run_accounts t sql vs =
     (case vs of
        [] \<Rightarrow> (map full_row t, sql_done, t)
      | [Sql_int k] \<Rightarrow>
          if sql = accounts_remove_sql then ([], sql_done, omap_erase (sint k) t)
          else (case omap_find (sint k) t of None \<Rightarrow> [] | Some r \<Rightarrow> [Sql_int k # r], sql_done, t)
      | Sql_int k # r \<Rightarrow> ([], sql_done, omap_insert_or_assign (sint k) r t)
      | _ \<Rightarrow> ([], sql_refused, t))"

abbreviation accounts_engine :: "sql_table sqlite" where
  "accounts_engine \<equiv> engine run_accounts"

lemma accounts_engine_documented: "accounts_documented accounts_engine sane"
proof -
  have "accounts_find_sql \<noteq> accounts_remove_sql" by (simp add: accounts_find_sql_def accounts_remove_sql_def)
  then show ?thesis unfolding accounts_documented_def
    by (intro conjI allI table_ok_sane engine_selects engine_updates)
      (auto simp: run_accounts_def lookup_answer_def intro: table_ok_insert table_ok_erase)
qed

text \<open>The same engine serves the customers.\<close>

lemma accounts_engine_customers: "customers_documented accounts_engine sane"
proof -
  have "customers_find_sql \<noteq> accounts_remove_sql" by (simp add: customers_find_sql_def accounts_remove_sql_def)
  then show ?thesis unfolding customers_documented_def
    by (intro conjI allI table_ok_sane engine_selects engine_updates)
      (auto simp: run_accounts_def lookup_answer_def intro: table_ok_insert)
qed

section \<open>Transactions\<close>

definition run_transactions :: "sql_table \<Rightarrow> string \<Rightarrow> sql_value list \<Rightarrow> sql_row list \<times> sql_code \<times> sql_table" where
  "run_transactions t sql vs =
     (case vs of
        [] \<Rightarrow> (map full_row t, sql_done, t)
      | [v] \<Rightarrow> (filter (\<lambda>r. column r 4 = v \<or> column r 5 = v) (map full_row t), sql_done, t)
      | Sql_int k # r \<Rightarrow>
          (case insert_new (sint k) r t of Some t' \<Rightarrow> ([], sql_done, t') | None \<Rightarrow> ([], sql_refused, t))
      | _ \<Rightarrow> ([], sql_refused, t))"

abbreviation transactions_engine :: "sql_table sqlite" where
  "transactions_engine \<equiv> engine run_transactions"

lemma transactions_engine_documented: "transactions_documented transactions_engine sane"
  unfolding transactions_documented_def
  by (intro conjI allI table_ok_sane engine_selects engine_updates)
    (auto simp: run_transactions_def insert_new_Some intro: table_ok_insert)

section \<open>Audit entries\<close>

text \<open>The audit query is told by its bindings, so this engine looks at their numbers.\<close>

definition run_audit :: "sql_table \<Rightarrow> sql_binds \<Rightarrow> sql_row list \<times> sql_code \<times> sql_table" where
  "run_audit t ps =
     (case ps of
        [(_, Sql_int k), (_, ms), (_, actor), (_, action), (_, details)] \<Rightarrow>
          (case insert_new (sint k) [ms, actor, action, details] t of
             Some t' \<Rightarrow> ([], sql_done, t') | None \<Rightarrow> ([], sql_refused, t))
      | _ \<Rightarrow>
          (sort_key row_time (filter (\<lambda>r. \<forall>(i, v) \<in> set ps.
              if i = 3 then (case (column r 1, v) of (Sql_int n, Sql_int b) \<Rightarrow> b <=s n | _ \<Rightarrow> False)
              else column r (if i = 1 then 3 else 2) = v) (map full_row t)), sql_done, t))"

definition audit_engine :: "sql_table sqlite" where
  "audit_engine = (engine (\<lambda>t sql vs. ([], sql_done, t)))\<lparr>sq_run := (\<lambda>db sql ps. run_audit (sane db) ps)\<rparr>"

lemma audit_engine_append: "updates audit_engine sane audit_append_sql
   [(1, Sql_int k), (2, Sql_int ms), (3, Sql_int actor), (4, Sql_text action), (5, Sql_text details)]
   (insert_new (sint k) [Sql_int ms, Sql_int actor, Sql_text action, Sql_text details])"
  using table_ok_insert [OF table_ok_sane]
  by (auto simp: updates_def audit_engine_def run_audit_def insert_new_Some table_ok_sane split: option.splits)

lemma audit_engine_find: "selects audit_engine sane (audit_find_sql f) (audit_binds f)
   (\<lambda>t full. mset full = mset (filter (audit_where f) (map full_row t)) \<and>
             sorted_wrt (\<lambda>a b. row_time a \<le> row_time b) full)"
proof -
  have "(\<forall>(i, v) \<in> set (audit_binds f).
      if i = 3 then (case (column r 1, v) of (Sql_int n, Sql_int b) \<Rightarrow> b <=s n | _ \<Rightarrow> False)
      else column r (if i = 1 then 3 else 2) = v) \<longleftrightarrow> audit_where f r" for r
    by (cases "af_action f"; cases "af_actor f"; cases "af_since f"; cases "column r 1")
      (simp_all add: audit_binds_def audit_where_def)
  then have run: "run_audit t (audit_binds f) = (sort_key row_time (filter (audit_where f) (map full_row t)), sql_done, t)" for t
    by (cases "af_action f"; cases "af_actor f"; cases "af_since f")
      (simp_all add: run_audit_def audit_binds_def)
  have "sorted_wrt (\<lambda>a b. row_time a \<le> row_time b) (sort_key row_time rs)" for rs
    using sorted_sort_key [of row_time rs] by (simp add: sorted_wrt_map)
  then show ?thesis
    by (auto simp: selects_def audit_engine_def run table_ok_sane
        intro: exI [of _ "sort_key row_time (filter (audit_where f) (map full_row (sane db)))" for db])
qed

lemma audit_engine_documented: "audit_documented audit_engine sane"
  unfolding audit_documented_def by (intro conjI allI table_ok_sane audit_engine_append audit_engine_find)


lemma audit_engine_finds: "\<exists>xs. fst (sqlite_audit_find audit_engine f db) = Inr xs"
proof -
  have "\<exists>ys. push_rows (read_audit api) rs = Inr ys" for rs and api :: "sql_table sqlite"
    by (induction rs) (auto simp: read_audit_def)
  moreover have "sqlite_audit_find audit_engine f db = map_prod id st_db (query_rows audit_engine (read_audit audit_engine)
      \<lparr>st_db = db, st_sql = audit_find_sql f, st_binds = map snd (audit_bind_list f), st_pending = None, st_row = []\<rparr>)"
    unfolding sqlite_audit_find_form by (rule with_statement_runs) (simp_all add: audit_engine_def engine_def)
  ultimately show ?thesis by (simp add: query_rows_def split: prod.splits)
qed

lemma audit_engine_finishes: "run_finishes audit_engine db (audit_find_sql f) (audit_binds f)"
  by (cases "af_action f"; cases "af_actor f"; cases "af_since f")
    (simp_all add: run_finishes_def audit_engine_def run_audit_def audit_binds_def)

end
