(* ===== verification/Bank_Sqlite_Props.thy ===== *)
theory Bank_Sqlite_Props
  imports Bank_Sqlite_Sample Bank_Sample
begin

text \<open>
  The properties of the SQLite repositories, and of the processor on top of them. Each repository has a
  database of its own here; the hypotheses are the documented behaviour of the library.
\<close>

section \<open>Reading what was written\<close>

lemma table_ok_key: "table_ok t \<Longrightarrow> (k, r) \<in> set t \<Longrightarrow> sint (word_of_int k :: i64) = k"
  by (rule sint_word_of_int_i64) (auto simp: table_ok_def dest!: bspec)

lemma list_all2_source: "list_all2 P xs ys \<Longrightarrow> y \<in> set ys \<Longrightarrow> \<exists>x \<in> set xs. P x y"
  by (induction rule: list_all2_induct) auto

lemma list_all2_target: "list_all2 P xs ys \<Longrightarrow> x \<in> set xs \<Longrightarrow> \<exists>y \<in> set ys. P x y"
  by (induction rule: list_all2_induct) auto

lemma sqlite_accounts_all_outcome:
  assumes "accounts_documented api rows" "fst (sqlite_accounts_all api db) = Inr accts"
  shows "sorted_wrt (\<lambda>a b. sint (id_value (acc_id a)) < sint (id_value (acc_id b))) accts \<and>
    (\<forall>a \<in> set accts. sqlite_accounts_view api rows db (acc_id a) = Some a) \<and>
    (run_finishes api db accounts_all_sql [] \<longrightarrow> (\<forall>i a. sqlite_accounts_view api rows db i = Some a \<longrightarrow> a \<in> set accts))"
proof -
  let ?t = "rows db"
  have ok: "table_ok ?t" by (rule accounts_documentedD [OF assms(1)])
  obtain rs where rs: "prefix rs (map full_row ?t)" "Inr accts = push_rows (read_account api) rs"
    "run_finishes api db accounts_all_sql [] \<longrightarrow> rs = map full_row ?t"
    using query_rows_outcome [OF prod.collapse [symmetric, of "sqlite_accounts_all api db", unfolded sqlite_accounts_forms],
        unfolded list.map, OF accounts_documentedD(3) [OF assms(1)]] assms(2)
    by (auto simp: sqlite_accounts_forms)
  then obtain n where n: "rs = map full_row (take n ?t)"
    by (metis append_eq_conv_conj prefix_def take_map)
  have read: "list_all2 (\<lambda>p a. read_account api (full_row p) = Inr a) (take n ?t) accts"
    using rs(2) [symmetric] by (simp add: push_rows_Inr n list_all2_map1)
  have key: "sint (id_value (acc_id a)) = fst p \<and> decode_account api (Sql_int (id_value (acc_id a)) # snd p) = Some a"
    if "read_account api (full_row p) = Inr a" "p \<in> set ?t" for p a
  proof -
    have d: "decode_account api (Sql_int (word_of_int (fst p)) # snd p) = Some a"
      using read_account_decode [OF that(1)] by (simp add: full_row_def)
    from decode_account_id [OF d] have "id_value (acc_id a) = word_of_int (fst p)" by simp
    then show ?thesis using d table_ok_key [OF ok, of "fst p" "snd p"] that(2) by simp
  qed
  have keys: "map (\<lambda>a. sint (id_value (acc_id a))) accts = map fst (take n ?t)"
  proof -
    have "list_all2 (\<lambda>p a. sint (id_value (acc_id a)) = fst p) (take n ?t) accts"
      by (rule list.rel_mono_strong [OF read]) (use key in \<open>blast dest: in_set_takeD\<close>)
    then show ?thesis by (induction rule: list_all2_induct) simp_all
  qed
  have "sorted_wrt (<) (map fst (take n ?t))"
    using ok sorted_wrt_take by (auto simp: table_ok_def omap_ok_def take_map [symmetric])
  then have "sorted_wrt (<) (map (\<lambda>a. sint (id_value (acc_id a))) accts)" by (simp add: keys)
  moreover have "sqlite_accounts_view api rows db (acc_id a) = Some a" if "a \<in> set accts" for a
  proof -
    obtain p where p: "p \<in> set (take n ?t)" "read_account api (full_row p) = Inr a"
      using list_all2_source [OF read \<open>a \<in> set accts\<close>] by blast
    then have "p \<in> set ?t" by (auto dest: in_set_takeD)
    moreover from this have "omap_find (fst p) ?t = Some (snd p)"
      using ok omap_ok_distinct [of ?t] by (simp add: omap_find_map_of table_ok_def)
    ultimately show ?thesis using key [OF p(2)] by (simp add: sqlite_accounts_view_def)
  qed
  moreover have "a \<in> set accts"
    if "run_finishes api db accounts_all_sql []" "sqlite_accounts_view api rows db i = Some a" for i a
  proof -
    note view = that(2)
    have "rs = map full_row ?t" using rs(3) that(1) by blast
    then have "length (take n ?t) = length ?t" unfolding n by (metis length_map)
    then have "take n ?t = ?t" by simp
    obtain r where r: "omap_find (sint (id_value i)) ?t = Some r" "decode_account api (Sql_int (id_value i) # r) = Some a"
      using view by (auto simp: sqlite_accounts_view_def bind_eq_Some_conv)
    then have "(sint (id_value i), r) \<in> set (take n ?t)"
      using \<open>take n ?t = ?t\<close> by (simp add: omap_find_map_of map_of_SomeD)
    then obtain a' where a': "a' \<in> set accts" "read_account api (full_row (sint (id_value i), r)) = Inr a'"
      using list_all2_target [OF read] by blast
    then have "a' = a" using read_account_decode [OF a'(2)] r(2) by simp
    then show ?thesis using a'(1) by simp
  qed
  ultimately show ?thesis by (auto simp: sorted_wrt_map)
qed

text \<open>
  C33: the SQLite account repository is a finite map by account id, whatever fails, given the documented
  behaviour of SQLite. Every find that returns gives the stored account; a save that returns has stored exactly the
  account it was given, and one that throws has changed nothing; the same for remove; and an \<open>all()\<close> that returns
  lists stored accounts, each once, in ascending order of their ids read as signed numbers, and all of them if
  the query was not cut short by an error (which \<open>all()\<close> does not report).
\<close>

theorem sqlite_accounts_refine_map:
  assumes "accounts_documented api rows" "sqlite_accounts_save api a db = (x, db1)"
    "sqlite_accounts_remove api j db = (y, db2)"
  shows "(\<forall>i z. fst (sqlite_accounts_find api i db) = Inr z \<longrightarrow> z = sqlite_accounts_view api rows db i) \<and>
    sqlite_accounts_view api rows db1 =
      (if x = Inr () then (sqlite_accounts_view api rows db)(acc_id a \<mapsto> a) else sqlite_accounts_view api rows db) \<and>
    sqlite_accounts_view api rows db2 =
      (if y = Inr () then (sqlite_accounts_view api rows db)(j := None) else sqlite_accounts_view api rows db) \<and>
    (\<forall>accts. fst (sqlite_accounts_all api db) = Inr accts \<longrightarrow>
       sorted_wrt (\<lambda>a b. sint (id_value (acc_id a)) < sint (id_value (acc_id b))) accts \<and>
       (\<forall>b \<in> set accts. sqlite_accounts_view api rows db (acc_id b) = Some b) \<and>
       (run_finishes api db accounts_all_sql [] \<longrightarrow>
         (\<forall>i b. sqlite_accounts_view api rows db i = Some b \<longrightarrow> b \<in> set accts)))"
proof (intro conjI)
  note doc = assms(1)
  show "\<forall>i z. fst (sqlite_accounts_find api i db) = Inr z \<longrightarrow> z = sqlite_accounts_view api rows db i"
    by (metis sqlite_accounts_find_outcome [OF doc prod.collapse [symmetric]] sum.distinct(1) sum.inject(2))
  show "sqlite_accounts_view api rows db1 =
      (if x = Inr () then (sqlite_accounts_view api rows db)(acc_id a \<mapsto> a) else sqlite_accounts_view api rows db)"
    using sqlite_accounts_save_outcome [OF doc assms(2)] sqlite_accounts_view_save [of rows db1 a db api]
    by (auto simp: sqlite_accounts_view_def fun_eq_iff)
  have "omap_ok (rows db)" using accounts_documentedD(1) [OF doc] by (simp add: table_ok_def)
  then show "sqlite_accounts_view api rows db2 =
      (if y = Inr () then (sqlite_accounts_view api rows db)(j := None) else sqlite_accounts_view api rows db)"
    using sqlite_accounts_remove_outcome [OF doc assms(3)]
    by (auto simp: sqlite_accounts_view_def fun_eq_iff omap_find_erase sint_ids)
  show "\<forall>accts. fst (sqlite_accounts_all api db) = Inr accts \<longrightarrow>
       sorted_wrt (\<lambda>a b. sint (id_value (acc_id a)) < sint (id_value (acc_id b))) accts \<and>
       (\<forall>b \<in> set accts. sqlite_accounts_view api rows db (acc_id b) = Some b) \<and>
       (run_finishes api db accounts_all_sql [] \<longrightarrow>
         (\<forall>i b. sqlite_accounts_view api rows db i = Some b \<longrightarrow> b \<in> set accts))"
    using sqlite_accounts_all_outcome [OF doc] by blast
qed

theorem sqlite_accounts_refine_map_witness:
  "\<exists>db1. sqlite_accounts_save accounts_engine (sample_account 5 700) [] = (Inr (), db1) \<and>
     sqlite_accounts_view accounts_engine sane db1 (Id 5) = Some (sample_account 5 700)"
proof -
  obtain db1 where save: "sqlite_accounts_save accounts_engine (sample_account 5 700) [] = (Inr (), db1)"
    by (simp add: sqlite_accounts_forms with_statement_def bind_value_def io_bind_def expect_ok_cases run_update_def
        sql_step_def engine_def run_accounts_def is_error_def sql_done_def)
  obtain y db2 where "sqlite_accounts_remove accounts_engine (Id 5) [] = (y, db2)" by fastforce
  from sqlite_accounts_refine_map [OF accounts_engine_documented save this] save show ?thesis
    by (simp add: sample_account_def)
qed

text \<open>
  The SQLite transaction repository keeps each record once, by id. On a table that holds records in range,
  an append either adds the record at the place of its id, and then no record had that id, or throws and
  changes nothing; and the history of an account that comes back is the records that name it, in
  ascending order of ids, with their times cut to the millisecond, all of them if the query was not cut
  short by an error.
\<close>

theorem sqlite_transactions_history:
  assumes "transactions_documented api rows" "rows db = transaction_table rs" "\<forall>r \<in> set rs. money_ok (rec_amount r)"
    "sqlite_transactions_append api r db = (x, db')" "money_ok (rec_amount r)"
  shows "(case x of
       Inr _ \<Rightarrow> rec_id r \<notin> rec_id ` set rs \<and> rows db' = transaction_table (insort_key record_key r rs)
     | Inl e \<Rightarrow> rows db' = rows db) \<and>
    (\<forall>i xs. fst (sqlite_transactions_for_account api i db) = Inr xs \<longrightarrow>
       prefix xs (map stored_form (filter (involves i) rs)) \<and>
       (run_finishes api db transactions_for_account_sql [(1, Sql_int (id_value i))] \<longrightarrow>
          xs = map stored_form (filter (involves i) rs)))"
proof (rule conjI)
  show "case x of
       Inr _ \<Rightarrow> rec_id r \<notin> rec_id ` set rs \<and> rows db' = transaction_table (insort_key record_key r rs)
     | Inl e \<Rightarrow> rows db' = rows db"
    using sqlite_append_table [OF assms(1,2,4)] by auto
  show "\<forall>i xs. fst (sqlite_transactions_for_account api i db) = Inr xs \<longrightarrow>
       prefix xs (map stored_form (filter (involves i) rs)) \<and>
       (run_finishes api db transactions_for_account_sql [(1, Sql_int (id_value i))] \<longrightarrow>
          xs = map stored_form (filter (involves i) rs))"
  proof (intro allI impI)
    fix i xs
    assume "fst (sqlite_transactions_for_account api i db) = Inr xs"
    then have "sqlite_transactions_for_account api i db = (Inr xs, snd (sqlite_transactions_for_account api i db))"
      by (metis prod.collapse)
    from sqlite_for_account_outcome [OF assms(1-3) this]
    show "prefix xs (map stored_form (filter (involves i) rs)) \<and>
       (run_finishes api db transactions_for_account_sql [(1, Sql_int (id_value i))] \<longrightarrow>
          xs = map stored_form (filter (involves i) rs))" by blast
  qed
qed

definition sample_record :: "u64 \<Rightarrow> transaction_record" where
  "sample_record i = project_transaction 5000001 (Id i) (Deposit (Id 3) (Mk_Money 250))"

lemma sample_record_ok: "money_ok (rec_amount (sample_record i))" "rec_id (sample_record i) = Id i"
  by (simp_all add: sample_record_def project_transaction_def money_ok_def amount_def)

lemma sample_table_ok: "table_ok (transaction_table [sample_record 4])"
  by (simp add: table_ok_def transaction_table_def omap_ok_def sample_record_ok)

theorem sqlite_transactions_history_witness:
  "\<exists>x db'. sqlite_transactions_append transactions_engine (sample_record 4) (transaction_table [sample_record 4]) = (x, db') \<and>
     (\<forall>e. x \<noteq> Inr e) \<and> sane db' = transaction_table [sample_record 4]"
proof -
  let ?t = "transaction_table [sample_record 4]"
  obtain x db' where run: "sqlite_transactions_append transactions_engine (sample_record 4) ?t = (x, db')" by fastforce
  have rows: "sane ?t = ?t" using sample_table_ok by simp
  have ok: "\<forall>r \<in> set [sample_record 4]. money_ok (rec_amount r)" using sample_record_ok by simp
  from sqlite_transactions_history [OF transactions_engine_documented rows ok run sample_record_ok(1)] rows run
  show ?thesis by (cases x) auto
qed

text \<open>
  C34: the SQLite audit query is the in-memory one, with times cut to the millisecond, given the documented
  behaviour of SQLite and a table that holds entries whose texts have no NUL character. A query that comes back
  gives only entries of the in-memory query over the same entries and the same filter with all times cut to
  the millisecond, in ascending order of time; and if it was not cut short by an error it gives exactly those.
\<close>

theorem sqlite_audit_query_equiv:
  assumes "audit_documented api rows" "rows db = audit_table es" "\<forall>e \<in> set es. audit_plain e"
    "sqlite_audit_find api f db = (Inr xs, db')"
  shows "\<exists>ys. mem_audit_find (map ms_entry es) (ms_filter f) = Inr ys \<and> mset xs \<subseteq># mset ys \<and>
    sorted_wrt (\<lambda>a b. sint (ae_timestamp a) \<le> sint (ae_timestamp b)) xs \<and>
    (run_finishes api db (audit_find_sql f) (audit_binds f) \<longrightarrow> mset xs = mset ys)"
proof -
  let ?m = "filter (\<lambda>e. matches_filter (ms_filter f) (ms_entry e)) es"
  have table: "filter (audit_where f) (map full_row (audit_table es)) = map (\<lambda>e. Sql_int (ae_id e) # audit_row e) ?m"
    by (induction es) (simp_all add: audit_table_def audit_where_row)
  obtain full rs where full: "mset full = mset (map (\<lambda>e. Sql_int (ae_id e) # audit_row e) ?m)"
    "sorted_wrt (\<lambda>a b. row_time a \<le> row_time b) full" "prefix rs full" "Inr xs = push_rows (read_audit api) rs"
    "run_finishes api db (audit_find_sql f) (audit_binds f) \<longrightarrow> rs = full"
    using query_rows_outcome [OF assms(4) [unfolded sqlite_audit_find_form], unfolded audit_bind_list_binds,
        OF audit_documentedD(3) [OF assms(1)]] by (auto simp: assms(2) table)
  define rd where "rd r = (case read_audit api r of Inr e \<Rightarrow> e)" for r
  have read: "read_audit api r = Inr (rd r)" for r by (simp add: rd_def read_audit_def)
  then have xs: "xs = map rd rs" using full(4) push_rows_total [of rs "read_audit api" rd] by simp
  have rows: "rd (Sql_int (ae_id e) # audit_row e) = ms_entry e" if "e \<in> set es" for e
    using read_audit_row [of e api] assms(3) that by (simp add: rd_def)
  have images: "mset (map rd full) = mset (map ms_entry ?m)"
  proof -
    have "mset (map rd full) = mset (map rd (map (\<lambda>e. Sql_int (ae_id e) # audit_row e) ?m))"
      using full(1) by (metis mset_map)
    also have "map rd (map (\<lambda>e. Sql_int (ae_id e) # audit_row e) ?m) = map ms_entry ?m"
      using rows by simp
    finally show ?thesis .
  qed
  have time: "row_time r * ticks_per_ms = sint (ae_timestamp (rd r))" if "r \<in> set full" for r
  proof -
    have "set full = (\<lambda>e. Sql_int (ae_id e) # audit_row e) ` set ?m" using full(1) by (metis set_map set_mset_mset)
    then obtain e where "e \<in> set es" "r = Sql_int (ae_id e) # audit_row e"
      using \<open>r \<in> set full\<close> by auto
    then show ?thesis using rows by (simp add: row_time_def audit_row_def ms_entry_def sint_ms_trunc)
  qed
  have "sorted_wrt (\<lambda>a b. sint (ae_timestamp (rd a)) \<le> sint (ae_timestamp (rd b))) full"
    by (rule sorted_wrt_mono_rel [OF _ full(2)]) (simp add: time [symmetric])
  then have "sorted_wrt (\<lambda>a b. sint (ae_timestamp a) \<le> sint (ae_timestamp b)) xs"
    using full(3) by (auto simp: xs sorted_wrt_map prefix_def sorted_wrt_append)
  moreover have "mset xs \<subseteq># mset (map rd full)"
    using full(3) by (auto simp: xs prefix_def)
  moreover have "filter (matches_filter (ms_filter f)) (map ms_entry es) = map ms_entry ?m"
    by (simp add: filter_map comp_def)
  ultimately show ?thesis using images full(5)
    by (auto simp: mem_audit_find_def mem_audit_find_loop_filter xs)
qed

definition sample_entries :: "audit_entry list" where
  "sample_entries =
     [\<lparr>ae_id = 1, ae_timestamp = 7000009, ae_actor_id = Id 0, ae_action = ''txn.completed'', ae_details = ''a''\<rparr>,
      \<lparr>ae_id = 2, ae_timestamp = 3000001, ae_actor_id = Id 0, ae_action = ''txn.failed'', ae_details = ''b''\<rparr>]"

lemma sample_entries_ok: "table_ok (audit_table sample_entries)" "\<forall>e \<in> set sample_entries. audit_plain e"
  by (simp_all add: table_ok_def audit_table_def omap_ok_def sample_entries_def audit_plain_def)

text \<open>The later of two entries in the same millisecond as the filter's time is found, as is the earlier one.\<close>

theorem sqlite_audit_query_equiv_witness:
  "\<exists>xs. fst (sqlite_audit_find audit_engine \<lparr>af_action = None, af_actor = None, af_since = Some 7000500\<rparr>
       (audit_table sample_entries)) = Inr xs \<and> map ae_id xs = [1]"
proof -
  let ?f = "\<lparr>af_action = None, af_actor = None, af_since = Some 7000500 :: time_point option\<rparr>"
    and ?db = "audit_table sample_entries"
  have rows: "sane ?db = audit_table sample_entries" using sample_entries_ok by simp
  obtain xs db' where run: "sqlite_audit_find audit_engine ?f ?db = (Inr xs, db')"
    using audit_engine_finds [of ?f ?db] by (metis prod.collapse)
  note audit_engine_finishes [of ?db ?f]
  with sqlite_audit_query_equiv [OF audit_engine_documented rows sample_entries_ok(2) run]
  have "mset xs = mset (filter (matches_filter (ms_filter ?f)) (map ms_entry sample_entries))"
    by (auto simp: mem_audit_find_def mem_audit_find_loop_filter)
  also have "filter (matches_filter (ms_filter ?f)) (map ms_entry sample_entries) = [ms_entry (hd sample_entries)]"
    by code_simp
  finally show ?thesis using run by (auto simp: sample_entries_def ms_entry_def)
qed

lemma positive_id_less: "sint x < sint y \<Longrightarrow> 0 \<le> sint x \<Longrightarrow> (x :: u64) < y"
  by (simp add: word_less_def uint_sint_i64)

text \<open>
  C35: a query that fails half way is not reported. Take SQLite as documented, a table that holds records
  with positive ids and amounts in range, and a query for all transactions that is prepared but ends with an
  error after some rows were handed out. Then \<open>all()\<close> returns exactly those first records, their times cut to
  the millisecond, as if they were all, and the table is as it was; and a processor made on that repository and an empty journal is created,
  and hands out next an id that is not above any of the records that were left out.
\<close>

theorem sqlite_query_error_unreported:
  assumes "transactions_documented api rows" "rows db = transaction_table rs"
    "\<forall>r \<in> set rs. money_ok (rec_amount r) \<and> 0 < record_key r"
    "fst (sq_prepare api db transactions_all_sql) = SQLITE_OK"
    "sq_run api db transactions_all_sql [] = (out, rc, db')" "is_error rc"
    "rp_transactions repos = sqlite_transactions api"
  shows "sqlite_transactions_all api db = (Inr (map stored_form (take (length out) rs)), db') \<and> rows db' = rows db \<and>
    (\<exists>p. processor_create n repos a db u (wal_open path (Some [])) = Inr p \<and>
       (\<forall>r \<in> set (drop (length out) rs). pr_next_id p \<le> id_value (rec_id r)))"
proof -
  let ?first = "take (length out) rs" and ?rest = "drop (length out) rs"
  note doc = transactions_documentedD [OF assms(1)]
  obtain full where rows: "rows db' = rows db" and "full = map full_row (rows db)" "prefix out full"
    by (rule selects_run [OF doc(4) assms(5)])
  then have "prefix out (map full_row (transaction_table rs))" by (simp add: assms(2))
  then obtain m where m: "out = map full_row (transaction_table (take m rs))" using prefix_transaction_table by blast
  have "length out = min m (length rs)" unfolding m by (simp add: transaction_table_def)
  then have "take m rs = ?first" by (simp add: min_def)
  then have run: "sq_run api db transactions_all_sql [] = (map full_row (transaction_table ?first), rc, db')"
    using assms(5) m by metis
  have "push_rows (read_transaction api) (map full_row (transaction_table ?first)) = Inr (map stored_form ?first)"
    using assms(3) by (intro read_transaction_rows) (auto dest: in_set_takeD)
  then have all: "sqlite_transactions_all api db = (Inr (map stored_form ?first), db')"
    using assms(4) run by (simp add: sqlite_transactions_forms with_statement_def query_rows_def)
  define top where "top = foldl (\<lambda>m r. max m (id_value (rec_id r))) 0 (map stored_form ?first)"
  have "load_all (wal_open path (Some [])) = []" by (simp add: load_all_def scan_no_newline List.map_filter_def)
  then obtain p where p: "processor_create n repos a db u (wal_open path (Some [])) = Inr p" "pr_next_id p = top + 1"
    using all by (simp add: processor_create_def assms(7)) (simp add: sqlite_transactions_def top_def)
  have "pr_next_id p \<le> id_value (rec_id r)" if r: "r \<in> set ?rest" for r
  proof -
    have "sorted_wrt (\<lambda>x y. record_key x < record_key y) (?first @ ?rest)"
      using doc(1) [of db] by (simp add: assms(2) table_ok_def omap_ok_def transaction_table_def sorted_wrt_map comp_def)
    then have "\<forall>x \<in> set ?first. record_key x < record_key r" using r unfolding sorted_wrt_append by blast
    moreover have positive: "\<forall>x \<in> set rs. 0 < record_key x" "r \<in> set rs" using assms(3) r by (auto dest: in_set_dropD)
    ultimately have "\<forall>x \<in> set ?first. id_value (rec_id x) < id_value (rec_id r)"
      by (metis positive_id_less in_set_takeD less_imp_le)
    moreover have "0 < id_value (rec_id r)" using positive_id_less [of 0 "id_value (rec_id r)"] positive by simp
    ultimately have "top < id_value (rec_id r)" unfolding top_def by (intro foldl_max_less) (auto simp: stored_form_def)
    then show ?thesis unfolding p(2) by (rule inc_le)
  qed
  then show ?thesis using all rows p(1) by blast
qed

text \<open>An engine whose queries for all transactions fail after the first row.\<close>

definition failing_engine :: "sql_table sqlite" where
  "failing_engine = transactions_engine\<lparr>sq_run := \<lambda>db sql ps.
     if sql = transactions_all_sql \<and> ps = [] then (take 1 (map full_row (sane db)), (10, ''disk I/O error''), db)
     else sq_run transactions_engine db sql ps\<rparr>"

lemma failing_engine_documented: "transactions_documented failing_engine sane"
proof -
  have "selects failing_engine sane transactions_all_sql [] (\<lambda>t full. full = map full_row t)"
    by (simp add: selects_def failing_engine_def is_error_def take_is_prefix)
  moreover have "selects failing_engine sane sql ps answer \<longleftrightarrow> selects transactions_engine sane sql ps answer"
    "updates failing_engine sane sql ps f \<longleftrightarrow> updates transactions_engine sane sql ps f" if "ps \<noteq> []" for sql ps answer f
    using that by (simp_all add: selects_def updates_def failing_engine_def)
  ultimately show ?thesis
    using transactions_engine_documented by (simp add: transactions_documented_def)
qed

theorem sqlite_query_error_unreported_witness:
  "\<exists>p. processor_create 1 \<lparr>rp_accounts = mem_accounts, rp_transactions = sqlite_transactions failing_engine, rp_audit = mem_audit\<rparr>
       [] (transaction_table [sample_record 4, sample_record 5]) [] (wal_open ''wal'' (Some [])) = Inr p \<and>
     sqlite_transactions_all failing_engine (transaction_table [sample_record 4, sample_record 5]) =
       (Inr [stored_form (sample_record 4)], transaction_table [sample_record 4, sample_record 5]) \<and>
     pr_next_id p \<le> 5"
proof -
  let ?rs = "[sample_record 4, sample_record 5]"
  let ?db = "transaction_table ?rs" and ?repos = "\<lparr>rp_accounts = mem_accounts,
    rp_transactions = sqlite_transactions failing_engine, rp_audit = mem_audit\<rparr>"
  have "table_ok ?db" by (simp add: table_ok_def transaction_table_def omap_ok_def sample_record_ok)
  then have rows: "sane ?db = ?db" by simp
  have "\<forall>r \<in> set ?rs. money_ok (rec_amount r) \<and> 0 < record_key r" by (simp add: sample_record_ok)
  moreover have "fst (sq_prepare failing_engine ?db transactions_all_sql) = SQLITE_OK"
    "sq_run failing_engine ?db transactions_all_sql [] = (take 1 (map full_row ?db), (10, ''disk I/O error''), ?db)"
    using rows by (simp_all add: failing_engine_def engine_def)
  moreover have "is_error (10, ''disk I/O error'')" by (simp add: is_error_def)
  ultimately have "sqlite_transactions_all failing_engine ?db =
      (Inr (map stored_form (take (length (take 1 (map full_row ?db))) ?rs)), ?db) \<and> sane ?db = sane ?db \<and>
    (\<exists>p. processor_create 1 ?repos [] ?db [] (wal_open ''wal'' (Some [])) = Inr p \<and>
       (\<forall>r \<in> set (drop (length (take 1 (map full_row ?db))) ?rs). pr_next_id p \<le> id_value (rec_id r)))"
    by (intro sqlite_query_error_unreported [OF failing_engine_documented rows]) simp_all
  then show ?thesis by (auto simp: transaction_table_def sample_record_ok)
qed

end
