(* ===== verification/Bank_Sqlite_Processor.thy ===== *)
theory Bank_Sqlite_Processor
  imports Bank_Sqlite_Props Bank_Consumers
begin

text \<open>
  The processor of src/concurrency/TransactionProcessor.cpp on the SQLite repositories: what holds of it on any store that
  keeps its contract holds here, and what happens when a processor is started on an audit table that an
  earlier one has written to.
\<close>

section \<open>The contract is met\<close>

definition sqlite_repositories :: "'a sqlite \<Rightarrow> 't sqlite \<Rightarrow> 'u sqlite \<Rightarrow> ('a, 't, 'u) repositories" where
  "sqlite_repositories accounts transactions audit =
     \<lparr>rp_accounts = sqlite_accounts accounts, rp_transactions = sqlite_transactions transactions,
      rp_audit = sqlite_audit audit\<rparr>"

lemma sqlite_repositories_simps [simp]:
  "rp_accounts (sqlite_repositories a t u) = sqlite_accounts a"
  "rp_transactions (sqlite_repositories a t u) = sqlite_transactions t"
  "rp_audit (sqlite_repositories a t u) = sqlite_audit u"
  by (simp_all add: sqlite_repositories_def)

lemma sqlite_processor_stores:
  assumes "accounts_documented a arows" "transactions_documented t trows" "audit_documented u urows"
  shows "processor_stores (sqlite_repositories a t u) (\<lambda>_. True) (sqlite_accounts_view a arows)
    trows (\<lambda>r. omap_insert_or_assign (record_key r) (transaction_row r))
    urows (\<lambda>e. omap_insert_or_assign (sint (ae_id e)) (audit_row e))"
  unfolding processor_stores_def sqlite_repositories_simps
  by (intro conjI sqlite_account_store sqlite_transaction_store sqlite_audit_store assms)

text \<open>
  C32: on the SQLite repositories, too, a success means that exactly the effects of the transaction are in the
  database. Each account it names has moved by its share and no other has changed; the table of
  transactions is the one before with the committed record at the place of its id; and the audit table
  has one new entry. This holds whatever calls into SQLite could have failed, and did not.
\<close>

theorem sqlite_process_success:
  assumes "accounts_documented aapi arows" "transactions_documented tapi trows" "audit_documented uapi urows"
    "process_impl (sqlite_repositories aapi tapi uapi) env t i s = (Inr (result_success rec), s')"
    "view_ok (sqlite_accounts_view aapi arows (pr_accounts s))" "money_ok (amount_of t)"
    "trows (pr_transactions s) = transaction_table rs" "i \<notin> rec_id ` set rs"
  shows "rec = (project_transaction (pe_record_time env) i t)\<lparr>rec_state := Committed\<rparr> \<and>
    posted_view t (sqlite_accounts_view aapi arows (pr_accounts s)) (sqlite_accounts_view aapi arows (pr_accounts s')) \<and>
    trows (pr_transactions s') = transaction_table (insort_key record_key rec rs) \<and>
    urows (pr_audit s') = omap_insert_or_assign (sint (pr_next_audit_id s))
      (audit_row (audit_entry_of (pr_next_audit_id s) (pe_audit_time env) ''txn.completed'' (describe t))) (urows (pr_audit s))"
proof -
  note effects = processor_stores.success_effects [OF sqlite_processor_stores [OF assms(1-3)] assms(4) TrueI assms(5,6)]
  then have rec: "rec = committed_record env i t" by blast
  then have "rec_id rec = i" by (simp add: committed_record_def project_transaction_def)
  then have "omap_find (record_key rec) (transaction_table rs) = None"
    using assms(8) by (auto simp: omap_find_map_of map_of_eq_None_iff transaction_table_def sint_ids image_iff)
  from transaction_table_insert [OF this] effects show ?thesis
    by (simp add: assms(7) committed_record_def audit_entry_of_def)
qed

definition sample_sqlite :: "(sql_table, sql_table, sql_table) processor" where
  "sample_sqlite =
     \<lparr>pr_accounts = [(1, account_row (sample_account 1 50000)), (2, account_row (sample_account 2 1000))],
      pr_transactions = transaction_table [], pr_audit = audit_table [], pr_wal = wal_open ''wal'' (Some []),
      pr_locks = [], pr_queue = new_queue, pr_reserved = [], pr_next_id = 1, pr_next_audit_id = 1,
      pr_accepting = True, pr_started = False, pr_worker_count = 1\<rparr>"

lemma sample_sqlite_runs:
  "case fst (process_impl (sqlite_repositories accounts_engine transactions_engine audit_engine) sample_env
     sample_transfer (Id 1) sample_sqlite) of Inl e \<Rightarrow> False | Inr r \<Rightarrow> result_ok r"
  by code_simp

lemma sample_sqlite_view:
  "sqlite_accounts_view accounts_engine sane (pr_accounts sample_sqlite) i =
     (if i = Id 1 then Some (sample_account 1 50000) else if i = Id 2 then Some (sample_account 2 1000) else None)"
proof -
  have "table_ok (pr_accounts sample_sqlite)"
    by (simp add: sample_sqlite_def table_ok_def omap_ok_def)
  moreover have "(sint (id_value i) = 1) = (i = Id 1)" "(sint (id_value i) = 2) = (i = Id 2)"
    using sint_ids [of i "Id 1"] sint_ids [of i "Id 2"] by simp_all
  ultimately show ?thesis
    using decode_account_row [of accounts_engine "sample_account 1 50000"]
      decode_account_row [of accounts_engine "sample_account 2 1000"]
    by (simp add: sqlite_accounts_view_def sample_sqlite_def sample_account_def)
qed

theorem sqlite_process_success_witness:
  "\<exists>s'. snd (process_impl (sqlite_repositories accounts_engine transactions_engine audit_engine) sample_env
       sample_transfer (Id 1) sample_sqlite) = s' \<and>
     map_option funds (sqlite_accounts_view accounts_engine sane (pr_accounts s') (Id 2)) = Some 1300"
proof -
  obtain r s' where run: "process_impl (sqlite_repositories accounts_engine transactions_engine audit_engine) sample_env
      sample_transfer (Id 1) sample_sqlite = (Inr r, s')" and ok: "result_ok r"
    using sample_sqlite_runs
    by (cases "process_impl (sqlite_repositories accounts_engine transactions_engine audit_engine) sample_env
      sample_transfer (Id 1) sample_sqlite") (auto split: sum.split_asm)
  then obtain rec where rec: "r = result_success rec" using process_impl_result [OF run] by (auto simp: result_for_def)
  let ?v = "sqlite_accounts_view accounts_engine sane"
  have v: "view_ok (?v (pr_accounts sample_sqlite))"
    by (auto simp: view_ok_def sample_sqlite_view sample_account_def account_ok_def money_ok_def amount_def)
  have t: "sane (pr_transactions sample_sqlite) = transaction_table []"
    by (simp add: sample_sqlite_def transaction_table_def sane_def)
  from sqlite_process_success [OF accounts_engine_documented transactions_engine_documented audit_engine_documented
      run [unfolded rec] v sample_transfer_ok t]
  have "posted_view sample_transfer (?v (pr_accounts sample_sqlite)) (?v (pr_accounts s'))" by simp
  from posted_view_at [OF this, of "Id 2" "sample_account 2 1000"] obtain a where
    "?v (pr_accounts s') (Id 2) = Some a" "posted sample_transfer (sample_account 2 1000) a"
    by (auto simp: sample_sqlite_view)
  then show ?thesis using run
    by (simp add: posted_def txn_delta_def sample_transfer_def sample_account_def amount_def)
qed

section \<open>A second processor on the same audit table\<close>

text \<open>A computation that fails from every state with \<open>P\<close>, and ends in one with \<open>Q\<close>.\<close>

definition io_fails :: "('s \<Rightarrow> bool) \<Rightarrow> ('s \<Rightarrow> bool) \<Rightarrow> ('s, 'a) io \<Rightarrow> bool" where
  "io_fails P Q m \<longleftrightarrow> (\<forall>s. P s \<longrightarrow> (\<exists>e. fst (m s) = Inl e) \<and> Q (snd (m s)))"

lemma io_fails_first: "io_fails P Q m \<Longrightarrow> io_fails P Q (io_bind m f)"
  unfolding io_fails_def io_bind_def by (fastforce split: prod.splits sum.splits)

lemma io_fails_second:
  assumes "\<And>s. P s \<Longrightarrow> P (snd (m s))" "\<And>x. io_fails P Q (f x)" "\<And>s. P s \<Longrightarrow> Q s"
  shows "io_fails P Q (io_bind m f)"
  unfolding io_fails_def
proof (intro allI impI)
  fix s
  assume s: "P s"
  obtain r s1 where m: "m s = (r, s1)" by fastforce
  then have s1: "P s1" using assms(1) [OF s] by simp
  show "(\<exists>e. fst (io_bind m f s) = Inl e) \<and> Q (snd (io_bind m f s))"
    using m s1 assms(2,3) by (cases r) (auto simp: io_bind_def io_fails_def)
qed

text \<open>The audit entry that comes next has an id that is taken.\<close>

definition audit_taken :: "('u \<Rightarrow> sql_table) \<Rightarrow> u64 set \<Rightarrow> ('a, 't, 'u) processor \<Rightarrow> bool" where
  "audit_taken urows ids s \<longleftrightarrow> pr_next_audit_id s \<in> ids \<and>
     (\<forall>k \<in> {1, 2}. omap_find (sint (k :: u64)) (urows (pr_audit s)) \<noteq> None)"

lemma audit_taken_mono: "audit_taken urows {1} s \<Longrightarrow> audit_taken urows {1, 2} s"
  by (auto simp: audit_taken_def)

lemma audit_taken_append:
  assumes "rp_audit repos = sqlite_audit uapi" "audit_documented uapi urows" "audit_taken urows {1, 2} s"
    "append_audit repos now actor action details s = (x, s')"
  shows "(\<exists>e. x = Inl e) \<and> pr_next_audit_id s' = pr_next_audit_id s + 1 \<and> urows (pr_audit s') = urows (pr_audit s)"
proof -
  let ?e = "audit_entry_of (pr_next_audit_id s) now action details\<lparr>ae_actor_id := actor\<rparr>"
  obtain y u where app: "sqlite_audit_append uapi ?e (pr_audit s) = (y, u)" by fastforce
  then have run: "x = y" "pr_next_audit_id s' = pr_next_audit_id s + 1" "pr_audit s' = u"
    using assms(4) by (auto simp: append_audit_def assms(1) sqlite_audit_def audit_entry_of_def)
  have "omap_find (sint (ae_id ?e)) (urows (pr_audit s)) \<noteq> None"
    using assms(3) by (auto simp: audit_taken_def audit_entry_of_def)
  then show ?thesis using sqlite_audit_append_outcome [OF assms(2) app] run by (auto simp: insert_new_Some)
qed

lemma append_audit_fails:
  fixes repos :: "('a, 't, 'u) repositories"
  assumes "rp_audit repos = sqlite_audit uapi" "audit_documented uapi urows"
  shows "io_fails (audit_taken urows {1}) (audit_taken urows {1, 2}) (append_audit repos now actor action details)"
    "io_fails (audit_taken urows {1, 2}) (\<lambda>_. True) (append_audit repos now actor action details)"
proof -
  show "io_fails (audit_taken urows {1}) (audit_taken urows {1, 2}) (append_audit repos now actor action details)"
    unfolding io_fails_def
  proof (intro allI impI)
    fix s :: "('a, 't, 'u) processor"
    assume s: "audit_taken urows {1} s"
    obtain x s' where run: "append_audit repos now actor action details s = (x, s')" by fastforce
    from audit_taken_append [OF assms audit_taken_mono [OF s] run] s run
    show "(\<exists>e. fst (append_audit repos now actor action details s) = Inl e) \<and>
        audit_taken urows {1, 2} (snd (append_audit repos now actor action details s))"
      by (auto simp: audit_taken_def)
  qed
  show "io_fails (audit_taken urows {1, 2}) (\<lambda>_. True) (append_audit repos now actor action details)"
    unfolding io_fails_def using audit_taken_append [OF assms _ prod.collapse [symmetric]] by blast
qed

text \<open>The parts of a transaction before its audit entry leave the audit trail alone.\<close>

definition same_audit :: "('a, 't, 'u) processor \<Rightarrow> ('a, 't, 'u) processor \<Rightarrow> bool" where
  "same_audit s s' \<longleftrightarrow> pr_audit s' = pr_audit s \<and> pr_next_audit_id s' = pr_next_audit_id s"

lemma same_audit_parts:
  "io_keeps same_audit (load_accounts_io repos is)" "io_keeps same_audit (save_accounts_io repos as)"
  "io_keeps same_audit (wal_append_io io r)" "io_keeps same_audit (wal_commit_io m i)"
  "io_keeps same_audit (append_record_io repos r)" "io_keeps same_audit (create_mutexes is)"
  "io_keeps same_audit (\<lambda>s. (x, s))"
  by (simp_all add: io_keeps_def same_audit_def load_accounts_io_def save_accounts_io_def wal_append_io_def
      wal_commit_io_def append_record_io_def create_mutexes_def split: prod.splits)

lemma audit_fails_after:
  assumes "io_keeps same_audit m" "\<And>x. io_fails (audit_taken urows {1}) (audit_taken urows {1, 2}) (f x)"
  shows "io_fails (audit_taken urows {1}) (audit_taken urows {1, 2}) (io_bind m f)"
  by (rule io_fails_second) (use assms in \<open>auto simp: io_keeps_def same_audit_def audit_taken_def\<close>)

lemma refuse_txn_fails:
  assumes "rp_audit repos = sqlite_audit uapi" "audit_documented uapi urows"
  shows "io_fails (audit_taken urows {1}) (audit_taken urows {1, 2}) (refuse_txn repos now msg)"
    "io_fails (audit_taken urows {1, 2}) (\<lambda>_. True) (refuse_txn repos now msg)"
  unfolding refuse_txn_def by (rule io_fails_first append_audit_fails assms)+

lemma execute_txn_fails:
  assumes "rp_audit repos = sqlite_audit uapi" "audit_documented uapi urows"
  shows "io_fails (audit_taken urows {1}) (audit_taken urows {1, 2}) (execute_txn repos env t i loaded)"
  unfolding execute_txn_def Let_def
  by (rule io_fails_first [OF append_audit_fails(1) [OF assms]] audit_fails_after same_audit_parts)+

lemma locked_txn_fails:
  assumes "rp_audit repos = sqlite_audit uapi" "audit_documented uapi urows"
  shows "io_fails (audit_taken urows {1}) (audit_taken urows {1, 2}) (locked_txn repos env t i)"
  unfolding locked_txn_def
  by (intro audit_fails_after same_audit_parts)
    (auto split: sum.splits intro: refuse_txn_fails [OF assms] execute_txn_fails [OF assms])


lemma process_impl_fails:
  assumes "rp_audit repos = sqlite_audit uapi" "audit_documented uapi urows" "audit_taken urows {1} s"
  shows "\<exists>e. fst (process_impl repos env t i s) = Inl e"
proof -
  obtain e s1 where locked: "locked_txn repos env t i s = (Inl e, s1)" "audit_taken urows {1, 2} s1"
    using locked_txn_fails [OF assms(1,2), of env t i] assms(3) unfolding io_fails_def by (metis prod.collapse)
  have "io_fails (audit_taken urows {1}) (audit_taken urows {1, 2})
      (io_bind (append_audit repos (pe_audit_time env) system_actor ''txn.failed'' ''transaction names no accounts'')
        (\<lambda>_. io_return (result_failure ''validation failed: no accounts involved'' :: transaction_record result)))"
    by (rule io_fails_first append_audit_fails assms(1,2))+
  moreover have "\<exists>e. fst (refuse_txn repos now msg s1) = Inl e" for now msg
    using refuse_txn_fails(2) [OF assms(1,2)] locked(2) by (simp add: io_fails_def)
  ultimately show ?thesis using assms(3) by (auto simp: process_impl_def io_catch_def locked(1) io_fails_def)
qed

text \<open>
  C36: a second processor on the same SQLite audit table cannot process anything at first. A new processor
  numbers its audit entries from 1, and the numbers are primary keys of the table; so if the table holds the
  entries 1 and 2 of an earlier processor, the first transaction that is processed, whichever it is,
  ends in an exception that leaves \<open>process_one\<close>, since the entry of the exception handler is refused too.
\<close>

theorem restarted_processor_throws:
  assumes "processor_create n repos a t u w = Inr p" "rp_audit repos = sqlite_audit uapi"
    "audit_documented uapi urows" "omap_find 1 (urows u) \<noteq> None" "omap_find 2 (urows u) \<noteq> None"
  shows "\<exists>e. fst (process_one repos env txn p) = Inl e"
proof -
  have "pr_next_audit_id p = 1" "pr_audit p = u"
    using assms(1) by (auto simp: processor_create_def bind_exn_Inr_iff Let_def)
  then have "audit_taken urows {1} (p\<lparr>pr_next_id := pr_next_id p + 1\<rparr>)"
    using assms(4,5) by (simp add: audit_taken_def)
  from process_impl_fails [OF assms(2,3) this] show ?thesis by (simp add: process_one_def fresh_id_def)
qed

definition sample_restart :: "(memory_accounts, memory_transactions, sql_table) repositories" where
  "sample_restart = \<lparr>rp_accounts = mem_accounts, rp_transactions = mem_transactions, rp_audit = sqlite_audit audit_engine\<rparr>"

theorem restarted_processor_throws_witness:
  "\<exists>p e. processor_create 1 sample_restart sample_accounts [] (audit_table sample_entries) (wal_open ''wal'' (Some [])) = Inr p \<and>
     fst (process_one sample_restart sample_env sample_transfer p) = Inl e"
proof -
  obtain p where p: "processor_create 1 sample_restart sample_accounts [] (audit_table sample_entries)
      (wal_open ''wal'' (Some [])) = Inr p"
    by (simp add: processor_create_def sample_restart_def mem_transactions_def mem_transactions_all_def Let_def)
  have "rp_audit sample_restart = sqlite_audit audit_engine" by (simp add: sample_restart_def)
  moreover have "omap_find 1 (sane (audit_table sample_entries)) \<noteq> None" "omap_find 2 (sane (audit_table sample_entries)) \<noteq> None"
    using sample_entries_ok by (simp_all add: audit_table_def sample_entries_def)
  ultimately show ?thesis using restarted_processor_throws [OF p _ audit_engine_documented] p by blast
qed

end
