(* ===== verification/Bank_Interleaving.thy ===== *)
theory Bank_Interleaving
  imports Bank_Consumers
begin

text \<open>
  \<open>process_impl\<close> of src/concurrency/TransactionProcessor.cpp taken apart: what happens between two
  accesses to shared state is one step, and any number of calls are interleaved. The account mutexes are
  locked and unlocked one by one; the load, the save of all accounts, and each append are one step, since
  they run under the repository mutex or the mutex of the journal; the atomic counter of the audit entries is
  a step of its own. Beside the calls, clients submit transactions and consumers pop them; \<open>submit\<close> is one
  step, since it holds the submit mutex.
\<close>

section \<open>The run of one transaction\<close>

text \<open>
  Where a call of \<open>process_impl\<close> is: still locking the mutexes given; about to write the intent for the
  accounts it loaded, to apply and save them, to write the commit marker, to append the record, to make
  the audit entry of the completion; about to make the audit entry of a refusal; about to append the entry it
  made; destroying its guards, with the result or the exception that ends the try block; about to append
  the entry of the exception handler; returned.
\<close>

datatype run_phase =
    Acquiring "account_id list"
  | Journaling "account list"
  | Saving "account list"
  | Marking
  | Recording
  | Completing
  | Refusing string
  | Noting audit_entry "transaction_record result"
  | Unwinding "exn + transaction_record result"
  | Handling audit_entry string
  | Done "exn + transaction_record result"

record run =
  rn_txn :: transaction
  rn_id :: transaction_id
  rn_env :: process_env
  rn_phase :: run_phase
  rn_held :: "account_id list"

definition new_run :: "transaction \<Rightarrow> transaction_id \<Rightarrow> process_env \<Rightarrow> run" where
  "new_run t i env = \<lparr>rn_txn = t, rn_id = i, rn_env = env, rn_phase = Acquiring (lock_plan t), rn_held = []\<rparr>"

text \<open>An exception inside the try block unwinds; otherwise the run goes on.\<close>

definition continue_with :: "exn + 'x \<Rightarrow> run_phase \<Rightarrow> run_phase" where
  "continue_with x ph = (case x of Inl e \<Rightarrow> Unwinding (Inl e) | Inr _ \<Rightarrow> ph)"

definition handler_message :: "exn \<Rightarrow> string" where
  "handler_message e = (if exn_what e = [] then ''unknown error'' else exn_what e)"

text \<open>\<open>next_audit_id_.fetch_add(1)\<close> and the entry made with it.\<close>

definition make_entry ::
  "time_point \<Rightarrow> string \<Rightarrow> string \<Rightarrow> ('a, 't, 'u) processor \<Rightarrow> audit_entry \<times> ('a, 't, 'u) processor" where
  "make_entry now action details p =
     (\<lparr>ae_id = pr_next_audit_id p, ae_timestamp = now, ae_actor_id = system_actor, ae_action = action,
       ae_details = details\<rparr>,
      p\<lparr>pr_next_audit_id := pr_next_audit_id p + 1\<rparr>)"

definition append_entry ::
  "('a, 't, 'u) repositories \<Rightarrow> audit_entry \<Rightarrow> (('a, 't, 'u) processor, unit) io" where
  "append_entry repos e p = (case au_append (rp_audit repos) (pr_audit p) e of (x, u) \<Rightarrow> (x, p\<lparr>pr_audit := u\<rparr>))"

text \<open>
  The next step of a run that does not touch a mutex: its new phase and the shared state. With no mutex
  left to lock it loads and validates; with no guard left it returns or enters the handler.
\<close>

definition work_step ::
  "('a, 't, 'u) repositories \<Rightarrow> run \<Rightarrow> ('a, 't, 'u) processor \<Rightarrow> run_phase \<times> ('a, 't, 'u) processor" where
  "work_step repos r p =
     (let t = rn_txn r; i = rn_id r; env = rn_env r;
          record = (project_transaction (pe_record_time env) i t)\<lparr>rec_state := Validated\<rparr>
      in case rn_phase r of
        Acquiring _ \<Rightarrow>
          (case load_accounts_io repos (lock_plan t) p of
             (Inl e, p) \<Rightarrow> (Unwinding (Inl e), p)
           | (Inr (Inl missing), p) \<Rightarrow> (Refusing (''account not found: '' @ to_string_u64 (id_value missing)), p)
           | (Inr (Inr loaded), p) \<Rightarrow>
               (if \<not> validate t loaded then Refusing (''validation failed: '' @ describe t) else Journaling loaded, p))
      | Journaling loaded \<Rightarrow>
          (case wal_append_io (pe_append env) record p of (x, p) \<Rightarrow> (continue_with x (Saving loaded), p))
      | Saving loaded \<Rightarrow>
          (case txn_apply t loaded of
             (Inl e, _) \<Rightarrow> (Unwinding (Inl e), p)
           | (Inr _, loaded) \<Rightarrow> (case save_accounts_io repos loaded p of (x, p) \<Rightarrow> (continue_with x Marking, p)))
      | Marking \<Rightarrow> (case wal_commit_io (pe_marker env) i p of (x, p) \<Rightarrow> (continue_with x Recording, p))
      | Recording \<Rightarrow>
          (case append_record_io repos (record\<lparr>rec_state := Committed\<rparr>) p of
             (x, p) \<Rightarrow> (continue_with x Completing, p))
      | Completing \<Rightarrow>
          (case make_entry (pe_audit_time env) ''txn.completed'' (describe t) p of
             (e, p) \<Rightarrow> (Noting e (result_success (record\<lparr>rec_state := Committed\<rparr>)), p))
      | Refusing msg \<Rightarrow>
          (case make_entry (pe_audit_time env) ''txn.failed'' msg p of (e, p) \<Rightarrow> (Noting e (result_failure msg), p))
      | Noting e res \<Rightarrow>
          (case append_entry repos e p of (x, p) \<Rightarrow> (continue_with x (Unwinding (Inr res)), p))
      | Unwinding (Inr res) \<Rightarrow> (Done (Inr res), p)
      | Unwinding (Inl ex) \<Rightarrow>
          (case make_entry (pe_handler_time env) ''txn.failed'' (handler_message ex) p of
             (e, p) \<Rightarrow> (Handling e (handler_message ex), p))
      | Handling e msg \<Rightarrow>
          (case append_entry repos e p of
             (Inl ex, p) \<Rightarrow> (Done (Inl ex), p) | (Inr _, p) \<Rightarrow> (Done (Inr (result_failure msg)), p))
      | Done x \<Rightarrow> (Done x, p))"

text \<open>The runs that have such a step: not those at a mutex, and not those that have returned.\<close>

fun works :: "run_phase \<Rightarrow> account_id list \<Rightarrow> bool" where
  "works (Acquiring todo) held \<longleftrightarrow> todo = []"
| "works (Unwinding x) held \<longleftrightarrow> held = []"
| "works (Done x) held \<longleftrightarrow> False"
| "works ph held \<longleftrightarrow> True"

section \<open>Any number of runs\<close>

text \<open>
  The processor, the transactions that a consumer has popped and not yet taken an id for, and the calls of
  \<open>process_impl\<close> so far.
\<close>

record ('a, 't, 'u) system =
  sy_proc :: "('a, 't, 'u) processor"
  sy_popped :: "transaction list"
  sy_runs :: "run list"

text \<open>What clients do beside the calls: submit a transaction, start and stop the consumers.\<close>

inductive intake_step :: "('a, 't, 'u) processor \<Rightarrow> ('a, 't, 'u) processor \<Rightarrow> bool" where
  intake_submits: "submit p t = (res, q) \<Longrightarrow> intake_step p q"
| intake_opens: "intake_step p (start_processor p)"
| intake_closes: "intake_step p (stop_accepting p)"
| intake_joined: "intake_step p (consumers_joined p)"

text \<open>
  A step of the system: some thread calls \<open>process_one\<close>, which takes the next id; a client submits, starts or
  stops; a consumer pops a transaction of the queue; a consumer takes an id for the transaction it popped
  and calls \<open>process_impl\<close>; a run locks the next mutex of its plan, if it is free; a run destroys one of its
  guards; or a run does its next work. (An
  exception that leaves a consumer's call ends the program; here the other runs may still go on.)
\<close>

inductive run_step ::
  "('a, 't, 'u) repositories \<Rightarrow> ('a, 't, 'u) system \<Rightarrow> ('a, 't, 'u) system \<Rightarrow> bool" for repos where
  run_starts: "fresh_id (sy_proc s) = (i, p) \<Longrightarrow>
    run_step repos s (s\<lparr>sy_proc := p, sy_runs := sy_runs s @ [new_run t i env]\<rparr>)"
| run_intake: "intake_step (sy_proc s) p \<Longrightarrow> run_step repos s (s\<lparr>sy_proc := p\<rparr>)"
| run_pops: "wait_pop stopped (pr_queue (sy_proc s)) = (Returns (Some t), q) \<Longrightarrow>
    run_step repos s (s\<lparr>sy_proc := (sy_proc s)\<lparr>pr_queue := q\<rparr>, sy_popped := sy_popped s @ [t]\<rparr>)"
| run_takes: "t \<in> set (sy_popped s) \<Longrightarrow> take_reserved_id (sy_proc s) = (i, p) \<Longrightarrow>
    run_step repos s (s\<lparr>sy_proc := p, sy_popped := remove1 t (sy_popped s), sy_runs := sy_runs s @ [new_run t i env]\<rparr>)"
| run_locks: "k < length (sy_runs s) \<Longrightarrow> rn_phase (sy_runs s ! k) = Acquiring (i # todo) \<Longrightarrow>
    lock_account k (pr_locks (sy_proc s)) i = Some lm \<Longrightarrow>
    run_step repos s (s\<lparr>sy_proc := (sy_proc s)\<lparr>pr_locks := lm\<rparr>, sy_runs := (sy_runs s)[k :=
      (sy_runs s ! k)\<lparr>rn_phase := Acquiring todo, rn_held := rn_held (sy_runs s ! k) @ [i]\<rparr>]\<rparr>)"
| run_unlocks: "k < length (sy_runs s) \<Longrightarrow> rn_phase (sy_runs s ! k) = Unwinding x \<Longrightarrow>
    i \<in> set (rn_held (sy_runs s ! k)) \<Longrightarrow>
    run_step repos s (s\<lparr>sy_proc := (sy_proc s)\<lparr>pr_locks := unlock_account (pr_locks (sy_proc s)) i\<rparr>,
      sy_runs := (sy_runs s)[k := (sy_runs s ! k)\<lparr>rn_held := remove1 i (rn_held (sy_runs s ! k))\<rparr>]\<rparr>)"
| run_works: "k < length (sy_runs s) \<Longrightarrow> works (rn_phase (sy_runs s ! k)) (rn_held (sy_runs s ! k)) \<Longrightarrow>
    work_step repos (sy_runs s ! k) (sy_proc s) = (ph, p) \<Longrightarrow>
    run_step repos s (s\<lparr>sy_proc := p, sy_runs := (sy_runs s)[k := (sy_runs s ! k)\<lparr>rn_phase := ph\<rparr>]\<rparr>)"

definition idle_system :: "('a, 't, 'u) processor \<Rightarrow> ('a, 't, 'u) system" where
  "idle_system p = \<lparr>sy_proc = p, sy_popped = [], sy_runs = []\<rparr>"

text \<open>The same calls one after the other.\<close>

fun run_serially ::
  "('a, 't, 'u) repositories \<Rightarrow> run list \<Rightarrow> (('a, 't, 'u) processor, transaction_record result list) io" where
  "run_serially repos [] = io_return []"
| "run_serially repos (r # rs) =
     io_bind (process_impl repos (rn_env r) (rn_txn r) (rn_id r)) (\<lambda>res.
     io_bind (run_serially repos rs) (\<lambda>ress. io_return (res # ress)))"

end
