(* ===== verification/Bank_Interleaving_Correct.thy ===== *)
theory Bank_Interleaving_Correct
  imports Bank_Interleaving
begin

text \<open>
  The interleaved runs of \<open>Bank_Interleaving\<close> behave like the same calls of \<open>process_impl\<close> one after the
  other, in the order in which they save their accounts or are refused; and all of them return.
\<close>

section \<open>One call\<close>

definition good_env :: "process_env \<Rightarrow> bool" where
  "good_env env \<longleftrightarrow> pe_marker env = None \<and> resize_error (pe_append env) = None \<and> write_io (pe_append env) = Written"

definition verdict_result ::
  "process_env \<Rightarrow> transaction_id \<Rightarrow> transaction \<Rightarrow> (account_id \<Rightarrow> account option) \<Rightarrow> transaction_record result" where
  "verdict_result env i t v =
     (case process_verdict t v of None \<Rightarrow> result_success (committed_record env i t) | Some msg \<Rightarrow> result_failure msg)"

text \<open>The accounts that a transaction loads, and the accounts after it.\<close>

definition loaded_from :: "transaction \<Rightarrow> (account_id \<Rightarrow> account option) \<Rightarrow> account list" where
  "loaded_from t v = map (\<lambda>i. the (v i)) (lock_plan t)"

definition post_view :: "transaction \<Rightarrow> (account_id \<Rightarrow> account option) \<Rightarrow> account_id \<Rightarrow> account option" where
  "post_view t v = (if process_verdict t v = None then put_accounts (snd (txn_apply t (loaded_from t v))) v else v)"

text \<open>A journal in order stays in order when all writes succeed.\<close>

definition keeps_wal :: "('a, 't, 'u) processor \<Rightarrow> ('a, 't, 'u) processor \<Rightarrow> bool" where
  "keeps_wal s s' \<longleftrightarrow> (wal_inv (pr_wal s) \<longrightarrow> wal_inv (pr_wal s'))"

lemma keeps_wal_order: "reflp keeps_wal" "transp keeps_wal"
  by (auto simp: keeps_wal_def reflp_def transp_def)

lemma mark_committed_keeps: "wal_inv w \<Longrightarrow> mark_committed None w i = (x, w') \<Longrightarrow> wal_inv w'"
  using mark_committed_inv [of w i] by (cases "find_entry (wal_entries w) i") (auto simp: mark_committed_def)

lemma keeps_wal_append:
  assumes "resize_error io = None" "write_io io = Written"
  shows "io_keeps keeps_wal (wal_append_io io r)"
  unfolding io_keeps_def keeps_wal_def
proof (intro allI impI)
  fix s :: "('a, 't, 'u) processor" assume "wal_inv (pr_wal s)"
  from wal_append_written [OF this assms, of r] show "wal_inv (pr_wal (snd (wal_append_io io r s)))"
    by (auto simp: wal_append_io_def)
qed

lemma keeps_wal_parts:
  "io_keeps keeps_wal (append_audit repos now actor action details)"
  "io_keeps keeps_wal (load_accounts_io repos ids)"
  "io_keeps keeps_wal (save_accounts_io repos as)"
  "io_keeps keeps_wal (append_record_io repos r)"
  "io_keeps keeps_wal (create_mutexes ids)"
  "io_keeps keeps_wal (\<lambda>s. (x, s))"
  "io_keeps keeps_wal (wal_commit_io None i)"
  by (auto simp: io_keeps_def keeps_wal_def append_audit_def load_accounts_io_def save_accounts_io_def
      append_record_io_def create_mutexes_def wal_commit_io_def Let_def mark_committed_keeps split: prod.splits)

lemmas keeps_wal_rules = io_keeps_bind [OF keeps_wal_order(2)] io_keeps_catch [OF keeps_wal_order(2)]
  io_keeps_return [OF keeps_wal_order(1)] keeps_wal_parts keeps_wal_append

lemma keeps_wal_process_impl:
  assumes "good_env env"
  shows "io_keeps keeps_wal (process_impl repos env t i)"
proof -
  have refuse: "io_keeps keeps_wal (refuse_txn repos now msg)" for now msg
    unfolding refuse_txn_def by (intro keeps_wal_rules)
  have execute: "io_keeps keeps_wal (execute_txn repos env t i loaded)" for loaded
    using assms unfolding execute_txn_def Let_def good_env_def by (simp add: keeps_wal_rules)
  have "io_keeps keeps_wal (locked_txn repos env t i)"
    unfolding locked_txn_def by (intro keeps_wal_rules) (auto split: sum.splits intro: refuse execute)
  then show ?thesis by (simp add: process_impl_def keeps_wal_rules refuse)
qed

lemma loaded_from_ids:
  assumes "view_ok v" "\<forall>i \<in> set (lock_plan t). v i \<noteq> None"
  shows "map acc_id (loaded_from t v) = lock_plan t"
proof -
  have "acc_id (the (v i)) = i" if "i \<in> set (lock_plan t)" for i using assms that by (fastforce simp: view_ok_def)
  then have "map (acc_id \<circ> (\<lambda>i. the (v i))) (lock_plan t) = lock_plan t" by (intro map_idI) simp
  then show ?thesis by (simp add: loaded_from_def)
qed

lemma txn_apply_ids: "map acc_id (snd (txn_apply t as)) = map acc_id as"
proof -
  have withdraw: "map acc_id (snd (mutate_account bs i (\<lambda>a. account_withdraw a m))) = map acc_id bs" for bs i m
    by (rule mutate_account_ids) (auto simp: account_withdraw_def bind_exn_Inr_iff split: if_splits)
  have deposit: "map acc_id (snd (mutate_account bs i (\<lambda>a. account_deposit a m))) = map acc_id bs" for bs i m
    by (rule mutate_account_ids) (auto simp: account_deposit_def bind_exn_Inr_iff split: if_splits)
  show ?thesis
  proof (cases t)
    case (Transfer i j m)
    then show ?thesis using withdraw [of as i m] deposit
      by (cases "mutate_account as i (\<lambda>a. account_withdraw a m)") (simp add: txn_apply_def split: sum.split)
  qed (simp_all add: txn_apply_def withdraw deposit)
qed

lemma verdict_found: "process_verdict t v = None \<Longrightarrow> \<forall>i \<in> set (lock_plan t). v i \<noteq> None"
  using verdict_involved [of t v] by simp

lemma post_view_other:
  assumes "view_ok v" "j \<notin> set (lock_plan t)"
  shows "post_view t v j = v j"
proof (cases "process_verdict t v")
  case None
  then have "map acc_id (snd (txn_apply t (loaded_from t v))) = lock_plan t"
    using loaded_from_ids [OF assms(1) verdict_found] by (simp add: txn_apply_ids)
  then have "j \<notin> acc_id ` set (snd (txn_apply t (loaded_from t v)))" using assms(2) by (metis set_map)
  then have "find_account (snd (txn_apply t (loaded_from t v))) j = None" by (simp add: find_account_None)
  then show ?thesis by (simp add: post_view_def None put_accounts_def)
qed (simp add: post_view_def)

context reliable_stores begin

text \<open>A call with a journal that can be written: verdict and effects follow from the accounts.\<close>

lemma process_impl_posts:
  assumes aok: "aok (pr_accounts s)" and vok: "view_ok (aview (pr_accounts s))" and m: "money_ok (amount_of t)"
    and inv: "wal_inv (pr_wal s)" and good: "good_env env"
  obtains s' where "process_impl repos env t i s = (Inr (verdict_result env i t (aview (pr_accounts s))), s')"
    "aok (pr_accounts s')" "aview (pr_accounts s') = post_view t (aview (pr_accounts s))" "wal_inv (pr_wal s')"
proof -
  let ?v = "aview (pr_accounts s)"
  have env: "pe_marker env = None" "resize_error (pe_append env) = None" "write_io (pe_append env) = Written"
    using good by (simp_all add: good_env_def)
  obtain s' where run: "process_impl repos env t i s = (Inr (verdict_result env i t ?v), s')"
    using verdict_outcome [OF aok vok m env(1) inv env(2,3), of i] by (metis prod.collapse verdict_result_def)
  have "wal_inv (pr_wal s')" using io_keepsD [OF keeps_wal_process_impl [OF good] run] inv by (simp add: keeps_wal_def)
  moreover have "aok (pr_accounts s') \<and> aview (pr_accounts s') = post_view t ?v"
  proof (cases "process_verdict t ?v")
    case (Some msg)
    then have "\<not> result_ok (verdict_result env i t ?v)" by (simp add: verdict_result_def)
    then show ?thesis using failure_effects [OF run _ aok env(1)] Some aok by (simp add: post_view_def)
  next
    case None
    then have ok: "process_impl repos env t i s = (Inr (result_success (committed_record env i t)), s')"
      using run by (simp add: verdict_result_def)
    from ok obtain as where load: "load_involved (ar_find_by_id (rp_accounts repos)) (pr_accounts s) (lock_plan t) = Inr (Inr as)"
      and ex: "execute_txn repos env t i as (s\<lparr>pr_locks := foldl mutex_for (pr_locks s) (lock_plan t)\<rparr>) =
         (Inr (result_success (committed_record env i t)), s')"
      by (rule process_impl_success)
    have as: "as = loaded_from t ?v"
      using load_found [OF load_involved_view [OF aok load]] by (simp add: loaded_from_def)
    from ex obtain as' a where ap: "txn_apply t as = (Inr (), as')"
      and save: "save_all (ar_save (rp_accounts repos)) as' (pr_accounts s) = (Inr (), a)" "pr_accounts s' = a"
      by (rule execute_txn_Inr) auto
    have "map acc_id as' = lock_plan t"
      using txn_apply_ids [of t as] ap as loaded_from_ids [OF vok verdict_found [OF None]] by simp
    then have "distinct (map acc_id as')" by (simp add: lock_plan_def distinct_involved)
    then show ?thesis using save_all_view [OF aok save(1)] save(2) None ap as by (simp add: post_view_def)
  qed
  ultimately show ?thesis using run that by blast
qed

end

section \<open>The mutexes\<close>

text \<open>A run as a thread of \<open>Bank_Locks\<close>: its invariant carries over.\<close>

definition run_thread :: "run \<Rightarrow> thread_state" where
  "run_thread r =
     (case rn_phase r of
        Acquiring todo \<Rightarrow> \<lparr>th_phase = Locking, th_todo = todo, th_held = rn_held r\<rparr>
      | Unwinding _ \<Rightarrow> \<lparr>th_phase = Releasing, th_todo = [], th_held = rn_held r\<rparr>
      | Handling _ _ \<Rightarrow> \<lparr>th_phase = Idle, th_todo = [], th_held = rn_held r\<rparr>
      | Done _ \<Rightarrow> \<lparr>th_phase = Idle, th_todo = [], th_held = rn_held r\<rparr>
      | _ \<Rightarrow> \<lparr>th_phase = Working, th_todo = [], th_held = rn_held r\<rparr>)"

definition lock_view :: "('a, 't, 'u) system \<Rightarrow> lock_system" where
  "lock_view s = \<lparr>ls_manager = pr_locks (sy_proc s), ls_threads = map run_thread (sy_runs s)\<rparr>"

lemma lock_view_simps [simp]:
  "ls_manager (lock_view s) = pr_locks (sy_proc s)" "ls_threads (lock_view s) = map run_thread (sy_runs s)"
  by (simp_all add: lock_view_def)

lemma run_thread_held [simp]: "th_held (run_thread r) = rn_held r"
  by (simp add: run_thread_def split: run_phase.split)

text \<open>The steps by their shape: those that only change queue and ids, those that start a call, those of a call.\<close>

definition same_stores :: "('a, 't, 'u) processor \<Rightarrow> ('a, 't, 'u) processor \<Rightarrow> bool" where
  "same_stores p q \<longleftrightarrow> pr_accounts q = pr_accounts p \<and> pr_transactions q = pr_transactions p \<and>
     pr_audit q = pr_audit p \<and> pr_wal q = pr_wal p \<and> pr_locks q = pr_locks p"

lemma same_stores_ids:
  "fresh_id p = (i, q) \<Longrightarrow> same_stores p q" "take_reserved_id p = (i, q) \<Longrightarrow> same_stores p q"
  by (auto simp: same_stores_def fresh_id_def take_reserved_id_def split: list.splits)

lemma same_stores_intake: "intake_step p q \<Longrightarrow> same_stores p q"
  by (auto elim!: intake_step.cases
      simp: same_stores_def submit_def fresh_id_def Let_def start_processor_def stop_accepting_def consumers_joined_def
      split: if_splits prod.splits bool.splits)

lemma run_step_shape [consumes 1, case_names run_quiet run_begins run_locks run_unlocks run_works]:
  assumes "run_step repos s s'"
  obtains "sy_runs s' = sy_runs s" "same_stores (sy_proc s) (sy_proc s')"
  | t i env where "sy_runs s' = sy_runs s @ [new_run t i env]" "same_stores (sy_proc s) (sy_proc s')"
  | k i todo lm where "s' = s\<lparr>sy_proc := (sy_proc s)\<lparr>pr_locks := lm\<rparr>, sy_runs := (sy_runs s)[k :=
        (sy_runs s ! k)\<lparr>rn_phase := Acquiring todo, rn_held := rn_held (sy_runs s ! k) @ [i]\<rparr>]\<rparr>"
      "k < length (sy_runs s)" "rn_phase (sy_runs s ! k) = Acquiring (i # todo)"
      "lock_account k (pr_locks (sy_proc s)) i = Some lm"
  | k x i where "s' = s\<lparr>sy_proc := (sy_proc s)\<lparr>pr_locks := unlock_account (pr_locks (sy_proc s)) i\<rparr>,
        sy_runs := (sy_runs s)[k := (sy_runs s ! k)\<lparr>rn_held := remove1 i (rn_held (sy_runs s ! k))\<rparr>]\<rparr>"
      "k < length (sy_runs s)" "rn_phase (sy_runs s ! k) = Unwinding x" "i \<in> set (rn_held (sy_runs s ! k))"
  | k ph p where "s' = s\<lparr>sy_proc := p, sy_runs := (sy_runs s)[k := (sy_runs s ! k)\<lparr>rn_phase := ph\<rparr>]\<rparr>"
      "k < length (sy_runs s)" "works (rn_phase (sy_runs s ! k)) (rn_held (sy_runs s ! k))"
      "work_step repos (sy_runs s ! k) (sy_proc s) = (ph, p)"
  using assms
proof (cases rule: run_step.cases)
  case (run_starts i p t env)
  then show ?thesis using that(2) same_stores_ids(1) by fastforce
next
  case (run_intake p)
  then show ?thesis using that(1) same_stores_intake by fastforce
next
  case (run_pops stopped t q)
  then show ?thesis using that(1) by (simp add: same_stores_def)
next
  case (run_takes t i p env)
  then show ?thesis using that(2) same_stores_ids(2) by fastforce
qed (use that(3-5) in blast)+

text \<open>The work of a run leaves the mutexes alone, and it is outside the try block only without guards.\<close>

lemma append_entry_locks: "append_entry repos e p = (x, q) \<Longrightarrow> pr_locks q = pr_locks p"
  by (auto simp: append_entry_def split: prod.splits)

lemma work_step_phase:
  assumes "work_step repos r p = (ph, q)" "works (rn_phase r) (rn_held r)"
  shows "pr_locks q = pr_locks p" "ph \<noteq> Acquiring todo"
    "(\<exists>e m. ph = Handling e m) \<or> (\<exists>x. ph = Done x) \<Longrightarrow>
       (\<exists>x. rn_phase r = Unwinding x \<and> rn_held r = []) \<or> (\<exists>e m. rn_phase r = Handling e m)"
  using assms
  by (auto simp: work_step_def Let_def load_accounts_io_def wal_append_io_def save_accounts_io_def wal_commit_io_def
      append_record_io_def make_entry_def continue_with_def append_entry_locks
      split: run_phase.splits sum.splits prod.splits if_splits)

lemma lock_view_update:
  assumes inv: "lock_inv (lock_view s)" and k: "k < length (sy_runs s)" and ok: "thread_ok (run_thread r)"
    and hold: "\<And>j u. holder (pr_locks p) j = Some u \<longleftrightarrow>
      (if u = k then j \<in> set (rn_held r) else holder (pr_locks (sy_proc s)) j = Some u)"
  shows "lock_inv (lock_view (s\<lparr>sy_proc := p, sy_runs := (sy_runs s)[k := r]\<rparr>))"
proof -
  have "lock_view (s\<lparr>sy_proc := p, sy_runs := (sy_runs s)[k := r]\<rparr>) =
      (lock_view s)\<lparr>ls_manager := pr_locks p, ls_threads := (ls_threads (lock_view s))[k := run_thread r]\<rparr>"
    by (simp add: lock_view_def map_update)
  then show ?thesis using lock_inv_update [OF inv, of k "run_thread r" "pr_locks p"] k ok hold by simp
qed

lemma run_holds:
  "lock_inv (lock_view s) \<Longrightarrow> k < length (sy_runs s) \<Longrightarrow>
   holder (pr_locks (sy_proc s)) i = Some k \<longleftrightarrow> i \<in> set (rn_held (sy_runs s ! k))"
  using lock_inv_holds [of "lock_view s" k i] by simp

lemma run_thread_ok:
  "lock_inv (lock_view s) \<Longrightarrow> k < length (sy_runs s) \<Longrightarrow> thread_ok (run_thread (sy_runs s ! k))"
  using lock_inv_thread [of "lock_view s" k] by simp

lemma run_step_locks [bank_inv]:
  assumes "run_step repos s s'" "lock_inv (lock_view s)"
  shows "lock_inv (lock_view s')"
  using assms(1)
proof (cases rule: run_step_shape)
  case run_quiet
  then have "lock_view s' = lock_view s" by (simp add: lock_view_def same_stores_def)
  then show ?thesis using assms(2) by simp
next
  case (run_begins t i env)
  have p: "pr_locks (sy_proc s') = pr_locks (sy_proc s)" using run_begins(2) by (simp add: same_stores_def)
  have "run_thread (new_run t i env) = \<lparr>th_phase = Locking, th_todo = lock_plan t, th_held = []\<rparr>"
    by (simp add: run_thread_def new_run_def)
  then have "thread_ok (run_thread (new_run t i env))" using lock_plan_sorted [of t] by (simp add: thread_ok_def)
  then show ?thesis using assms(2)
    by (auto simp: run_begins(1) p lock_inv_def nth_append new_run_def less_Suc_eq)
next
  case (run_locks k i todo lm)
  let ?r = "sy_runs s ! k"
  have "thread_ok (run_thread (?r\<lparr>rn_phase := Acquiring todo, rn_held := rn_held ?r @ [i]\<rparr>))"
    using run_thread_ok [OF assms(2) run_locks(2)] run_locks(3)
    by (auto simp: run_thread_def thread_ok_def sorted_wrt_append)
  moreover have "holder (pr_locks (sy_proc s)) i = None" using run_locks(4) by (simp add: lock_account_Some)
  ultimately show ?thesis unfolding run_locks(1)
    using lock_view_update [OF assms(2) run_locks(2), of _ "(sy_proc s)\<lparr>pr_locks := lm\<rparr>"]
      run_holds [OF assms(2) run_locks(2)] holder_lock [OF run_locks(4)] by auto
next
  case (run_unlocks k x i)
  let ?r = "sy_runs s ! k"
  have dist: "distinct (rn_held ?r)"
    using run_thread_ok [OF assms(2) run_unlocks(2)] by (simp add: thread_ok_def)
  then have "thread_ok (run_thread (?r\<lparr>rn_held := remove1 i (rn_held ?r)\<rparr>))"
    using run_unlocks(3) by (simp add: run_thread_def thread_ok_def)
  moreover have "holder (pr_locks (sy_proc s)) i = Some k"
    using run_holds [OF assms(2) run_unlocks(2)] run_unlocks(4) by simp
  then have "holder (unlock_account (pr_locks (sy_proc s)) i) j = Some u \<longleftrightarrow>
      (if u = k then j \<in> set (remove1 i (rn_held ?r)) else holder (pr_locks (sy_proc s)) j = Some u)" for j u
    using run_holds [OF assms(2) run_unlocks(2), of j] dist by (simp add: holder_unlock)
  ultimately show ?thesis unfolding run_unlocks(1)
    by (intro lock_view_update [OF assms(2) run_unlocks(2)]) simp_all
next
  case (run_works k ph p)
  let ?r = "sy_runs s ! k"
  note phase = work_step_phase [OF run_works(4,3)]
  have ok: "thread_ok (run_thread ?r)" by (rule run_thread_ok [OF assms(2) run_works(2)])
  have idle: "rn_held ?r = []" if "(\<exists>e m. ph = Handling e m) \<or> (\<exists>x. ph = Done x)"
    using phase(3) [OF that] ok by (auto simp: run_thread_def thread_ok_def)
  have "distinct (rn_held ?r)" using ok by (simp add: thread_ok_def)
  then have "thread_ok (run_thread (?r\<lparr>rn_phase := ph\<rparr>))"
    using phase(2) idle by (cases ph) (auto simp: run_thread_def thread_ok_def)
  then show ?thesis unfolding run_works(1)
    using lock_view_update [OF assms(2) run_works(2), of "?r\<lparr>rn_phase := ph\<rparr>" p]
      run_holds [OF assms(2) run_works(2)] phase(1) by auto
qed

section \<open>The order in which the runs take effect\<close>

text \<open>The result of a run is decided when it has saved its accounts, or when it has been refused.\<close>

definition decided :: "run \<Rightarrow> transaction_record result option" where
  "decided r =
     (case rn_phase r of
        Acquiring _ \<Rightarrow> None
      | Journaling _ \<Rightarrow> None
      | Saving _ \<Rightarrow> None
      | Marking \<Rightarrow> Some (result_success (committed_record (rn_env r) (rn_id r) (rn_txn r)))
      | Recording \<Rightarrow> Some (result_success (committed_record (rn_env r) (rn_id r) (rn_txn r)))
      | Completing \<Rightarrow> Some (result_success (committed_record (rn_env r) (rn_id r) (rn_txn r)))
      | Refusing msg \<Rightarrow> Some (result_failure msg)
      | Noting _ res \<Rightarrow> Some res
      | Unwinding (Inr res) \<Rightarrow> Some res
      | Unwinding (Inl e) \<Rightarrow> Some (result_failure (handler_message e))
      | Handling _ msg \<Rightarrow> Some (result_failure msg)
      | Done (Inr res) \<Rightarrow> Some res
      | Done (Inl e) \<Rightarrow> Some (result_failure (exn_what e)))"

text \<open>What is known of a run between its steps, given the accounts and the ids of the journal.\<close>

definition run_ok :: "(account_id \<Rightarrow> account option) \<Rightarrow> transaction_id set \<Rightarrow> run \<Rightarrow> bool" where
  "run_ok v ids r \<longleftrightarrow>
     (case rn_phase r of
        Acquiring todo \<Rightarrow> rn_held r @ todo = lock_plan (rn_txn r)
      | Journaling loaded \<Rightarrow>
          rn_held r = lock_plan (rn_txn r) \<and> validate (rn_txn r) loaded \<and>
          list_all2 (\<lambda>i a. v i = Some a \<and> acc_id a = i) (lock_plan (rn_txn r)) loaded
      | Saving loaded \<Rightarrow>
          rn_held r = lock_plan (rn_txn r) \<and> validate (rn_txn r) loaded \<and>
          list_all2 (\<lambda>i a. v i = Some a \<and> acc_id a = i) (lock_plan (rn_txn r)) loaded \<and> rn_id r \<in> ids
      | Marking \<Rightarrow> rn_id r \<in> ids
      | Done (Inl _) \<Rightarrow> False
      | _ \<Rightarrow> True)"

definition good_run :: "run \<Rightarrow> bool" where
  "good_run r \<longleftrightarrow> good_env (rn_env r) \<and> money_ok (amount_of (rn_txn r))"

text \<open>The runs given, each on the accounts that the one before left, with the verdict as its result.\<close>

fun serial :: "(account_id \<Rightarrow> account option) \<Rightarrow> run list \<Rightarrow> (account_id \<Rightarrow> account option) \<Rightarrow> bool" where
  "serial v [] v' \<longleftrightarrow> v' = v"
| "serial v (r # rs) v' \<longleftrightarrow>
     decided r = Some (verdict_result (rn_env r) (rn_id r) (rn_txn r) v) \<and> serial (post_view (rn_txn r) v) rs v'"

lemma serial_append: "serial v (rs @ rs') v' \<longleftrightarrow> (\<exists>u. serial v rs u \<and> serial u rs' v')"
  by (induction rs arbitrary: v) auto

text \<open>A run that goes on without changing its result keeps its place.\<close>

definition same_call :: "run \<Rightarrow> run \<Rightarrow> bool" where
  "same_call r r' \<longleftrightarrow> rn_txn r' = rn_txn r \<and> rn_id r' = rn_id r \<and> rn_env r' = rn_env r"

lemma serial_mono:
  "list_all2 (\<lambda>r r'. same_call r r' \<and> decided r' = decided r) rs rs' \<Longrightarrow> serial v rs u \<Longrightarrow> serial v rs' u"
  by (induction arbitrary: v rule: list_all2_induct) (auto simp: same_call_def)

lemma post_none: "process_verdict t v = None \<Longrightarrow>
    post_view t v = put_accounts (snd (txn_apply t (loaded_from t v))) v"
  by (simp add: post_view_def)

lemma mark_known:
  assumes "wal_inv w" "i \<in> wal_ids w"
  obtains w' where "mark_committed None w i = (Inr (), w')" "wal_inv w'" "wal_ids w' = wal_ids w"
proof -
  obtain n where n: "find_entry (wal_entries w) i = Some n" using assms(2) find_entry_None by (fastforce simp: wal_ids_def)
  obtain w' where w': "mark_committed None w i = (Inr (), w')" "wal_inv w'"
    using mark_committed_inv [OF assms(1) n] by blast
  then have "wal_ids w' = wal_ids w" using wal_ids_commit by (metis snd_conv)
  then show ?thesis using that w' by blast
qed

lemma append_known:
  assumes "wal_inv w" "resize_error io = None" "write_io io = Written"
  obtains w' where "wal_append io w r = (Inr (), w')" "wal_inv w'" "wal_ids w' = insert (rec_id r) (wal_ids w)"
  using wal_append_written [OF assms, of r] that by (auto simp: wal_ids_def new_entry_def)

lemma loaded_verdict:
  assumes "list_all2 (\<lambda>i a. v i = Some a \<and> acc_id a = i) (lock_plan t) as" "validate t as" "view_ok v"
    "money_ok (amount_of t)"
  obtains (posts) as' where "txn_apply t as = (Inr (), as')" "process_verdict t v = None" "post_view t v = put_accounts as' v"
      "distinct (map acc_id as')"
  | (overflows) as' where "txn_apply t as = (Inl (Overflow_error ''Money: addition overflow''), as')"
      "process_verdict t v = Some ''Money: addition overflow''" "post_view t v = v"
proof -
  have ids: "map acc_id as = lock_plan t" by (rule load_ids [OF assms(1)])
  have as: "as = loaded_from t v" using load_found [OF assms(1)] by (simp add: loaded_from_def)
  have "accounts_ok as" using assms(1,3) by (auto simp: accounts_ok_def list_all_length list_all2_conv_all_nth view_ok_def)
  moreover have dist: "distinct (map acc_id as)" by (simp add: ids lock_plan_def distinct_involved)
  ultimately show ?thesis
    using txn_apply_posts [OF assms(2) _ _ dist assms(4)] txn_apply_overflow [OF assms(2) _ _ dist assms(4)]
      verdict_loaded [OF assms(1)] assms(2) posts overflows as txn_apply_ids [of t as] dist
    by (cases "credit_overflows t as") (auto simp: post_view_def)
qed

text \<open>
  One piece of work of a run: it keeps the run well formed and the journal in order; and either it changes
  neither accounts nor result, or it decides the run, with the verdict on the accounts and the accounts
  that the transaction posts.
\<close>

definition work_ok ::
  "('a \<Rightarrow> bool) \<Rightarrow> ('a \<Rightarrow> account_id \<Rightarrow> account option) \<Rightarrow> run \<Rightarrow> ('a, 't, 'u) processor \<Rightarrow> run_phase \<Rightarrow>
     ('a, 't, 'u) processor \<Rightarrow> bool" where
  "work_ok aok aview r p ph q \<longleftrightarrow>
     aok (pr_accounts q) \<and> wal_inv (pr_wal q) \<and> wal_ids (pr_wal p) \<subseteq> wal_ids (pr_wal q) \<and>
     run_ok (aview (pr_accounts q)) (wal_ids (pr_wal q)) (r\<lparr>rn_phase := ph\<rparr>) \<and>
     ((decided (r\<lparr>rn_phase := ph\<rparr>) = decided r \<and> pr_accounts q = pr_accounts p) \<or>
      (decided r = None \<and> rn_held r = lock_plan (rn_txn r) \<and>
       decided (r\<lparr>rn_phase := ph\<rparr>) = Some (verdict_result (rn_env r) (rn_id r) (rn_txn r) (aview (pr_accounts p))) \<and>
       aview (pr_accounts q) = post_view (rn_txn r) (aview (pr_accounts p))))"

context reliable_stores begin

lemma append_entry_total: "\<exists>u. append_entry repos e p = (Inr (), p\<lparr>pr_audit := u\<rparr>)"
  using aud.append_total [of "pr_audit p" e] by (auto simp: append_entry_def)

lemma load_step_ok:
  assumes phase: "rn_phase r = Acquiring todo" and works: "works (rn_phase r) (rn_held r)"
    and step: "work_step repos r p = (ph, q)" and ok: "run_ok (aview (pr_accounts p)) (wal_ids (pr_wal p)) r"
    and aok: "aok (pr_accounts p)" and inv: "wal_inv (pr_wal p)"
  shows "work_ok aok aview r p ph q"
proof -
  let ?v = "aview (pr_accounts p)" and ?ids = "lock_plan (rn_txn r)"
  have held: "rn_held r = ?ids" using ok phase works by (simp add: run_ok_def)
  have load: "load_involved (ar_find_by_id (rp_accounts repos)) (pr_accounts p) ?ids =
      Inr (case List.find (\<lambda>i. ?v i = None) ?ids of Some i \<Rightarrow> Inl i | None \<Rightarrow> Inr (map (\<lambda>i. the (?v i)) ?ids))"
    by (rule load_involved_total [OF aok])
  show ?thesis
  proof (cases "List.find (\<lambda>i. ?v i = None) ?ids")
    case (Some j)
    then show ?thesis using step phase load aok inv held
      by (auto simp: work_step_def load_accounts_io_def work_ok_def run_ok_def decided_def post_view_def
          verdict_result_def process_verdict_def)
  next
    case None
    then have "load_involved (ar_find_by_id (rp_accounts repos)) (pr_accounts p) ?ids = Inr (Inr (loaded_from (rn_txn r) ?v))"
      using load by (simp add: loaded_from_def)
    moreover note loaded = load_involved_view [OF aok this]
    ultimately show ?thesis using step phase aok inv held verdict_loaded [OF loaded]
      by (auto simp: work_step_def load_accounts_io_def work_ok_def run_ok_def decided_def post_view_def
          verdict_result_def split: if_splits)
  qed
qed

lemma save_step_ok:
  assumes phase: "rn_phase r = Saving as" and step: "work_step repos r p = (ph, q)"
    and ok: "run_ok (aview (pr_accounts p)) (wal_ids (pr_wal p)) r"
    and aok: "aok (pr_accounts p)" and vok: "view_ok (aview (pr_accounts p))" and inv: "wal_inv (pr_wal p)"
    and m: "money_ok (amount_of (rn_txn r))"
  shows "work_ok aok aview r p ph q"
proof -
  let ?t = "rn_txn r" and ?v = "aview (pr_accounts p)"
  have held: "rn_held r = lock_plan ?t" and id: "rn_id r \<in> wal_ids (pr_wal p)" and valid: "validate ?t as"
    and loaded: "list_all2 (\<lambda>i a. ?v i = Some a \<and> acc_id a = i) (lock_plan ?t) as"
    using ok phase by (simp_all add: run_ok_def)
  show ?thesis
  proof (cases rule: loaded_verdict [OF loaded valid vok m, case_names posts overflows])
    case (posts as')
    obtain a where a: "save_all (ar_save (rp_accounts repos)) as' (pr_accounts p) = (Inr (), a)"
      using save_all_total [OF aok] by blast
    then have "aok a" "aview a = post_view ?t ?v" using save_all_view [OF aok a posts(4)] posts(3) by simp_all
    then show ?thesis using step phase posts a inv held id
      by (auto simp: work_step_def save_accounts_io_def continue_with_def work_ok_def run_ok_def decided_def
          verdict_result_def)
  next
    case (overflows as')
    then show ?thesis using step phase aok inv held
      by (auto simp: work_step_def work_ok_def run_ok_def decided_def verdict_result_def handler_message_def)
  qed
qed

lemma work_step_ok:
  assumes works: "works (rn_phase r) (rn_held r)" and step: "work_step repos r p = (ph, q)"
    and ok: "run_ok (aview (pr_accounts p)) (wal_ids (pr_wal p)) r"
    and aok: "aok (pr_accounts p)" and vok: "view_ok (aview (pr_accounts p))" and inv: "wal_inv (pr_wal p)"
    and good: "good_run r"
  shows "work_ok aok aview r p ph q"
proof (cases "rn_phase r")
  case (Acquiring todo)
  then show ?thesis using load_step_ok [OF _ works step ok aok inv] by blast
next
  case (Journaling as)
  let ?rec = "(project_transaction (pe_record_time (rn_env r)) (rn_id r) (rn_txn r))\<lparr>rec_state := Validated\<rparr>"
  have "resize_error (pe_append (rn_env r)) = None" "write_io (pe_append (rn_env r)) = Written"
    using good by (simp_all add: good_run_def good_env_def)
  then obtain w where "wal_append (pe_append (rn_env r)) (pr_wal p) ?rec = (Inr (), w)"
    "wal_inv w" "wal_ids w = insert (rec_id ?rec) (wal_ids (pr_wal p))" by (rule append_known [OF inv])
  moreover have "rec_id ?rec = rn_id r" by (simp add: project_transaction_def)
  ultimately show ?thesis using step ok aok Journaling
    by (auto simp: work_step_def wal_append_io_def continue_with_def work_ok_def run_ok_def decided_def)
next
  case (Saving as)
  then show ?thesis using save_step_ok [OF _ step ok aok vok inv] good by (simp add: good_run_def)
next
  case Marking
  then have "rn_id r \<in> wal_ids (pr_wal p)" using ok by (simp add: run_ok_def)
  then obtain w where "mark_committed (pe_marker (rn_env r)) (pr_wal p) (rn_id r) = (Inr (), w)" "wal_inv w"
    "wal_ids w = wal_ids (pr_wal p)"
    using mark_known [OF inv] good by (auto simp: good_run_def good_env_def)
  then show ?thesis using step aok Marking
    by (auto simp: work_step_def wal_commit_io_def continue_with_def work_ok_def run_ok_def decided_def)
next
  case Recording
  let ?rec = "committed_record (rn_env r) (rn_id r) (rn_txn r)"
  obtain u where "tr_append (rp_transactions repos) (pr_transactions p) ?rec = (Inr (), u)" using tx.append_total by blast
  then show ?thesis using step aok inv Recording
    by (auto simp: work_step_def append_record_io_def continue_with_def work_ok_def run_ok_def decided_def committed_record_def)
next
  case Completing
  then show ?thesis using step aok inv
    by (auto simp: work_step_def make_entry_def Let_def work_ok_def run_ok_def decided_def committed_record_def)
next
  case (Refusing msg)
  then show ?thesis using step aok inv by (auto simp: work_step_def make_entry_def work_ok_def run_ok_def decided_def)
next
  case (Noting e res)
  then show ?thesis using step aok inv append_entry_total [of e p]
    by (auto simp: work_step_def continue_with_def work_ok_def run_ok_def decided_def)
next
  case (Unwinding x)
  then show ?thesis using step aok inv
    by (cases x) (auto simp: work_step_def make_entry_def work_ok_def run_ok_def decided_def)
next
  case (Handling e msg)
  then show ?thesis using step aok inv append_entry_total [of e p]
    by (auto simp: work_step_def work_ok_def run_ok_def decided_def)
next
  case (Done x)
  then show ?thesis using works by simp
qed

text \<open>The invariant of the system: everything decided so far happened in some order, one run at a time.\<close>

end

definition decided_order ::
  "(account_id \<Rightarrow> account option) \<Rightarrow> run list \<Rightarrow> (account_id \<Rightarrow> account option) \<Rightarrow> nat list \<Rightarrow> bool" where
  "decided_order v0 runs v order \<longleftrightarrow>
     distinct order \<and> set order = {k. k < length runs \<and> decided (runs ! k) \<noteq> None} \<and>
     serial v0 (map (\<lambda>k. runs ! k) order) v"

definition system_inv ::
  "('a \<Rightarrow> bool) \<Rightarrow> ('a \<Rightarrow> account_id \<Rightarrow> account option) \<Rightarrow> (account_id \<Rightarrow> account option) \<Rightarrow> nat list \<Rightarrow>
     ('a, 't, 'u) system \<Rightarrow> bool" where
  "system_inv aok aview v0 order s \<longleftrightarrow>
     aok (pr_accounts (sy_proc s)) \<and> view_ok (aview (pr_accounts (sy_proc s))) \<and> wal_inv (pr_wal (sy_proc s)) \<and>
     lock_inv (lock_view s) \<and>
     (\<forall>r \<in> set (sy_runs s). run_ok (aview (pr_accounts (sy_proc s))) (wal_ids (pr_wal (sy_proc s))) r) \<and>
     decided_order v0 (sy_runs s) (aview (pr_accounts (sy_proc s))) order"

text \<open>A step that changes one run and neither its result nor the accounts keeps the order.\<close>

lemma decided_order_keeps:
  assumes "decided_order v0 runs v order" "k < length runs" "same_call (runs ! k) r" "decided r = decided (runs ! k)"
  shows "decided_order v0 (runs[k := r]) v order"
proof -
  have "list_all2 (\<lambda>r r'. same_call r r' \<and> decided r' = decided r) (map (\<lambda>j. runs ! j) order) (map (\<lambda>j. runs[k := r] ! j) order)"
    using assms(2-4) by (auto simp: list_all2_conv_all_nth nth_list_update same_call_def)
  from serial_mono [OF this] show ?thesis
    using assms by (auto simp: decided_order_def nth_list_update)
qed

lemma decided_order_new:
  assumes "decided_order v0 runs v order" "decided r = None"
  shows "decided_order v0 (runs @ [r]) v order"
proof -
  have "map (\<lambda>k. (runs @ [r]) ! k) order = map (\<lambda>k. runs ! k) order"
    using assms(1) by (auto simp: decided_order_def nth_append)
  moreover have "{k. k < length (runs @ [r]) \<and> decided ((runs @ [r]) ! k) \<noteq> None} = {k. k < length runs \<and> decided (runs ! k) \<noteq> None}"
    using assms(2) by (auto simp: nth_append less_Suc_eq)
  ultimately show ?thesis using assms(1) unfolding decided_order_def by metis
qed

text \<open>A run that is decided comes last in the order.\<close>

lemma decided_order_extend:
  assumes "decided_order v0 runs v order" "k < length runs" "decided (runs ! k) = None" "same_call (runs ! k) r"
    "decided r = Some (verdict_result (rn_env r) (rn_id r) (rn_txn r) v)" "v' = post_view (rn_txn r) v"
  shows "decided_order v0 (runs[k := r]) v' (order @ [k])"
proof -
  have k: "k \<notin> set order" using assms(1,3) by (simp add: decided_order_def)
  have "runs[k := r] ! j = runs ! j" if "j \<in> set order" for j using k that by (metis nth_list_update_neq)
  then have "map (\<lambda>j. runs[k := r] ! j) order = map (\<lambda>j. runs ! j) order" by (rule map_cong [OF refl])
  then have "map (\<lambda>j. runs[k := r] ! j) (order @ [k]) = map (\<lambda>j. runs ! j) order @ [r]" using assms(2) by simp
  moreover have "serial v0 (map (\<lambda>j. runs ! j) order @ [r]) v'"
    using assms(1,5,6) unfolding serial_append decided_order_def by (intro exI [of _ v]) simp
  ultimately have "serial v0 (map (\<lambda>j. runs[k := r] ! j) (order @ [k])) v'" by (simp only:)
  moreover have "{j. j < length (runs[k := r]) \<and> decided (runs[k := r] ! j) \<noteq> None} =
      insert k {j. j < length runs \<and> decided (runs ! j) \<noteq> None}"
  proof (rule set_eqI)
    fix j
    show "j \<in> {j. j < length (runs[k := r]) \<and> decided (runs[k := r] ! j) \<noteq> None} \<longleftrightarrow>
        j \<in> insert k {j. j < length runs \<and> decided (runs ! j) \<noteq> None}"
      using assms(2,5) by (cases "j = k") simp_all
  qed
  ultimately show ?thesis using assms(1) k unfolding decided_order_def by simp
qed

text \<open>What a run has loaded is not touched by the others: the accounts it loaded are locked.\<close>

lemma run_ok_stays:
  assumes "run_ok v ids r" "ids \<subseteq> ids'" "\<And>i. i \<in> set (rn_held r) \<Longrightarrow> v' i = v i"
  shows "run_ok v' ids' r"
proof -
  have "list_all2 (\<lambda>i a. v' i = Some a \<and> acc_id a = i) (lock_plan (rn_txn r)) as"
    if "rn_held r = lock_plan (rn_txn r)" "list_all2 (\<lambda>i a. v i = Some a \<and> acc_id a = i) (lock_plan (rn_txn r)) as" for as
    by (rule list.rel_mono_strong [OF that(2)]) (use assms(3) that(1) in auto)
  then show ?thesis using assms(1,2) by (auto simp: run_ok_def split: run_phase.splits)
qed

lemma held_apart:
  assumes "lock_inv (lock_view s)" "k < length (sy_runs s)" "j < length (sy_runs s)" "j \<noteq> k"
  shows "set (rn_held (sy_runs s ! j)) \<inter> set (rn_held (sy_runs s ! k)) = {}"
  using lock_inv_exclusive [OF assms(1), of j k] assms(2-4) by auto

lemma all_runs_update:
  assumes "\<And>j. j < length rs \<Longrightarrow> j \<noteq> k \<Longrightarrow> P (rs ! j)" "P r"
  shows "\<forall>x \<in> set (rs[k := r]). P x"
proof
  fix x assume "x \<in> set (rs[k := r])"
  then obtain j where "j < length rs" "x = rs[k := r] ! j" by (auto simp: in_set_conv_nth)
  then show "P x" using assms by (cases "j = k") simp_all
qed

lemma decided_phase:
  "decided (r\<lparr>rn_held := h\<rparr>) = decided r"
  "rn_phase r = Acquiring todo \<Longrightarrow> decided (r\<lparr>rn_phase := Acquiring todo', rn_held := h\<rparr>) = decided r"
  by (simp_all add: decided_def cong: run_phase.case_cong)

text \<open>A step of a run at its mutexes.\<close>

lemma system_inv_same:
  assumes inv: "system_inv aok aview v0 order s" and k: "k < length (sy_runs s)"
    and q: "pr_accounts q = pr_accounts (sy_proc s)" "pr_wal q = pr_wal (sy_proc s)"
    and r: "same_call (sy_runs s ! k) r" "decided r = decided (sy_runs s ! k)"
    and ok: "\<And>v ids. run_ok v ids (sy_runs s ! k) \<Longrightarrow> run_ok v ids r"
    and locks: "lock_inv (lock_view (s\<lparr>sy_proc := q, sy_runs := (sy_runs s)[k := r]\<rparr>))"
  shows "system_inv aok aview v0 order (s\<lparr>sy_proc := q, sy_runs := (sy_runs s)[k := r]\<rparr>)"
proof -
  let ?P = "run_ok (aview (pr_accounts (sy_proc s))) (wal_ids (pr_wal (sy_proc s)))"
  have runs: "?P (sy_runs s ! j)" if "j < length (sy_runs s)" for j using inv that by (simp add: system_inv_def)
  have "\<forall>x \<in> set ((sy_runs s)[k := r]). ?P x" by (rule all_runs_update) (use runs ok [OF runs [OF k]] in simp_all)
  moreover have "decided_order v0 (sy_runs s) (aview (pr_accounts (sy_proc s))) order"
    using inv by (simp add: system_inv_def)
  note decided_order_keeps [OF this k r]
  ultimately show ?thesis using inv locks q unfolding system_inv_def by auto
qed

text \<open>The calls that have started stay the same.\<close>

lemma run_step_earlier:
  assumes "run_step repos s s'" "\<forall>r \<in> set (sy_runs s'). Q r" "\<And>r r'. same_call r r' \<Longrightarrow> Q r' \<Longrightarrow> Q r"
  shows "\<forall>r \<in> set (sy_runs s). Q r"
proof -
  have earlier: "\<forall>r \<in> set rs. Q r"
    if "\<forall>x \<in> set (rs[k := r]). Q x" "k < length rs" "same_call (rs ! k) r" for rs k r
  proof
    fix x assume "x \<in> set rs"
    then obtain j where j: "j < length rs" "x = rs ! j" by (auto simp: in_set_conv_nth)
    have "Q (rs[k := r] ! j)" using that(1) j by (simp add: set_conv_nth) (metis length_list_update)
    then show "Q x" using that(2) assms(3) [OF that(3)] j by (cases "j = k") simp_all
  qed
  from assms(1) show ?thesis
    using assms(2) by (cases rule: run_step_shape) (auto dest!: earlier simp: same_call_def)
qed

lemma same_call_good: "same_call r r' \<Longrightarrow> good_run r' \<Longrightarrow> good_run r"
  by (simp add: good_run_def same_call_def)

lemma run_step_good: "run_step repos s s' \<Longrightarrow> \<forall>r \<in> set (sy_runs s'). good_run r \<Longrightarrow> \<forall>r \<in> set (sy_runs s). good_run r"
  by (erule run_step_earlier) (auto intro: same_call_good)

lemma run_steps_earlier:
  "(run_step repos)\<^sup>*\<^sup>* s s' \<Longrightarrow> \<forall>r \<in> set (sy_runs s'). Q r \<Longrightarrow> (\<And>r r'. same_call r r' \<Longrightarrow> Q r' \<Longrightarrow> Q r) \<Longrightarrow>
    \<forall>r \<in> set (sy_runs s). Q r"
  by (induction rule: converse_rtranclp_induct) (auto dest: run_step_earlier [where Q = Q])

lemma run_steps_good:
  "(run_step repos)\<^sup>*\<^sup>* s s' \<Longrightarrow> \<forall>r \<in> set (sy_runs s'). good_run r \<Longrightarrow> \<forall>r \<in> set (sy_runs s). good_run r"
  by (erule run_steps_earlier) (auto intro: same_call_good)

context reliable_stores begin

lemma accepted_loaded:
  assumes "aok a" "view_ok (aview a)" "money_ok (amount_of t)" "process_verdict t (aview a) = None"
  obtains as' where "txn_apply t (loaded_from t (aview a)) = (Inr (), as')"
  using accepted_steps [OF assms] load_found [OF load_involved_view [OF assms(1)]] that
  unfolding loaded_from_def by metis

lemma post_view_posted:
  assumes "aok a" "view_ok (aview a)" "money_ok (amount_of t)" "process_verdict t (aview a) = None"
  shows "posted_view t (aview a) (post_view t (aview a))"
proof -
  obtain as as' b where steps: "load_involved (ar_find_by_id (rp_accounts repos)) a (lock_plan t) = Inr (Inr as)"
    "txn_apply t as = (Inr (), as')" "save_all (ar_save (rp_accounts repos)) as' a = (Inr (), b)"
    "posted_view t (aview a) (aview b)"
    using accepted_steps [OF assms] by metis
  have "as = loaded_from t (aview a)"
    using load_found [OF load_involved_view [OF assms(1) steps(1)]] by (simp add: loaded_from_def)
  moreover have "distinct (map acc_id as')"
    using txn_apply_ids [of t as] steps(2) load_ids [OF load_involved_view [OF assms(1) steps(1)]]
    by (simp add: lock_plan_def distinct_involved)
  ultimately have "aview b = post_view t (aview a)"
    using save_all_view [OF assms(1) steps(3)] steps(2) assms(4) by (simp add: post_view_def)
  then show ?thesis using steps(4) by simp
qed

lemma post_view_ok:
  assumes "aok a" "view_ok (aview a)" "money_ok (amount_of t)"
  shows "view_ok (post_view t (aview a))"
proof (cases "process_verdict t (aview a)")
  case None
  then show ?thesis using posted_view_ok [OF post_view_posted [OF assms] assms(2)] by blast
qed (use assms(2) in \<open>simp add: post_view_def\<close>)

lemma system_inv_work:
  assumes inv: "system_inv aok aview v0 order s" and k: "k < length (sy_runs s)" and good: "good_run (sy_runs s ! k)"
    and works: "works (rn_phase (sy_runs s ! k)) (rn_held (sy_runs s ! k))"
    and step: "work_step repos (sy_runs s ! k) (sy_proc s) = (ph, q)"
  shows "\<exists>more. system_inv aok aview v0 (order @ more)
    (s\<lparr>sy_proc := q, sy_runs := (sy_runs s)[k := (sy_runs s ! k)\<lparr>rn_phase := ph\<rparr>]\<rparr>)"
proof -
  let ?r = "sy_runs s ! k" and ?v = "aview (pr_accounts (sy_proc s))" and ?v' = "aview (pr_accounts q)"
  let ?r' = "?r\<lparr>rn_phase := ph\<rparr>" and ?ids = "wal_ids (pr_wal (sy_proc s))" and ?ids' = "wal_ids (pr_wal q)"
  have aok: "aok (pr_accounts (sy_proc s))" and vok: "view_ok ?v" and wal: "wal_inv (pr_wal (sy_proc s))"
    and locks: "lock_inv (lock_view s)" and runs: "\<And>j. j < length (sy_runs s) \<Longrightarrow> run_ok ?v ?ids (sy_runs s ! j)"
    using inv by (auto simp: system_inv_def)
  have order: "decided_order v0 (sy_runs s) ?v order" using inv by (simp add: system_inv_def)
  have work: "work_ok aok aview ?r (sy_proc s) ph q"
    by (rule work_step_ok [OF works step runs [OF k] aok vok wal good])
  then have parts: "aok (pr_accounts q)" "wal_inv (pr_wal q)" "?ids \<subseteq> ?ids'" "run_ok ?v' ?ids' ?r'"
    by (simp_all add: work_ok_def)
  have locks': "lock_inv (lock_view (s\<lparr>sy_proc := q, sy_runs := (sy_runs s)[k := ?r']\<rparr>))"
    using run_step_locks [OF run_step.run_works [OF k works step] locks] .
  have same: "same_call ?r ?r'" by (simp add: same_call_def)
  have "view_ok ?v' \<and> (\<forall>i. i \<notin> set (rn_held ?r) \<longrightarrow> ?v' i = ?v i) \<and>
      (\<exists>more. decided_order v0 ((sy_runs s)[k := ?r']) ?v' (order @ more))"
    using work unfolding work_ok_def
  proof (elim conjE disjE)
    assume "decided ?r' = decided ?r" "pr_accounts q = pr_accounts (sy_proc s)"
    then show ?thesis using vok decided_order_keeps [OF order k same] by (auto intro: exI [of _ "[]"])
  next
    assume d: "decided ?r = None" "rn_held ?r = lock_plan (rn_txn ?r)"
      "decided ?r' = Some (verdict_result (rn_env ?r) (rn_id ?r) (rn_txn ?r) ?v)" "?v' = post_view (rn_txn ?r) ?v"
    have "view_ok (post_view (rn_txn ?r) ?v)"
      using post_view_ok [OF aok vok] good by (simp add: good_run_def)
    then show ?thesis using d post_view_other [OF vok] decided_order_extend [OF order k d(1) same] by auto
  qed
  moreover have others: "run_ok ?v' ?ids' (sy_runs s ! j)" if "j < length (sy_runs s)" "j \<noteq> k" for j
    using run_ok_stays [OF runs [OF that(1)] parts(3), of ?v'] held_apart [OF locks k that] calculation by blast
  have "\<forall>x \<in> set ((sy_runs s)[k := ?r']). run_ok ?v' ?ids' x" by (rule all_runs_update [OF others parts(4)])
  ultimately show ?thesis using parts(1,2) locks' unfolding system_inv_def by simp
qed

lemma system_inv_step:
  assumes step: "run_step repos s s'" and inv: "system_inv aok aview v0 order s" and good: "\<forall>r \<in> set (sy_runs s). good_run r"
  shows "\<exists>more. system_inv aok aview v0 (order @ more) s'"
proof -
  have locks: "lock_inv (lock_view s')" using run_step_locks [OF step] inv by (simp add: system_inv_def)
  have order: "decided_order v0 (sy_runs s) (aview (pr_accounts (sy_proc s))) order"
    using inv by (simp add: system_inv_def)
  from step show ?thesis
  proof (cases rule: run_step_shape)
    case run_quiet
    then have "system_inv aok aview v0 order s'" using inv locks by (simp add: system_inv_def same_stores_def)
    then show ?thesis by (metis append_Nil2)
  next
    case (run_begins t i env)
    have "decided_order v0 (sy_runs s @ [new_run t i env]) (aview (pr_accounts (sy_proc s))) order"
      by (rule decided_order_new [OF order]) (simp add: new_run_def decided_def)
    then have "system_inv aok aview v0 order s'" using inv locks run_begins
      by (auto simp: same_stores_def system_inv_def run_ok_def new_run_def)
    then show ?thesis by (metis append_Nil2)
  next
    case (run_locks k i todo lm)
    have "system_inv aok aview v0 order s'" unfolding run_locks(1)
      by (rule system_inv_same [OF inv run_locks(2)])
        (use locks run_locks(3) decided_phase(2) [OF run_locks(3)] in
          \<open>auto simp: run_locks(1) same_call_def run_ok_def\<close>)
    then show ?thesis by (metis append_Nil2)
  next
    case (run_unlocks k x i)
    have "system_inv aok aview v0 order s'" unfolding run_unlocks(1)
      by (rule system_inv_same [OF inv run_unlocks(2)])
        (use locks run_unlocks(3) decided_phase(1) in \<open>auto simp: run_unlocks(1) same_call_def run_ok_def\<close>)
    then show ?thesis by (metis append_Nil2)
  next
    case (run_works k ph p)
    then show ?thesis using system_inv_work [OF inv run_works(2) _ run_works(3,4)] good by simp
  qed
qed

lemma system_inv_start:
  assumes "aok (pr_accounts p)" "view_ok (aview (pr_accounts p))" "wal_inv (pr_wal p)" "\<forall>i. holder (pr_locks p) i = None"
  shows "system_inv aok aview (aview (pr_accounts p)) [] (idle_system p)"
  using assms by (simp add: system_inv_def idle_system_def lock_inv_def decided_order_def)

lemma system_inv_run:
  assumes "(run_step repos)\<^sup>*\<^sup>* s s'" "system_inv aok aview v0 order s" "\<forall>r \<in> set (sy_runs s'). good_run r"
  shows "\<exists>more. system_inv aok aview v0 (order @ more) s'"
  using assms
proof (induction rule: rtranclp_induct)
  case base
  then show ?case by (metis append_Nil2)
next
  case (step s1 s2)
  have "\<forall>r \<in> set (sy_runs s1). good_run r" by (rule run_step_good [OF step(2) step.prems(2)])
  then obtain more where "system_inv aok aview v0 (order @ more) s1" using step.IH step.prems(1) by blast
  from system_inv_step [OF step(2) this] show ?case
    using run_step_good [OF step(2) step.prems(2)] by (metis append.assoc)
qed

text \<open>A serial order is what \<open>process_impl\<close> does, call after call.\<close>

lemma serial_runs:
  assumes "serial (aview (pr_accounts p)) rs v'" "\<forall>r \<in> set rs. good_run r"
    "aok (pr_accounts p)" "view_ok (aview (pr_accounts p))" "wal_inv (pr_wal p)"
  shows "\<exists>q. run_serially repos rs p = (Inr (map (\<lambda>r. the (decided r)) rs), q) \<and> aok (pr_accounts q) \<and>
    aview (pr_accounts q) = v'"
  using assms
proof (induction rs arbitrary: p)
  case Nil
  then show ?case by (simp add: io_return_def)
next
  case (Cons r rs)
  have good: "good_env (rn_env r)" "money_ok (amount_of (rn_txn r))" using Cons.prems(2) by (simp_all add: good_run_def)
  let ?v = "aview (pr_accounts p)"
  obtain p1 where p1: "process_impl repos (rn_env r) (rn_txn r) (rn_id r) p =
      (Inr (verdict_result (rn_env r) (rn_id r) (rn_txn r) ?v), p1)"
    "aok (pr_accounts p1)" "aview (pr_accounts p1) = post_view (rn_txn r) ?v" "wal_inv (pr_wal p1)"
    by (rule process_impl_posts [OF Cons.prems(3,4) good(2) Cons.prems(5) good(1)])
  have "view_ok (aview (pr_accounts p1))" unfolding p1(3) by (rule post_view_ok [OF Cons.prems(3,4) good(2)])
  then obtain q where "run_serially repos rs p1 = (Inr (map (\<lambda>r. the (decided r)) rs), q)" "aok (pr_accounts q)"
    "aview (pr_accounts q) = v'"
    using Cons.IH [of p1] Cons.prems(1,2) p1 by auto
  then show ?case using p1(1) Cons.prems(1) by (simp add: io_bind_def io_return_def)
qed

text \<open>
  From any state: the runs decided by then, followed by those decided later, one after the other, give
  the results and the accounts of the interleaved execution.
\<close>

lemma decided_serializes:
  assumes p: "aok (pr_accounts p)" "view_ok (aview (pr_accounts p))" "wal_inv (pr_wal p)" "\<forall>i. holder (pr_locks p) i = None"
    and runs: "(run_step repos)\<^sup>*\<^sup>* (idle_system p) s1" "(run_step repos)\<^sup>*\<^sup>* s1 s"
    and good: "\<forall>r \<in> set (sy_runs s). good_run r"
  obtains before after q where "distinct (before @ after)"
    "set before = {k. k < length (sy_runs s1) \<and> decided (sy_runs s1 ! k) \<noteq> None}"
    "set (before @ after) = {k. k < length (sy_runs s) \<and> decided (sy_runs s ! k) \<noteq> None}"
    "run_serially repos (map (\<lambda>k. sy_runs s ! k) (before @ after)) p =
       (Inr (map (\<lambda>k. the (decided (sy_runs s ! k))) (before @ after)), q)"
    "aok (pr_accounts q)" "aview (pr_accounts q) = aview (pr_accounts (sy_proc s))"
    "system_inv aok aview (aview (pr_accounts p)) (before @ after) s"
proof -
  have good1: "\<forall>r \<in> set (sy_runs s1). good_run r" by (rule run_steps_good [OF runs(2) good])
  obtain before where before: "system_inv aok aview (aview (pr_accounts p)) before s1"
    using system_inv_run [OF runs(1) system_inv_start [OF p] good1] by auto
  obtain after where after: "system_inv aok aview (aview (pr_accounts p)) (before @ after) s"
    using system_inv_run [OF runs(2) before good] by auto
  have order: "decided_order (aview (pr_accounts p)) (sy_runs s) (aview (pr_accounts (sy_proc s))) (before @ after)"
    using after by (simp add: system_inv_def)
  then have "\<forall>r \<in> set (map (\<lambda>k. sy_runs s ! k) (before @ after)). good_run r"
    using good unfolding decided_order_def set_map by auto
  moreover have "serial (aview (pr_accounts p)) (map (\<lambda>k. sy_runs s ! k) (before @ after)) (aview (pr_accounts (sy_proc s)))"
    using order unfolding decided_order_def by blast
  ultimately obtain q where "run_serially repos (map (\<lambda>k. sy_runs s ! k) (before @ after)) p =
      (Inr (map (\<lambda>r. the (decided r)) (map (\<lambda>k. sy_runs s ! k) (before @ after))), q)"
    "aok (pr_accounts q)" "aview (pr_accounts q) = aview (pr_accounts (sy_proc s))"
    using serial_runs [OF _ _ p(1-3)] by blast
  moreover have "set before = {k. k < length (sy_runs s1) \<and> decided (sy_runs s1 ! k) \<noteq> None}"
    using before unfolding system_inv_def decided_order_def by blast
  moreover have "distinct (before @ after)"
    "set (before @ after) = {k. k < length (sy_runs s) \<and> decided (sy_runs s ! k) \<noteq> None}"
    using order unfolding decided_order_def by blast+
  ultimately show ?thesis using after that by (simp add: comp_def)
qed

end

end
