(* ===== verification/Bank_Interleaving_Props.thy ===== *)
theory Bank_Interleaving_Props
  imports Bank_Interleaving_Correct Bank_Sample "HOL-Library.Multiset"
begin

text \<open>
  Interleaved calls of \<open>process_one\<close> on the in-memory repositories: they are serializable, they conserve
  money at every moment, and they all return.
\<close>

section \<open>Every run returns\<close>

definition run_work :: "run \<Rightarrow> nat" where
  "run_work r = length (rn_held r) +
     (case rn_phase r of
        Acquiring todo \<Rightarrow> 2 * length todo + 9
      | Journaling _ \<Rightarrow> 8
      | Saving _ \<Rightarrow> 7
      | Marking \<Rightarrow> 6
      | Recording \<Rightarrow> 5
      | Completing \<Rightarrow> 4
      | Refusing _ \<Rightarrow> 4
      | Noting _ _ \<Rightarrow> 3
      | Unwinding _ \<Rightarrow> 2
      | Handling _ _ \<Rightarrow> 1
      | Done _ \<Rightarrow> 0)"

definition system_work :: "('a, 't, 'u) system \<Rightarrow> nat" where
  "system_work s = sum_list (map run_work (sy_runs s))"

text \<open>A step of a call in progress.\<close>

definition run_goes_on ::
  "('a, 't, 'u) repositories \<Rightarrow> ('a, 't, 'u) system \<Rightarrow> ('a, 't, 'u) system \<Rightarrow> bool" where
  "run_goes_on repos s s' \<longleftrightarrow>
     run_step repos s s' \<and> length (sy_runs s') = length (sy_runs s) \<and> sy_runs s' \<noteq> sy_runs s"

definition returned :: "run \<Rightarrow> bool" where
  "returned r \<longleftrightarrow> (case rn_phase r of Done _ \<Rightarrow> True | _ \<Rightarrow> False)"

lemma returned_iff: "returned r \<longleftrightarrow> (\<exists>x. rn_phase r = Done x)"
  by (simp add: returned_def split: run_phase.split)

lemma work_step_work:
  assumes "work_step repos r p = (ph, q)" "works (rn_phase r) (rn_held r)"
  shows "run_work (r\<lparr>rn_phase := ph\<rparr>) < run_work r"
  using assms
  by (auto simp: work_step_def Let_def run_work_def continue_with_def split: run_phase.splits sum.splits prod.splits if_splits)

lemma system_work_update:
  "k < length (sy_runs s) \<Longrightarrow> run_work r < run_work (sy_runs s ! k) \<Longrightarrow>
   system_work (s\<lparr>sy_proc := q, sy_runs := (sy_runs s)[k := r]\<rparr>) < system_work s"
  using sum_list_update [of k "map run_work (sy_runs s)" "run_work r"]
    member_le_sum_list [of "run_work (sy_runs s ! k)" "map run_work (sy_runs s)"]
  by (simp add: system_work_def map_update)

lemma shorter: "x \<in> set xs \<Longrightarrow> length (remove1 x xs) < length xs"
  by (metis length_pos_if_in_set length_remove1 diff_less zero_less_one)

lemma run_step_work:
  assumes "run_step repos s s'"
  shows "sy_runs s' = sy_runs s \<or> length (sy_runs s') = Suc (length (sy_runs s)) \<or>
    (length (sy_runs s') = length (sy_runs s) \<and> system_work s' < system_work s)"
  using assms
proof (cases rule: run_step_shape)
  case (run_locks k i todo lm)
  have "system_work s' < system_work s" unfolding run_locks(1)
    by (rule system_work_update [OF run_locks(2)]) (simp add: run_work_def run_locks(3))
  then show ?thesis by (simp add: run_locks(1))
next
  case (run_unlocks k x i)
  have "system_work s' < system_work s" unfolding run_unlocks(1)
    by (intro system_work_update [OF run_unlocks(2)]) (use shorter [OF run_unlocks(4)] in \<open>simp add: run_work_def run_unlocks(3)\<close>)
  then show ?thesis by (simp add: run_unlocks(1))
next
  case (run_works k ph p)
  have "system_work s' < system_work s" unfolding run_works(1)
    by (rule system_work_update [OF run_works(2) work_step_work [OF run_works(4,3)]])
  then show ?thesis by (simp add: run_works(1))
qed simp_all

lemma goes_on_work: "run_goes_on repos s s' \<Longrightarrow> system_work s' < system_work s"
  using run_step_work [of repos s s'] by (auto simp: run_goes_on_def)

text \<open>A step that changes one run is such a step.\<close>

lemma goes_on_update:
  assumes "run_step repos s (s\<lparr>sy_proc := q, sy_runs := (sy_runs s)[k := r]\<rparr>)" "k < length (sy_runs s)" "r \<noteq> sy_runs s ! k"
  shows "\<exists>s'. run_goes_on repos s s'"
proof -
  have "(sy_runs s)[k := r] \<noteq> sy_runs s" using assms(2,3) by (metis nth_list_update_eq)
  then show ?thesis using assms(1) by (auto simp: run_goes_on_def)
qed

text \<open>A run that cannot go on waits for a mutex; the mutexes never leave all runs waiting.\<close>

lemma run_moves:
  assumes k: "k < length (sy_runs s)" and busy: "\<not> returned (sy_runs s ! k)"
  shows "(\<exists>s'. run_goes_on repos s s') \<or> (\<exists>i todo. rn_phase (sy_runs s ! k) = Acquiring (i # todo))"
proof (cases "works (rn_phase (sy_runs s ! k)) (rn_held (sy_runs s ! k))")
  case True
  obtain ph q where "work_step repos (sy_runs s ! k) (sy_proc s) = (ph, q)" by fastforce
  moreover from work_step_work [OF this True] have "(sy_runs s ! k)\<lparr>rn_phase := ph\<rparr> \<noteq> sy_runs s ! k" by auto
  ultimately show ?thesis using goes_on_update [OF run_step.run_works [OF k True] k] by blast
next
  case False
  show ?thesis
  proof (cases "rn_phase (sy_runs s ! k)")
    case (Acquiring todo) then show ?thesis using False by (cases todo) auto
  next
    case (Unwinding x)
    then obtain i where "i \<in> set (rn_held (sy_runs s ! k))" using False by (cases "rn_held (sy_runs s ! k)") auto
    moreover from shorter [OF this] have "(sy_runs s ! k)\<lparr>rn_held := remove1 i (rn_held (sy_runs s ! k))\<rparr> \<noteq> sy_runs s ! k"
      by (cases "sy_runs s ! k") auto
    ultimately show ?thesis using goes_on_update [OF run_step.run_unlocks [OF k Unwinding] k] by blast
  qed (use False busy in \<open>simp_all add: returned_def\<close>)
qed

lemma runs_progress:
  assumes inv: "lock_inv (lock_view s)" and k: "k < length (sy_runs s)" and busy: "\<not> returned (sy_runs s ! k)"
  shows "\<exists>s'. run_goes_on repos s s'"
proof (rule ccontr)
  assume stuck: "\<not> ?thesis"
  then have waits: "\<exists>i todo. rn_phase (sy_runs s ! j) = Acquiring (i # todo)"
    if "j < length (sy_runs s)" "\<not> returned (sy_runs s ! j)" for j
    using run_moves [OF that] by blast
  have "th_phase (run_thread (sy_runs s ! k)) \<noteq> Idle" using waits [OF k busy] by (auto simp: run_thread_def)
  then obtain u l where u: "u < length (sy_runs s)" "th_phase (run_thread (sy_runs s ! u)) \<noteq> Idle"
    and step: "lock_step u (lock_view s) l"
    using lock_inv_progress [OF inv, of k] k by auto
  have "\<not> returned (sy_runs s ! u)" using u(2) by (auto simp: returned_iff run_thread_def)
  then obtain i todo where ph: "rn_phase (sy_runs s ! u) = Acquiring (i # todo)" using waits [OF u(1)] by blast
  then have th: "ls_threads (lock_view s) ! u =
      \<lparr>th_phase = Locking, th_todo = i # todo, th_held = rn_held (sy_runs s ! u)\<rparr>"
    using u(1) by (simp add: run_thread_def)
  from step obtain lm where "lock_account u (pr_locks (sy_proc s)) i = Some lm"
    by (cases rule: lock_step.cases) (use th in auto)
  moreover have "(sy_runs s ! u)\<lparr>rn_phase := Acquiring todo, rn_held := rn_held (sy_runs s ! u) @ [i]\<rparr> \<noteq> sy_runs s ! u"
    using ph by (cases "sy_runs s ! u") simp
  ultimately show False using stuck goes_on_update [OF run_step.run_locks [OF u(1) ph] u(1)] by blast
qed

lemma runs_finish:
  "lock_inv (lock_view s) \<Longrightarrow>
   \<exists>s'. (run_goes_on repos)\<^sup>*\<^sup>* s s' \<and> lock_inv (lock_view s') \<and> (\<forall>r \<in> set (sy_runs s'). returned r)"
proof (induction "system_work s" arbitrary: s rule: less_induct)
  case less
  show ?case
  proof (cases "\<forall>r \<in> set (sy_runs s). returned r")
    case True then show ?thesis using less.prems by blast
  next
    case False
    then obtain k where "k < length (sy_runs s)" "\<not> returned (sy_runs s ! k)" by (auto simp: in_set_conv_nth)
    then obtain s1 where s1: "run_goes_on repos s s1" using runs_progress [OF less.prems] by blast
    then have "lock_inv (lock_view s1)" using run_step_locks less.prems by (auto simp: run_goes_on_def)
    from less.hyps [OF goes_on_work [OF s1] this] s1 show ?thesis by (meson converse_rtranclp_into_rtranclp)
  qed
qed

lemma run_steps_locks:
  "(run_step repos)\<^sup>*\<^sup>* s s' \<Longrightarrow> lock_inv (lock_view s) \<Longrightarrow> lock_inv (lock_view s')"
  by (induction rule: rtranclp_induct) (auto intro: run_step_locks)

lemma idle_system_locks: "\<forall>i. holder (pr_locks p) i = None \<Longrightarrow> lock_inv (lock_view (idle_system p))"
  by (simp add: lock_inv_def idle_system_def)

lemma returned_free:
  assumes "lock_inv (lock_view s)" "\<forall>r \<in> set (sy_runs s). returned r"
  shows "holder (pr_locks (sy_proc s)) i = None"
proof -
  have "\<forall>th \<in> set (ls_threads (lock_view s)). th_phase th = Idle"
    using assms(2) by (auto simp: returned_iff run_thread_def)
  from idle_free [OF assms(1) this, of i] show ?thesis by simp
qed

section \<open>The in-memory repositories\<close>

text \<open>Two ordered maps with the same accounts are equal.\<close>

lemma mem_accounts_unique:
  assumes "mem_accounts_ok m" "mem_accounts_ok m'" "mem_accounts_view m = mem_accounts_view m'"
  shows "m = m'"
proof -
  have keys: "sorted (map fst l)" "distinct (map fst l)" if "mem_accounts_ok l" for l
    using that by (auto simp: mem_accounts_ok_def omap_ok_def strict_sorted_iff)
  have "(k, a) \<in> set m \<longleftrightarrow> (k, a) \<in> set m'" for k a
    using mem_view_entries [OF assms(1), of k a] mem_view_entries [OF assms(2), of k a] assms(3) by simp
  then have same: "set m = set m'" by auto
  have "inj_on fst (set m \<union> set m')" using keys [OF assms(1)] same by (simp add: distinct_map)
  then show ?thesis
    using map_sorted_distinct_set_unique [of fst m m'] keys [OF assms(1)] keys [OF assms(2)] same by blast
qed

definition succeeded :: "run \<Rightarrow> bool" where
  "succeeded r \<longleftrightarrow> (case decided r of None \<Rightarrow> False | Some res \<Rightarrow> result_ok res)"

lemma run_serially_total:
  assumes "run_serially mem_repositories rs p = (Inr (map (\<lambda>r. the (decided r)) rs), q)"
    "mem_ok (pr_accounts p)" "\<forall>r \<in> set rs. good_run r \<and> decided r \<noteq> None"
  shows "mem_ok (pr_accounts q) \<and>
    mem_total (pr_accounts q) = mem_total (pr_accounts p) + (\<Sum>r\<leftarrow>filter succeeded rs. net_flow (rn_txn r))"
  using assms
proof (induction rs arbitrary: p)
  case Nil
  then show ?case by (simp add: io_return_def)
next
  case (Cons r rs)
  obtain res p1 where run: "process_impl mem_repositories (rn_env r) (rn_txn r) (rn_id r) p = (Inr res, p1)"
    using mem.process_impl_total by blast
  have res: "decided r = Some res"
    and rest: "run_serially mem_repositories rs p1 = (Inr (map (\<lambda>r. the (decided r)) rs), q)"
    using Cons.prems(1,3) run by (auto simp: io_bind_def io_return_def split: prod.splits sum.splits)
  have good: "pe_marker (rn_env r) = None" "money_ok (amount_of (rn_txn r))"
    using Cons.prems(3) by (simp_all add: good_run_def good_env_def)
  have "mem_ok (pr_accounts p1) \<and>
      mem_total (pr_accounts p1) = mem_total (pr_accounts p) + (if result_ok res then net_flow (rn_txn r) else 0)"
  proof (cases "result_ok res")
    case True
    then obtain rec where "res = result_success rec" using process_impl_result [OF run] by (auto simp: result_for_def)
    then show ?thesis using mem_success_total [of _ _ _ p rec p1] run Cons.prems(2) good(2) True by simp
  next
    case False
    then show ?thesis using mem_failure_total [OF run False Cons.prems(2) good(1)] Cons.prems(2) by simp
  qed
  then show ?case using Cons.IH [OF rest] Cons.prems(3) res by (simp add: succeeded_def)
qed

text \<open>The runs in the order in which they were decided, and in the order in which they started.\<close>

lemma sum_filter_order:
  fixes f :: "'x \<Rightarrow> int"
  assumes "distinct order" "set order \<subseteq> {..<length xs}" "\<And>k. k < length xs \<Longrightarrow> k \<notin> set order \<Longrightarrow> \<not> P (xs ! k)"
  shows "(\<Sum>x\<leftarrow>filter P (map (\<lambda>k. xs ! k) order). f x) = (\<Sum>x\<leftarrow>filter P xs. f x)"
proof -
  let ?g = "\<lambda>k. if P (xs ! k) then f (xs ! k) else 0"
  have sums: "(\<Sum>x\<leftarrow>filter P ys. f x) = (\<Sum>x\<leftarrow>ys. if P x then f x else 0)" for ys
    by (induction ys) simp_all
  have "(\<Sum>x\<leftarrow>filter P (map (\<lambda>k. xs ! k) order). f x) = sum ?g (set order)"
    using assms(1) by (simp add: sums comp_def sum_list_distinct_conv_sum_set)
  also have "\<dots> = sum ?g {..<length xs}"
    by (rule sum.mono_neutral_left) (use assms(2,3) in auto)
  also have "\<dots> = (\<Sum>x\<leftarrow>filter P xs. f x)"
    unfolding sums by (simp add: sum_list_sum_nth atLeast0LessThan)
  finally show ?thesis .
qed

lemma mem_system_start:
  assumes "mem_ok (pr_accounts p)"
  shows "mem_accounts_ok (pr_accounts p)" "view_ok (mem_accounts_view (pr_accounts p))"
  using assms mem_view_ok by (simp_all add: mem_ok_def)

section \<open>Two transfers at once\<close>

text \<open>The calls that were started are the calls that end.\<close>

lemma goes_on_calls:
  assumes "run_goes_on repos s s'"
  shows "list_all2 same_call (sy_runs s) (sy_runs s')"
proof -
  have refl: "list_all2 same_call rs rs" for rs by (simp add: list.rel_refl same_call_def)
  have update: "list_all2 same_call rs (rs[k := r])" if "same_call (rs ! k) r" for rs k r
    using that by (cases "k < length rs") (auto simp: list_all2_conv_all_nth nth_list_update same_call_def)
  have step: "run_step repos s s'" and len: "length (sy_runs s') = length (sy_runs s)"
    using assms by (simp_all add: run_goes_on_def)
  from step show ?thesis
    using len refl by (cases rule: run_step_shape) (auto intro!: update simp: same_call_def)
qed

lemma goes_on_all_calls: "(run_goes_on repos)\<^sup>*\<^sup>* s s' \<Longrightarrow> list_all2 same_call (sy_runs s) (sy_runs s')"
proof (induction rule: rtranclp_induct)
  case base
  then show ?case by (simp add: list.rel_refl same_call_def)
next
  case (step s1 s2)
  have "same_call a c" if "same_call a b" "same_call b c" for a b c using that by (simp add: same_call_def)
  from list_all2_trans [OF this step.IH goes_on_calls [OF step(2)]] show ?case .
qed

lemma sample_locks: "\<forall>i. holder (pr_locks sample_processor) i = None"
  by (simp add: sample_processor_def holder_def)

text \<open>The steps of a system whose counter of ids has not passed 2^63.\<close>

definition run_in_range ::
  "('a, 't, 'u) repositories \<Rightarrow> ('a, 't, 'u) system \<Rightarrow> ('a, 't, 'u) system \<Rightarrow> bool" where
  "run_in_range repos s s' \<longleftrightarrow> run_step repos s s' \<and> pr_next_id (sy_proc s') \<le> 2 ^ 63"

lemma in_range_steps: "(run_in_range repos)\<^sup>*\<^sup>* s s' \<Longrightarrow> (run_step repos)\<^sup>*\<^sup>* s s'"
  by (rule rtranclp_mono [THEN predicate2D, rotated]) (auto simp: run_in_range_def)

lemma goes_on_next_id: "run_goes_on repos s s' \<Longrightarrow> pr_next_id (sy_proc s') = pr_next_id (sy_proc s)"
proof -
  assume on: "run_goes_on repos s s'"
  then have "run_step repos s s'" by (simp add: run_goes_on_def)
  then show ?thesis
  proof (cases rule: run_step_shape)
    case (run_works k ph p)
    then show ?thesis
      by (auto simp: work_step_def Let_def load_accounts_io_def wal_append_io_def save_accounts_io_def wal_commit_io_def
          append_record_io_def make_entry_def append_entry_def split: run_phase.splits sum.splits prod.splits if_splits)
  qed (use on in \<open>simp_all add: run_goes_on_def\<close>)
qed

lemma goes_on_in_range:
  "(run_goes_on repos)\<^sup>*\<^sup>* s s' \<Longrightarrow> pr_next_id (sy_proc s) \<le> 2 ^ 63 \<Longrightarrow>
   (run_in_range repos)\<^sup>*\<^sup>* s s' \<and> pr_next_id (sy_proc s') \<le> 2 ^ 63"
proof (induction rule: rtranclp_induct)
  case (step s1 s2)
  then have "run_in_range repos s1 s2" "pr_next_id (sy_proc s2) \<le> 2 ^ 63"
    using goes_on_next_id [OF step(2)] by (simp_all add: run_in_range_def run_goes_on_def)
  then show ?case using step by auto
qed simp

text \<open>One transfer is submitted, and taken from the queue by a consumer; the other is a call of \<open>process_one\<close>.\<close>

lemma two_transfers:
  obtains s1 where "(run_in_range mem_repositories)\<^sup>*\<^sup>* (idle_system sample_processor) s1"
    "map rn_txn (sy_runs s1) = [sample_transfer, sample_transfer]" "\<forall>r \<in> set (sy_runs s1). good_run r \<and> \<not> returned r"
    "pr_next_id (sy_proc s1) \<le> 2 ^ 63"
proof -
  let ?t = "sample_transfer" and ?q = "new_queue\<lparr>tq_queue := [sample_transfer]\<rparr>" and ?run = "\<lambda>i. new_run sample_transfer i sample_env"
  define p1 where "p1 = sample_processor\<lparr>pr_next_id := 2, pr_reserved := [Id 1], pr_queue := ?q\<rparr>"
  define p2 where "p2 = p1\<lparr>pr_queue := ?q\<lparr>tq_queue := []\<rparr>\<rparr>"
  define p3 where "p3 = p2\<lparr>pr_reserved := []\<rparr>"
  define p4 where "p4 = p3\<lparr>pr_next_id := 3\<rparr>"
  define s0 where "s0 = idle_system sample_processor"
  define s1 where "s1 = s0\<lparr>sy_proc := p1\<rparr>"
  define s2 where "s2 = s1\<lparr>sy_proc := p2, sy_popped := [?t]\<rparr>"
  define s3 where "s3 = s2\<lparr>sy_proc := p3, sy_popped := [], sy_runs := [?run (Id 1)]\<rparr>"
  define s4 where "s4 = s3\<lparr>sy_proc := p4, sy_runs := [?run (Id 1), ?run (Id 2)]\<rparr>"
  note defs = s0_def s1_def s2_def s3_def s4_def idle_system_def p1_def p2_def p3_def p4_def
  have "submit (sy_proc s0) ?t = (result_success (Id 1), p1)"
    by (simp add: defs submit_def fresh_id_def enqueue_def sample_processor_def new_queue_def Let_def)
  from run_intake [OF intake_submits, OF this] have 1: "run_in_range mem_repositories s0 s1"
    by (simp add: run_in_range_def defs)
  have "wait_pop False (pr_queue (sy_proc s1)) = (Returns (Some ?t), pr_queue p2)"
    by (simp add: defs wait_pop_def new_queue_def)
  from run_pops [OF this] have 2: "run_in_range mem_repositories s1 s2" by (simp add: run_in_range_def defs)
  have "take_reserved_id (sy_proc s2) = (Id 1, p3)" by (simp add: defs take_reserved_id_def)
  from run_takes [OF _ this, of ?t] have 3: "run_in_range mem_repositories s2 s3" by (simp add: run_in_range_def defs)
  have "fresh_id (sy_proc s3) = (Id 2, p4)" by (simp add: defs fresh_id_def)
  from run_starts [OF this] have 4: "run_in_range mem_repositories s3 s4" by (simp add: run_in_range_def defs)
  have steps: "(run_in_range mem_repositories)\<^sup>*\<^sup>* s0 s4"
    using 1 2 3 4 by (meson converse_rtranclp_into_rtranclp rtranclp.rtrancl_refl)
  have runs: "sy_runs s4 = [?run (Id 1), ?run (Id 2)]" "pr_next_id (sy_proc s4) \<le> 2 ^ 63" by (simp_all add: defs)
  have "good_run (?run n) \<and> \<not> returned (?run n)" for n
    by (simp add: new_run_def good_run_def good_env_def sample_transfer_ok returned_def)
  then show ?thesis using that [OF steps [unfolded s0_def]] runs by (simp add: new_run_def)
qed

lemma two_transfers_returned:
  obtains s1 s where "(run_in_range mem_repositories)\<^sup>*\<^sup>* (idle_system sample_processor) s1"
    "(run_in_range mem_repositories)\<^sup>*\<^sup>* s1 s" "map rn_txn (sy_runs s) = [sample_transfer, sample_transfer]"
    "\<forall>r \<in> set (sy_runs s). good_run r \<and> returned r"
proof -
  obtain s1 where s1: "(run_in_range mem_repositories)\<^sup>*\<^sup>* (idle_system sample_processor) s1"
    "map rn_txn (sy_runs s1) = [sample_transfer, sample_transfer]" "\<forall>r \<in> set (sy_runs s1). good_run r \<and> \<not> returned r"
    "pr_next_id (sy_proc s1) \<le> 2 ^ 63"
    by (rule two_transfers)
  obtain s where s: "(run_goes_on mem_repositories)\<^sup>*\<^sup>* s1 s" "\<forall>r \<in> set (sy_runs s). returned r"
    using runs_finish [OF run_steps_locks [OF in_range_steps [OF s1(1)] idle_system_locks [OF sample_locks]]] by blast
  have calls: "list_all2 same_call (sy_runs s1) (sy_runs s)" by (rule goes_on_all_calls [OF s(1)])
  have txns: "map rn_txn (sy_runs s) = map rn_txn (sy_runs s1)"
    by (rule nth_equalityI) (use calls in \<open>auto simp: list_all2_conv_all_nth same_call_def\<close>)
  have "good_run r \<and> returned r" if r: "r \<in> set (sy_runs s)" for r
  proof -
    obtain k where k: "k < length (sy_runs s)" "r = sy_runs s ! k"
      using r unfolding in_set_conv_nth by blast
    have "k < length (sy_runs s1)" using list_all2_lengthD [OF calls] k(1) by simp
    then have "good_run (sy_runs s1 ! k)" "same_call (sy_runs s1 ! k) r"
      using s1(3) list_all2_nthD [OF calls] k(2) by simp_all
    then show ?thesis using s(2) r by (simp add: good_run_def same_call_def)
  qed
  then show ?thesis using goes_on_in_range [OF s(1) s1(4)] by (intro that [OF s1(1) _ txns [unfolded s1(2)]] ballI) blast+
qed

text \<open>The order of calls that have all returned.\<close>

lemma returned_order:
  assumes "(run_step mem_repositories)\<^sup>*\<^sup>* (idle_system p) s1" "(run_step mem_repositories)\<^sup>*\<^sup>* s1 s"
    "\<forall>r \<in> set (sy_runs s). good_run r \<and> returned r"
    "mem_ok (pr_accounts p)" "wal_inv (pr_wal p)" "\<forall>i. holder (pr_locks p) i = None"
  obtains before after q where "distinct (before @ after)" "set (before @ after) = {..<length (sy_runs s)}"
    "{k. k < length (sy_runs s1) \<and> returned (sy_runs s1 ! k)} \<subseteq> set before"
    "{length (sy_runs s1)..<length (sy_runs s)} \<subseteq> set after"
    "run_serially mem_repositories (map (\<lambda>k. sy_runs s ! k) (before @ after)) p =
       (Inr (map (\<lambda>k. the (decided (sy_runs s ! k))) (before @ after)), q)"
    "\<forall>k < length (sy_runs s). rn_phase (sy_runs s ! k) = Done (Inr (the (decided (sy_runs s ! k))))"
    "pr_accounts q = pr_accounts (sy_proc s)"
    "serial (mem_accounts_view (pr_accounts p)) (map (\<lambda>k. sy_runs s ! k) (before @ after))
       (mem_accounts_view (pr_accounts (sy_proc s)))"
proof -
  have good: "\<forall>r \<in> set (sy_runs s). good_run r" using assms(3) by blast
  obtain before after q where order: "distinct (before @ after)"
    "set before = {k. k < length (sy_runs s1) \<and> decided (sy_runs s1 ! k) \<noteq> None}"
    "set (before @ after) = {k. k < length (sy_runs s) \<and> decided (sy_runs s ! k) \<noteq> None}"
    and serial: "run_serially mem_repositories (map (\<lambda>k. sy_runs s ! k) (before @ after)) p =
       (Inr (map (\<lambda>k. the (decided (sy_runs s ! k))) (before @ after)), q)"
    and q: "mem_accounts_ok (pr_accounts q)" "mem_accounts_view (pr_accounts q) = mem_accounts_view (pr_accounts (sy_proc s))"
    and inv: "system_inv mem_accounts_ok mem_accounts_view (mem_accounts_view (pr_accounts p)) (before @ after) s"
    by (rule mem.decided_serializes [OF mem_system_start [OF assms(4)] assms(5,6,1,2) good])
  have fin: "decided (sy_runs s ! k) \<noteq> None \<and> rn_phase (sy_runs s ! k) = Done (Inr (the (decided (sy_runs s ! k))))"
    if "k < length (sy_runs s)" for k
  proof -
    have "returned (sy_runs s ! k)" using assms(3) that by simp
    then obtain x where x: "rn_phase (sy_runs s ! k) = Done x" by (auto simp: returned_iff)
    have "run_ok (mem_accounts_view (pr_accounts (sy_proc s))) (wal_ids (pr_wal (sy_proc s))) (sy_runs s ! k)"
      using inv that unfolding system_inv_def by (meson nth_mem)
    with x obtain res where "x = Inr res" by (cases x) (simp_all add: run_ok_def)
    then show ?thesis using x by (simp add: decided_def)
  qed
  have all: "set (before @ after) = {..<length (sy_runs s)}" using order(3) fin by auto
  have early: "{k. k < length (sy_runs s1) \<and> returned (sy_runs s1 ! k)} \<subseteq> set before"
    unfolding order(2) by (auto simp: returned_iff decided_def split: sum.split)
  have late: "{length (sy_runs s1)..<length (sy_runs s)} \<subseteq> set after"
  proof
    fix k assume "k \<in> {length (sy_runs s1)..<length (sy_runs s)}"
    then have "k \<in> set (before @ after)" "k \<notin> set before" unfolding all order(2) by simp_all
    then show "k \<in> set after" unfolding set_append by blast
  qed
  have ends: "\<forall>k < length (sy_runs s). rn_phase (sy_runs s ! k) = Done (Inr (the (decided (sy_runs s ! k))))"
    using fin by blast
  have same: "pr_accounts q = pr_accounts (sy_proc s)"
    using mem_accounts_unique [OF q(1) _ q(2)] inv by (simp add: system_inv_def)
  have "serial (mem_accounts_view (pr_accounts p)) (map (\<lambda>k. sy_runs s ! k) (before @ after))
       (mem_accounts_view (pr_accounts (sy_proc s)))"
    using inv unfolding system_inv_def decided_order_def by blast
  from that [OF order(1) all early late serial ends same this] show ?thesis .
qed

section \<open>Properties\<close>

text \<open>
  C8: concurrent transactions are serializable, in an order that respects time. Take the in-memory
  repositories with accounts in range, a journal in order and all mutexes free, and any number of calls, of
  \<open>process_one\<close> and of consumers that empty the queue while clients submit, each with an amount in range and with
  all its journal writes succeeding (\<open>good_run\<close>). However their steps are interleaved, when all have returned
  there is an order of the calls such that \<open>process_impl\<close>, run on them one after the other in this order, gives
  every call the result it returned and leaves the same accounts. A call that had returned when another
  one started comes before it in the order.
\<close>

theorem concurrent_runs_serialize:
  assumes "(run_step mem_repositories)\<^sup>*\<^sup>* (idle_system p) s1" "(run_step mem_repositories)\<^sup>*\<^sup>* s1 s"
    "\<forall>r \<in> set (sy_runs s). good_run r \<and> returned r"
    "mem_ok (pr_accounts p)" "wal_inv (pr_wal p)" "\<forall>i. holder (pr_locks p) i = None"
  shows "\<exists>before after results q. distinct (before @ after) \<and> set (before @ after) = {..<length (sy_runs s)} \<and>
    {k. k < length (sy_runs s1) \<and> returned (sy_runs s1 ! k)} \<subseteq> set before \<and>
    {length (sy_runs s1)..<length (sy_runs s)} \<subseteq> set after \<and>
    run_serially mem_repositories (map (\<lambda>k. sy_runs s ! k) (before @ after)) p = (Inr results, q) \<and>
    map (\<lambda>k. rn_phase (sy_runs s ! k)) (before @ after) = map (\<lambda>res. Done (Inr res)) results \<and>
    pr_accounts q = pr_accounts (sy_proc s)"
proof -
  obtain before after q where order: "distinct (before @ after)" "set (before @ after) = {..<length (sy_runs s)}"
    "{k. k < length (sy_runs s1) \<and> returned (sy_runs s1 ! k)} \<subseteq> set before"
    "{length (sy_runs s1)..<length (sy_runs s)} \<subseteq> set after"
    "run_serially mem_repositories (map (\<lambda>k. sy_runs s ! k) (before @ after)) p =
       (Inr (map (\<lambda>k. the (decided (sy_runs s ! k))) (before @ after)), q)"
    "\<forall>k < length (sy_runs s). rn_phase (sy_runs s ! k) = Done (Inr (the (decided (sy_runs s ! k))))"
    "pr_accounts q = pr_accounts (sy_proc s)" by (rule returned_order [OF assms])
  have "map (\<lambda>k. rn_phase (sy_runs s ! k)) (before @ after) =
      map (\<lambda>res. Done (Inr res)) (map (\<lambda>k. the (decided (sy_runs s ! k))) (before @ after))"
    unfolding map_map comp_def using order(2,6) by (intro map_cong refl) auto
  then show ?thesis using order by blast
qed

theorem concurrent_runs_serialize_witness:
  "\<exists>s order results q. (run_step mem_repositories)\<^sup>*\<^sup>* (idle_system sample_processor) s \<and>
     map rn_txn (sy_runs s) = [sample_transfer, sample_transfer] \<and> distinct order \<and> set order = {0, 1} \<and>
     run_serially mem_repositories (map (\<lambda>k. sy_runs s ! k) order) sample_processor = (Inr results, q) \<and>
     map (\<lambda>k. rn_phase (sy_runs s ! k)) order = map (\<lambda>res. Done (Inr res)) results \<and>
     pr_accounts q = pr_accounts (sy_proc s)"
proof -
  obtain s1 s where runs: "(run_step mem_repositories)\<^sup>*\<^sup>* (idle_system sample_processor) s1"
    "(run_step mem_repositories)\<^sup>*\<^sup>* s1 s" "map rn_txn (sy_runs s) = [sample_transfer, sample_transfer]"
    "\<forall>r \<in> set (sy_runs s). good_run r \<and> returned r" using two_transfers_returned in_range_steps by metis
  have "length (map rn_txn (sy_runs s)) = 2" unfolding runs(3) by simp
  then have "{..<length (sy_runs s)} = {0, 1}" by auto
  with concurrent_runs_serialize [OF runs(1,2,4) sample_mem_ok sample_wal_inv sample_locks]
  obtain before after results q where "distinct (before @ after)" "set (before @ after) = {0, 1}"
    "run_serially mem_repositories (map (\<lambda>k. sy_runs s ! k) (before @ after)) sample_processor = (Inr results, q)"
    "map (\<lambda>k. rn_phase (sy_runs s ! k)) (before @ after) = map (\<lambda>res. Done (Inr res)) results"
    "pr_accounts q = pr_accounts (sy_proc s)" unfolding \<open>{..<length (sy_runs s)} = {0, 1}\<close> by (elim exE conjE) (rule that)
  then show ?thesis
    by (intro exI [of _ s] exI [of _ "before @ after"] exI [of _ results] exI [of _ q] conjI
        rtranclp_trans [OF runs(1,2)] runs(3))
qed

text \<open>
  C11: money is conserved under concurrency, at every moment. Take the in-memory repositories with accounts
  in range, a journal in order and all mutexes free, and calls with amounts in range whose journal writes all
  succeed (\<open>good_run\<close>). In every state that they can reach, whatever runs are half way through, the sum of all
  balances is the initial one plus the net flow of the transactions whose result is decided as a success, and
  every balance is in range. A call whose marker fails is excluded: it can move money and answer a failure.
\<close>

theorem concurrent_money_conserved:
  assumes "(run_step mem_repositories)\<^sup>*\<^sup>* (idle_system p) s" "\<forall>r \<in> set (sy_runs s). good_run r"
    "mem_ok (pr_accounts p)" "wal_inv (pr_wal p)" "\<forall>i. holder (pr_locks p) i = None"
  shows "mem_ok (pr_accounts (sy_proc s)) \<and>
    mem_total (pr_accounts (sy_proc s)) =
      mem_total (pr_accounts p) + (\<Sum>r\<leftarrow>filter succeeded (sy_runs s). net_flow (rn_txn r))"
proof -
  obtain before after q where order: "distinct (before @ after)"
    "set (before @ after) = {k. k < length (sy_runs s) \<and> decided (sy_runs s ! k) \<noteq> None}"
    and serial: "run_serially mem_repositories (map (\<lambda>k. sy_runs s ! k) (before @ after)) p =
       (Inr (map (\<lambda>k. the (decided (sy_runs s ! k))) (before @ after)), q)"
    and q: "mem_accounts_ok (pr_accounts q)" "mem_accounts_view (pr_accounts q) = mem_accounts_view (pr_accounts (sy_proc s))"
    and inv: "system_inv mem_accounts_ok mem_accounts_view (mem_accounts_view (pr_accounts p)) (before @ after) s"
    by (rule mem.decided_serializes [OF mem_system_start [OF assms(3)] assms(4,5) rtranclp.rtrancl_refl assms(1,2)])
  let ?rs = "map (\<lambda>k. sy_runs s ! k) (before @ after)"
  have "\<forall>r \<in> set ?rs. good_run r \<and> decided r \<noteq> None" using assms(2) order(2) unfolding set_map by auto
  moreover have "run_serially mem_repositories ?rs p = (Inr (map (\<lambda>r. the (decided r)) ?rs), q)"
    using serial by (simp add: comp_def)
  ultimately have "mem_ok (pr_accounts q) \<and>
      mem_total (pr_accounts q) = mem_total (pr_accounts p) + (\<Sum>r\<leftarrow>filter succeeded ?rs. net_flow (rn_txn r))"
    using run_serially_total [OF _ assms(3)] by blast
  moreover have "pr_accounts q = pr_accounts (sy_proc s)"
    using mem_accounts_unique [OF q(1) _ q(2)] inv by (simp add: system_inv_def)
  moreover have "(\<Sum>r\<leftarrow>filter succeeded ?rs. net_flow (rn_txn r)) = (\<Sum>r\<leftarrow>filter succeeded (sy_runs s). net_flow (rn_txn r))"
  proof (rule sum_filter_order [OF order(1)])
    show "set (before @ after) \<subseteq> {..<length (sy_runs s)}" unfolding order(2) by auto
    show "\<not> succeeded (sy_runs s ! k)" if "k < length (sy_runs s)" "k \<notin> set (before @ after)" for k
      using that unfolding order(2) by (simp add: succeeded_def)
  qed
  ultimately show ?thesis by simp
qed

theorem concurrent_money_conserved_witness:
  "\<exists>s. (run_step mem_repositories)\<^sup>*\<^sup>* (idle_system sample_processor) s \<and>
     map rn_txn (sy_runs s) = [sample_transfer, sample_transfer] \<and> (\<forall>r \<in> set (sy_runs s). returned r) \<and>
     mem_total (pr_accounts (sy_proc s)) = 51000"
proof -
  obtain s1 s where runs: "(run_step mem_repositories)\<^sup>*\<^sup>* (idle_system sample_processor) s1"
    "(run_step mem_repositories)\<^sup>*\<^sup>* s1 s" "map rn_txn (sy_runs s) = [sample_transfer, sample_transfer]"
    "\<forall>r \<in> set (sy_runs s). good_run r \<and> returned r" using two_transfers_returned in_range_steps by metis
  have "net_flow (rn_txn r) = 0" if "r \<in> set (sy_runs s)" for r
  proof -
    have "rn_txn r \<in> set (map rn_txn (sy_runs s))" using that by simp
    then show ?thesis unfolding runs(3) by (simp add: sample_transfer_def)
  qed
  then have "map (\<lambda>r. net_flow (rn_txn r)) (filter succeeded (sy_runs s)) = map (\<lambda>r. 0) (filter succeeded (sy_runs s))"
    by (intro map_cong refl) simp
  then have "(\<Sum>r\<leftarrow>filter succeeded (sy_runs s). net_flow (rn_txn r)) = 0" by (simp only: sum_list_0)
  moreover have "mem_total (pr_accounts sample_processor) = 51000"
    by (simp add: sample_processor_def mem_total_def total_funds_def sample_accounts_def sample_account_def amount_def)
  ultimately show ?thesis
    using concurrent_money_conserved [OF rtranclp_trans [OF runs(1,2)] _ sample_mem_ok sample_wal_inv sample_locks] runs
      rtranclp_trans [OF runs(1,2)] by auto
qed

text \<open>
  C14: every call returns. Whatever the repositories and the journal do, from every state that interleaved
  calls can reach, the calls in progress can all run to their end, after which every account mutex is free;
  and they can only take finitely many steps, so no schedule keeps them from it.
\<close>

theorem concurrent_runs_finish:
  assumes "(run_step repos)\<^sup>*\<^sup>* (idle_system p) s" "\<forall>i. holder (pr_locks p) i = None"
  shows "(\<exists>s'. (run_goes_on repos)\<^sup>*\<^sup>* s s' \<and> (\<forall>r \<in> set (sy_runs s'). returned r) \<and>
      (\<forall>i. holder (pr_locks (sy_proc s')) i = None)) \<and>
    wfP (\<lambda>s' s. run_goes_on repos s s')"
proof (rule conjI)
  have "lock_inv (lock_view s)" by (rule run_steps_locks [OF assms(1) idle_system_locks [OF assms(2)]])
  then show "\<exists>s'. (run_goes_on repos)\<^sup>*\<^sup>* s s' \<and> (\<forall>r \<in> set (sy_runs s'). returned r) \<and>
      (\<forall>i. holder (pr_locks (sy_proc s')) i = None)"
    using runs_finish returned_free by blast
  show "wfP (\<lambda>s' s. run_goes_on repos s s')"
    by (rule wfp_if_convertible_to_nat [of _ system_work]) (rule goes_on_work)
qed

theorem concurrent_runs_finish_witness:
  "\<exists>s s'. map rn_txn (sy_runs s) = [sample_transfer, sample_transfer] \<and> (\<forall>r \<in> set (sy_runs s). \<not> returned r) \<and>
     (run_goes_on mem_repositories)\<^sup>*\<^sup>* s s' \<and> (\<forall>r \<in> set (sy_runs s'). returned r)"
proof -
  obtain s1 where s1: "(run_step mem_repositories)\<^sup>*\<^sup>* (idle_system sample_processor) s1"
    "map rn_txn (sy_runs s1) = [sample_transfer, sample_transfer]" "\<forall>r \<in> set (sy_runs s1). good_run r \<and> \<not> returned r"
    using two_transfers in_range_steps by metis
  obtain s' where "(run_goes_on mem_repositories)\<^sup>*\<^sup>* s1 s'" "\<forall>r \<in> set (sy_runs s'). returned r"
    using concurrent_runs_finish [OF s1(1) sample_locks] by blast
  moreover have "\<forall>r \<in> set (sy_runs s1). \<not> returned r" using s1(3) by simp
  ultimately show ?thesis using s1(2) by (intro exI [of _ s1] exI [of _ s'] conjI)
qed

end
