(* ===== verification/Bank_Interleaving_Alone.thy ===== *)
theory Bank_Interleaving_Alone
  imports Bank_Interleaving_Props
begin

text \<open>
  A call that runs alone takes the steps of \<open>run_step\<close> to the result and the state of \<open>process_impl\<close>,
  whatever the repositories, the journal and the clock do: the steps are those of the function.
\<close>

section \<open>Computations that do not look at the mutexes\<close>

definition ignores_locks :: "(('a, 't, 'u) processor, 'x) io \<Rightarrow> bool" where
  "ignores_locks m \<longleftrightarrow> (\<forall>p l. m (p\<lparr>pr_locks := l\<rparr>) = (fst (m p), (snd (m p))\<lparr>pr_locks := l\<rparr>))"

lemma ignores_locksD: "ignores_locks m \<Longrightarrow> m p = (x, q) \<Longrightarrow> m (p\<lparr>pr_locks := l\<rparr>) = (x, q\<lparr>pr_locks := l\<rparr>)"
  by (simp add: ignores_locks_def)

lemma ignores_locks_bind:
  assumes "ignores_locks m" "\<And>x. ignores_locks (f x)"
  shows "ignores_locks (io_bind m f)"
  unfolding ignores_locks_def
proof (intro allI)
  fix p :: "('a, 'b, 'c) processor" and l
  obtain x q where run: "m p = (x, q)" by fastforce
  show "io_bind m f (p\<lparr>pr_locks := l\<rparr>) = (fst (io_bind m f p), (snd (io_bind m f p))\<lparr>pr_locks := l\<rparr>)"
    using run ignores_locksD [OF assms(1) run, of l] assms(2) [unfolded ignores_locks_def]
    by (cases x) (simp_all add: io_bind_def)
qed

lemma ignores_locks_catch:
  assumes "ignores_locks m" "\<And>e. ignores_locks (h e)"
  shows "ignores_locks (io_catch m h)"
  unfolding ignores_locks_def
proof (intro allI)
  fix p :: "('a, 'b, 'c) processor" and l
  obtain x q where run: "m p = (x, q)" by fastforce
  show "io_catch m h (p\<lparr>pr_locks := l\<rparr>) = (fst (io_catch m h p), (snd (io_catch m h p))\<lparr>pr_locks := l\<rparr>)"
    using run ignores_locksD [OF assms(1) run, of l] assms(2) [unfolded ignores_locks_def]
    by (cases x) (simp_all add: io_catch_def)
qed

lemma ignores_locks_parts:
  "ignores_locks (append_audit repos now actor action details)"
  "ignores_locks (append_entry repos e)"
  "ignores_locks (load_accounts_io repos ids)"
  "ignores_locks (save_accounts_io repos as)"
  "ignores_locks (wal_append_io io r)"
  "ignores_locks (wal_commit_io m i)"
  "ignores_locks (append_record_io repos r)"
  "ignores_locks (\<lambda>s. (x, s))"
  "ignores_locks (io_return y)"
  by (simp_all add: ignores_locks_def append_audit_def append_entry_def load_accounts_io_def save_accounts_io_def
      wal_append_io_def wal_commit_io_def append_record_io_def io_return_def Let_def split: prod.splits)

lemmas ignores_locks_rules = ignores_locks_bind ignores_locks_catch ignores_locks_parts

section \<open>What is left of a call\<close>

definition handler_io ::
  "('a, 't, 'u) repositories \<Rightarrow> process_env \<Rightarrow> exn \<Rightarrow> (('a, 't, 'u) processor, transaction_record result) io" where
  "handler_io repos env e = refuse_txn repos (pe_handler_time env) (handler_message e)"

definition complete_io ::
  "('a, 't, 'u) repositories \<Rightarrow> process_env \<Rightarrow> transaction \<Rightarrow> transaction_id \<Rightarrow> (('a, 't, 'u) processor, transaction_record result) io" where
  "complete_io repos env t i =
     io_bind (append_audit repos (pe_audit_time env) system_actor ''txn.completed'' (describe t))
       (\<lambda>_. io_return (result_success (committed_record env i t)))"

definition record_io ::
  "('a, 't, 'u) repositories \<Rightarrow> process_env \<Rightarrow> transaction \<Rightarrow> transaction_id \<Rightarrow> (('a, 't, 'u) processor, transaction_record result) io" where
  "record_io repos env t i =
     io_bind (append_record_io repos (committed_record env i t)) (\<lambda>_. complete_io repos env t i)"

definition mark_io ::
  "('a, 't, 'u) repositories \<Rightarrow> process_env \<Rightarrow> transaction \<Rightarrow> transaction_id \<Rightarrow> (('a, 't, 'u) processor, transaction_record result) io" where
  "mark_io repos env t i = io_bind (wal_commit_io (pe_marker env) i) (\<lambda>_. record_io repos env t i)"

definition save_io ::
  "('a, 't, 'u) repositories \<Rightarrow> process_env \<Rightarrow> transaction \<Rightarrow> transaction_id \<Rightarrow> account list \<Rightarrow> (('a, 't, 'u) processor, transaction_record result) io" where
  "save_io repos env t i loaded =
     io_bind (\<lambda>s. (fst (txn_apply t loaded), s)) (\<lambda>_.
     io_bind (save_accounts_io repos (snd (txn_apply t loaded))) (\<lambda>_. mark_io repos env t i))"

definition load_io ::
  "('a, 't, 'u) repositories \<Rightarrow> process_env \<Rightarrow> transaction \<Rightarrow> transaction_id \<Rightarrow> (('a, 't, 'u) processor, transaction_record result) io" where
  "load_io repos env t i =
     io_bind (load_accounts_io repos (lock_plan t)) (\<lambda>loaded.
       case loaded of
         Inl missing \<Rightarrow>
           refuse_txn repos (pe_audit_time env) (''account not found: '' @ to_string_u64 (id_value missing))
       | Inr accounts \<Rightarrow>
           if \<not> validate t accounts
           then refuse_txn repos (pe_audit_time env) (''validation failed: '' @ describe t)
           else execute_txn repos env t i accounts)"

definition rest_of ::
  "('a, 't, 'u) repositories \<Rightarrow> run \<Rightarrow> (('a, 't, 'u) processor, transaction_record result) io" where
  "rest_of repos r =
     (let handler = handler_io repos (rn_env r)
      in case rn_phase r of
        Acquiring _ \<Rightarrow> io_catch (load_io repos (rn_env r) (rn_txn r) (rn_id r)) handler
      | Journaling loaded \<Rightarrow> io_catch (execute_txn repos (rn_env r) (rn_txn r) (rn_id r) loaded) handler
      | Saving loaded \<Rightarrow> io_catch (save_io repos (rn_env r) (rn_txn r) (rn_id r) loaded) handler
      | Marking \<Rightarrow> io_catch (mark_io repos (rn_env r) (rn_txn r) (rn_id r)) handler
      | Recording \<Rightarrow> io_catch (record_io repos (rn_env r) (rn_txn r) (rn_id r)) handler
      | Completing \<Rightarrow> io_catch (complete_io repos (rn_env r) (rn_txn r) (rn_id r)) handler
      | Refusing msg \<Rightarrow> io_catch (refuse_txn repos (pe_audit_time (rn_env r)) msg) handler
      | Noting e res \<Rightarrow> io_catch (io_bind (append_entry repos e) (\<lambda>_. io_return res)) handler
      | Unwinding (Inr res) \<Rightarrow> io_return res
      | Unwinding (Inl ex) \<Rightarrow> handler ex
      | Handling e msg \<Rightarrow> io_bind (append_entry repos e) (\<lambda>_. io_return (result_failure msg))
      | Done x \<Rightarrow> (\<lambda>p. (x, p)))"

lemma execute_txn_save: "execute_txn repos env t i loaded =
    io_bind (wal_append_io (pe_append env) ((project_transaction (pe_record_time env) i t)\<lparr>rec_state := Validated\<rparr>))
      (\<lambda>_. save_io repos env t i loaded)"
  by (simp add: execute_txn_def save_io_def mark_io_def record_io_def complete_io_def committed_record_def Let_def)

lemma rest_ignores_locks: "ignores_locks (rest_of repos r)"
proof -
  have refuse: "ignores_locks (refuse_txn repos now msg)" for now msg
    unfolding refuse_txn_def by (intro ignores_locks_rules)
  have tail: "ignores_locks (mark_io repos env t i)" "ignores_locks (record_io repos env t i)"
    "ignores_locks (complete_io repos env t i)" for env t i
    unfolding mark_io_def record_io_def complete_io_def by (intro ignores_locks_rules)+
  have save: "ignores_locks (save_io repos env t i loaded)" for env t i loaded
    unfolding save_io_def by (intro ignores_locks_rules tail)
  have execute: "ignores_locks (execute_txn repos env t i loaded)" for env t i loaded
    unfolding execute_txn_save by (intro ignores_locks_rules save)
  have load: "ignores_locks (load_io repos env t i)" for env t i
    unfolding load_io_def by (intro ignores_locks_rules) (auto split: sum.splits intro: refuse execute)
  show ?thesis
    unfolding rest_of_def Let_def handler_io_def
    by (auto split: run_phase.splits sum.splits intro!: ignores_locks_rules refuse save execute tail load)
qed

text \<open>Work done is taken off what is left.\<close>

lemma append_audit_entry:
  "append_audit repos now system_actor action details p =
     (case make_entry now action details p of (e, p) \<Rightarrow> append_entry repos e p)"
  by (simp add: append_audit_def make_entry_def append_entry_def Let_def)

lemma rest_of_work:
  assumes "work_step repos r p = (ph, q)"
  shows "rest_of repos (r\<lparr>rn_phase := ph\<rparr>) q = rest_of repos r p"
proof (cases "rn_phase r")
  case (Acquiring todo)
  then show ?thesis using assms
    by (auto simp: work_step_def rest_of_def load_io_def io_bind_def io_catch_def
        split: prod.splits sum.splits if_splits)
next
  case (Journaling loaded)
  then show ?thesis using assms
    by (auto simp: work_step_def rest_of_def execute_txn_save io_bind_def io_catch_def continue_with_def
        split: prod.splits sum.splits)
next
  case (Saving loaded)
  then show ?thesis using assms
    by (auto simp: work_step_def rest_of_def save_io_def io_bind_def io_catch_def continue_with_def
        split: prod.splits sum.splits)
next
  case Marking
  then show ?thesis using assms
    by (auto simp: work_step_def rest_of_def mark_io_def io_bind_def io_catch_def continue_with_def
        split: prod.splits sum.splits)
next
  case Recording
  then show ?thesis using assms
    by (auto simp: work_step_def rest_of_def record_io_def committed_record_def io_bind_def io_catch_def
        continue_with_def Let_def split: prod.splits sum.splits)
next
  case Completing
  then show ?thesis using assms
    by (auto simp: work_step_def rest_of_def complete_io_def committed_record_def io_bind_def io_catch_def
        append_audit_entry Let_def split: prod.splits sum.splits)
next
  case (Refusing msg)
  then show ?thesis using assms
    by (auto simp: work_step_def rest_of_def refuse_txn_def io_bind_def io_catch_def append_audit_entry
        split: prod.splits sum.splits)
next
  case (Noting e res)
  then show ?thesis using assms
    by (auto simp: work_step_def rest_of_def io_bind_def io_catch_def continue_with_def split: prod.splits sum.splits)
next
  case (Unwinding x)
  then show ?thesis using assms
    by (cases x) (auto simp: work_step_def rest_of_def handler_io_def refuse_txn_def io_bind_def append_audit_entry
        split: prod.splits sum.splits)
next
  case (Handling e msg)
  then show ?thesis using assms
    by (auto simp: work_step_def rest_of_def io_bind_def split: prod.splits sum.splits)
next
  case (Done x)
  then have "ph = Done x" "q = p" using assms by (simp_all add: work_step_def)
  then show ?thesis using Done by (simp add: rest_of_def)
qed

section \<open>One call alone\<close>

text \<open>The result that is left for the only run, and the state after it but for the mutexes.\<close>

definition lone_end ::
  "('a, 't, 'u) repositories \<Rightarrow> ('a, 't, 'u) system \<Rightarrow> (exn + transaction_record result) \<times> ('a, 't, 'u) processor" where
  "lone_end repos s =
     (case rest_of repos (hd (sy_runs s)) (sy_proc s) of (x, q) \<Rightarrow> (x, q\<lparr>pr_locks := []\<rparr>))"

lemma rest_of_locks:
  "rest_of repos r (p\<lparr>pr_locks := l\<rparr>) = (x, q\<lparr>pr_locks := l\<rparr>)" if "rest_of repos r p = (x, q)"
  using ignores_locksD [OF rest_ignores_locks that] .

lemma lone_end_locks:
  assumes "sy_runs s = [r]" "rest_of repos r' = rest_of repos r"
  shows "lone_end repos (s\<lparr>sy_proc := (sy_proc s)\<lparr>pr_locks := l\<rparr>, sy_runs := [r']\<rparr>) = lone_end repos s"
proof -
  obtain x q where "rest_of repos r (sy_proc s) = (x, q)" by fastforce
  with rest_of_locks [OF this, of l] show ?thesis by (simp add: lone_end_def assms)
qed

lemma rest_of_held: "rest_of repos (r\<lparr>rn_held := h\<rparr>) = rest_of repos r"
  by (cases "rn_phase r") (auto simp: rest_of_def split: sum.split)

lemma rest_of_acquiring:
  "rn_phase r = Acquiring todo \<Longrightarrow> rest_of repos (r\<lparr>rn_phase := Acquiring todo', rn_held := h\<rparr>) = rest_of repos r"
  by (simp add: rest_of_def)

lemma lone_step:
  assumes "run_goes_on repos s s'" "sy_runs s = [r]"
  shows "lone_end repos s' = lone_end repos s \<and> (\<exists>r'. sy_runs s' = [r'])"
proof -
  have step: "run_step repos s s'" and len: "length (sy_runs s') = 1" "sy_runs s' \<noteq> sy_runs s"
    using assms by (simp_all add: run_goes_on_def)
  from step show ?thesis
  proof (cases rule: run_step_shape)
    case run_quiet then show ?thesis using len by simp
  next
    case (run_begins t i env) then show ?thesis using len assms(2) by simp
  next
    case (run_locks k i todo lm)
    then have "k = 0" "rn_phase r = Acquiring (i # todo)" using assms(2) by auto
    then show ?thesis using lone_end_locks [OF assms(2) rest_of_acquiring] assms(2)
      by (simp add: run_locks(1))
  next
    case (run_unlocks k x i)
    then have "k = 0" using assms(2) by simp
    then show ?thesis using lone_end_locks [OF assms(2) rest_of_held] assms(2)
      by (simp add: run_unlocks(1))
  next
    case (run_works k ph p)
    then have "k = 0" "work_step repos r (sy_proc s) = (ph, p)" using assms(2) by auto
    then show ?thesis using rest_of_work [of repos r "sy_proc s" ph p] assms(2)
      by (simp add: run_works(1) lone_end_def)
  qed
qed

lemma lone_run:
  "(run_goes_on repos)\<^sup>*\<^sup>* s s' \<Longrightarrow> sy_runs s = [r] \<Longrightarrow> lone_end repos s' = lone_end repos s \<and> (\<exists>r'. sy_runs s' = [r'])"
  by (induction rule: rtranclp_induct) (auto dest: lone_step)

lemma lone_start:
  assumes "process_impl repos env t i p = (x, q)"
  shows "lone_end repos \<lparr>sy_proc = p, sy_popped = [], sy_runs = [new_run t i env]\<rparr> = (x, q\<lparr>pr_locks := []\<rparr>)"
proof -
  let ?r = "new_run t i env" and ?l = "foldl mutex_for (pr_locks p) (lock_plan t)"
  obtain y p' where rest: "rest_of repos ?r p = (y, p')" by fastforce
  have "locked_txn repos env t i p = load_io repos env t i (p\<lparr>pr_locks := ?l\<rparr>)"
    unfolding locked_txn_def load_io_def [symmetric] by (simp add: io_bind_def [of "create_mutexes _"] create_mutexes_def)
  moreover have "(\<lambda>e. refuse_txn repos (pe_handler_time env) (if exn_what e = [] then ''unknown error'' else exn_what e)) =
      handler_io repos env"
    by (simp add: fun_eq_iff handler_io_def handler_message_def)
  ultimately have "process_impl repos env t i p = rest_of repos ?r (p\<lparr>pr_locks := ?l\<rparr>)"
    by (simp add: process_impl_def rest_of_def new_run_def io_catch_def)
  then show ?thesis using rest_of_locks [OF rest, of ?l] rest assms by (simp add: lone_end_def)
qed

section \<open>Property\<close>

text \<open>
  C15: the steps are those of the function. A call of \<open>process_impl\<close> that runs alone, on any repositories and
  with any behaviour of the clock and the journal, returns; and however its guards are destroyed, it returns
  the result, or throws the exception, that \<open>process_impl\<close> gives, and leaves the state that it leaves, except
  that its mutexes are listed as free.
\<close>

theorem lone_run_is_process_impl:
  assumes "process_impl repos env t i p = (x, q)" "\<forall>j. holder (pr_locks p) j = None"
  shows "(\<exists>s. (run_goes_on repos)\<^sup>*\<^sup>* \<lparr>sy_proc = p, sy_popped = [], sy_runs = [new_run t i env]\<rparr> s \<and>
      (\<forall>r \<in> set (sy_runs s). returned r)) \<and>
    (\<forall>s. (run_goes_on repos)\<^sup>*\<^sup>* \<lparr>sy_proc = p, sy_popped = [], sy_runs = [new_run t i env]\<rparr> s \<longrightarrow>
      (\<forall>r \<in> set (sy_runs s). returned r) \<longrightarrow>
      map rn_phase (sy_runs s) = [Done x] \<and> (sy_proc s)\<lparr>pr_locks := pr_locks q\<rparr> = q)"
proof (intro conjI allI impI)
  let ?s0 = "\<lparr>sy_proc = p, sy_popped = [], sy_runs = [new_run t i env]\<rparr>"
  have "lock_inv (lock_view ?s0)"
    using assms(2) lock_plan_sorted [of t]
    by (simp add: lock_inv_def new_run_def run_thread_def thread_ok_def nth_Cons')
  from runs_finish [OF this] show "\<exists>s. (run_goes_on repos)\<^sup>*\<^sup>* ?s0 s \<and> (\<forall>r \<in> set (sy_runs s). returned r)" by blast
  fix s assume run: "(run_goes_on repos)\<^sup>*\<^sup>* ?s0 s" and ret: "\<forall>r \<in> set (sy_runs s). returned r"
  obtain r where r: "sy_runs s = [r]" and same: "lone_end repos s = (x, q\<lparr>pr_locks := []\<rparr>)"
    using lone_run [OF run] lone_start [OF assms(1)] by auto
  obtain y where y: "rn_phase r = Done y" using ret r by (auto simp: returned_iff)
  then have "lone_end repos s = (y, (sy_proc s)\<lparr>pr_locks := []\<rparr>)" using r by (simp add: lone_end_def rest_of_def)
  then have yx: "y = x" and "(sy_proc s)\<lparr>pr_locks := []\<rparr> = q\<lparr>pr_locks := []\<rparr>" using same by simp_all
  then have "((sy_proc s)\<lparr>pr_locks := []\<rparr>)\<lparr>pr_locks := pr_locks q\<rparr> = (q\<lparr>pr_locks := []\<rparr>)\<lparr>pr_locks := pr_locks q\<rparr>"
    by (simp only:)
  then show "map rn_phase (sy_runs s) = [Done x]" "(sy_proc s)\<lparr>pr_locks := pr_locks q\<rparr> = q"
    using r y yx by simp_all
qed

theorem lone_run_is_process_impl_witness:
  "\<exists>s. (run_goes_on mem_repositories)\<^sup>*\<^sup>* \<lparr>sy_proc = sample_processor, sy_popped = [], sy_runs = [new_run sample_transfer (Id 1) sample_env]\<rparr> s \<and>
     map rn_phase (sy_runs s) = [Done (Inr (result_success (committed_record sample_env (Id 1) sample_transfer)))] \<and>
     pr_accounts (sy_proc s) = pr_accounts sample_after"
proof -
  note lone = lone_run_is_process_impl [OF sample_run sample_locks]
  obtain s where s: "(run_goes_on mem_repositories)\<^sup>*\<^sup>*
      \<lparr>sy_proc = sample_processor, sy_popped = [], sy_runs = [new_run sample_transfer (Id 1) sample_env]\<rparr> s"
    "\<forall>r \<in> set (sy_runs s). returned r" using lone by blast
  have ends: "map rn_phase (sy_runs s) = [Done (Inr (result_success (committed_record sample_env (Id 1) sample_transfer)))]"
    "(sy_proc s)\<lparr>pr_locks := pr_locks sample_after\<rparr> = sample_after" using lone s by blast+
  have "pr_accounts ((sy_proc s)\<lparr>pr_locks := pr_locks sample_after\<rparr>) = pr_accounts sample_after"
    unfolding ends(2) by (rule refl)
  then have "pr_accounts (sy_proc s) = pr_accounts sample_after" by simp
  then show ?thesis by (intro exI [of _ s] conjI s(1) ends(1))
qed

end
