(* ===== verification/Bank_Interleaving_Journal.thy ===== *)
theory Bank_Interleaving_Journal
  imports Bank_Interleaving_Props
begin

text \<open>
  What interleaved calls leave in the journal and in the transactions: the committed records of the calls
  that succeeded, each once, and nothing else; so journal, transactions and balances agree.
\<close>

section \<open>One entry of the journal\<close>

definition committed_records :: "wal \<Rightarrow> transaction_record multiset" where
  "committed_records w = mset (filter (\<lambda>r. rec_state r = Committed) (load_all w))"

definition entries_of :: "wal \<Rightarrow> transaction_id \<Rightarrow> wal_entry list" where
  "entries_of w i = filter (\<lambda>e. we_id e = i) (wal_entries w)"

lemma entries_of_None: "entries_of w i = [] \<longleftrightarrow> i \<notin> wal_ids w"
  by (auto simp: entries_of_def wal_ids_def filter_empty_conv)

lemma append_entries:
  assumes "wal_inv w" "wal_append io w r = (Inr (), w')" "rec_state r \<noteq> Committed"
  shows "committed_records w' = committed_records w"
    "entries_of w' j = entries_of w j @ (if rec_id r = j then [new_entry (wal_next_offset w) r] else [])"
proof -
  have entries: "wal_entries w' = wal_entries w @ [new_entry (wal_next_offset w) r]" by (rule wal_append_inv [OF assms(1,2)])
  show "entries_of w' j = entries_of w j @ (if rec_id r = j then [new_entry (wal_next_offset w) r] else [])"
    by (simp add: entries_of_def entries new_entry_def)
  have "rec_state x \<noteq> Committed" if "entry_record (new_entry (wal_next_offset w) r) = Some x" for x
    using that assms(3) by (auto simp: entry_record_def new_entry_def split: option.splits)
  then show "committed_records w' = committed_records w"
    by (auto simp: committed_records_def load_all_def entries map_filter_single split: option.splits)
qed

lemma mark_entries:
  assumes inv: "wal_inv w" and entry: "entries_of w i = [new_entry n r]" and r: "rec_state r \<noteq> Committed" "record_storable r"
  obtains w' where "mark_committed None w i = (Inr (), w')" "wal_inv w'"
    "committed_records w' = add_mset ((stored_form r)\<lparr>rec_state := Committed\<rparr>) (committed_records w)"
    "\<And>j. j \<noteq> i \<Longrightarrow> entries_of w' j = entries_of w j"
proof -
  let ?e = "new_entry n r"
  obtain us vs where split: "wal_entries w = us @ ?e # vs" and us: "\<forall>e \<in> set us. we_id e \<noteq> i" and id: "we_id ?e = i"
    using entry by (auto simp: entries_of_def filter_eq_Cons_iff)
  have "find_entry us i = None" using us by (auto simp: find_entry_None)
  then have found: "find_entry (wal_entries w) i = Some (length us)" by (simp add: split find_entry_append id)
  obtain w' where w': "mark_committed None w i = (Inr (), w')" "wal_inv w'"
    "wal_entries w' = (wal_entries w)[length us := (wal_entries w ! length us)\<lparr>we_state := Committed\<rparr>]"
    using mark_committed_inv [OF inv found] by blast
  then have entries: "wal_entries w' = us @ ?e\<lparr>we_state := Committed\<rparr> # vs" by (simp add: split)
  have "entry_record (?e\<lparr>we_state := Committed\<rparr>) = Some ((stored_form r)\<lparr>rec_state := Committed\<rparr>)"
    by (rule entry_record_committed [OF r(2)])
  moreover have "entry_record ?e = Some (stored_form r)" by (rule entry_record_new [OF r(2)])
  moreover have "rec_state (stored_form r) \<noteq> Committed" using r(1) by (simp add: stored_form_def)
  ultimately have "committed_records w' = add_mset ((stored_form r)\<lparr>rec_state := Committed\<rparr>) (committed_records w)"
    by (simp add: committed_records_def load_all_def entries split List.map_filter_def)
  moreover have "entries_of w' j = entries_of w j" if "j \<noteq> i" for j
    using that id by (auto simp: entries_of_def entries split)
  ultimately show ?thesis using that w'(1,2) by blast
qed

section \<open>The calls and their records\<close>

definition run_record :: "run \<Rightarrow> transaction_record" where
  "run_record r = committed_record (rn_env r) (rn_id r) (rn_txn r)"

definition marked :: "run \<Rightarrow> bool" where
  "marked r \<longleftrightarrow> succeeded r \<and> rn_phase r \<noteq> Marking"

definition recorded :: "run \<Rightarrow> bool" where
  "recorded r \<longleftrightarrow> succeeded r \<and> rn_phase r \<noteq> Marking \<and> rn_phase r \<noteq> Recording"

text \<open>The entry of a run: none before its intent is written, one that is not committed before its marker is.\<close>

definition journal_ok :: "wal \<Rightarrow> run \<Rightarrow> bool" where
  "journal_ok w r \<longleftrightarrow>
     (case rn_phase r of
        Acquiring _ \<Rightarrow> entries_of w (rn_id r) = []
      | Journaling _ \<Rightarrow> entries_of w (rn_id r) = []
      | Saving _ \<Rightarrow> \<exists>n. entries_of w (rn_id r) = [new_entry n ((run_record r)\<lparr>rec_state := Validated\<rparr>)]
      | Marking \<Rightarrow> \<exists>n. entries_of w (rn_id r) = [new_entry n ((run_record r)\<lparr>rec_state := Validated\<rparr>)]
      | _ \<Rightarrow> True)"

lemma journal_ok_cong: "entries_of w' (rn_id r) = entries_of w (rn_id r) \<Longrightarrow> journal_ok w' r = journal_ok w r"
  unfolding journal_ok_def by (simp only:)

lemma run_record_phase [simp]: "run_record (r\<lparr>rn_phase := ph\<rparr>) = run_record r" "run_record (r\<lparr>rn_held := h\<rparr>) = run_record r"
  by (simp_all add: run_record_def)

text \<open>Counting the runs that have a property, when one of them changes.\<close>

lemma mset_filter_update:
  assumes "k < length rs"
  shows "mset (map f (filter P (rs[k := r]))) + (if P (rs ! k) then {#f (rs ! k)#} else {#}) =
    mset (map f (filter P rs)) + (if P r then {#f r#} else {#})"
proof -
  obtain M where M: "mset rs = add_mset (rs ! k) M" using assms by (metis in_multiset_in_set multi_member_split nth_mem)
  then have "mset (rs[k := r]) = add_mset r M" using assms by (simp add: mset_update)
  with M show ?thesis by (simp only: mset_map mset_filter) simp
qed

section \<open>One step of one run\<close>

text \<open>A step of a run adds its record to a multiset exactly when the run gets the property.\<close>

definition adds :: "'x multiset \<Rightarrow> 'x multiset \<Rightarrow> (run \<Rightarrow> 'x) \<Rightarrow> (run \<Rightarrow> bool) \<Rightarrow> run \<Rightarrow> run \<Rightarrow> bool" where
  "adds M M' f P r r' \<longleftrightarrow> M' + (if P r then {#f r#} else {#}) = M + (if P r' then {#f r'#} else {#})"

lemma adds_update:
  assumes "adds M M' f P (rs ! k) r" "k < length rs" "M = M0 + mset (map f (filter P rs))"
  shows "M' = M0 + mset (map f (filter P (rs[k := r])))"
proof -
  have "M' + (if P (rs ! k) then {#f (rs ! k)#} else {#}) =
      M0 + mset (map f (filter P (rs[k := r]))) + (if P (rs ! k) then {#f (rs ! k)#} else {#})"
    using assms(1) mset_filter_update [OF assms(2), of f P r] unfolding adds_def assms(3) by (simp add: ac_simps)
  then show ?thesis by (rule add_right_imp_eq)
qed

definition books_ok :: "run \<Rightarrow> ('a, memory_transactions, 'u) processor \<Rightarrow> run \<Rightarrow> ('a, memory_transactions, 'u) processor \<Rightarrow> bool" where
  "books_ok r p r' q \<longleftrightarrow>
     journal_ok (pr_wal q) r' \<and>
     (\<forall>j. j \<noteq> rn_id r \<longrightarrow> entries_of (pr_wal q) j = entries_of (pr_wal p) j) \<and>
     adds (committed_records (pr_wal p)) (committed_records (pr_wal q)) (\<lambda>r. stored_form (run_record r)) marked r r' \<and>
     adds (mset (pr_transactions p)) (mset (pr_transactions q)) run_record recorded r r'"

lemmas books_defs = books_ok_def journal_ok_def adds_def marked_def recorded_def succeeded_def decided_def

lemma books_ok_quiet:
  assumes "pr_wal q = pr_wal p" "pr_transactions q = pr_transactions p"
    "journal_ok (pr_wal p) r'" "marked r' = marked r" "recorded r' = recorded r" "run_record r' = run_record r"
  shows "books_ok r p r' q"
  using assms by (simp add: books_ok_def adds_def)

lemma work_step_books:
  assumes works: "works (rn_phase r) (rn_held r)" and step: "work_step mem_repositories r p = (ph, q)"
    and inv: "wal_inv (pr_wal p)" and good: "good_run r" and rec: "record_storable (run_record r)"
    and journal: "journal_ok (pr_wal p) r"
  shows "books_ok r p (r\<lparr>rn_phase := ph\<rparr>) q"
proof (cases "rn_phase r")
  case (Acquiring todo)
  have "(\<exists>e. ph = Unwinding (Inl e)) \<or> (\<exists>msg. ph = Refusing msg) \<or> (\<exists>as. ph = Journaling as)" "q = p"
    using step Acquiring by (auto simp: work_step_def Let_def load_accounts_io_def split: prod.splits sum.splits if_splits)
  then show ?thesis using journal Acquiring by (intro books_ok_quiet) (auto simp: books_defs)
next
  case (Journaling as)
  let ?rec = "(run_record r)\<lparr>rec_state := Validated\<rparr>"
  have env: "resize_error (pe_append (rn_env r)) = None" "write_io (pe_append (rn_env r)) = Written"
    using good by (simp_all add: good_run_def good_env_def)
  have rec_eq: "?rec = (project_transaction (pe_record_time (rn_env r)) (rn_id r) (rn_txn r))\<lparr>rec_state := Validated\<rparr>"
    by (simp add: run_record_def committed_record_def)
  obtain w where w: "wal_append (pe_append (rn_env r)) (pr_wal p) ?rec = (Inr (), w)"
    by (rule append_known [OF inv env])
  have "rec_id ?rec = rn_id r" by (simp add: run_record_def committed_record_def project_transaction_def)
  with append_entries [OF inv w] journal Journaling show ?thesis
    using step w by (auto simp: work_step_def wal_append_io_def continue_with_def books_defs rec_eq)
next
  case (Saving as)
  have "(\<exists>e. ph = Unwinding (Inl e)) \<or> ph = Marking" "\<exists>a. q = p\<lparr>pr_accounts := a\<rparr>"
    using step Saving by (auto simp: work_step_def Let_def save_accounts_io_def continue_with_def intro: exI [of _ "pr_accounts p"]
        split: prod.splits sum.splits)
  then show ?thesis using journal Saving by (intro books_ok_quiet) (auto simp: books_defs)
next
  case Marking
  obtain n where n: "entries_of (pr_wal p) (rn_id r) = [new_entry n ((run_record r)\<lparr>rec_state := Validated\<rparr>)]"
    using journal Marking by (auto simp: journal_ok_def)
  have "rec_state ((run_record r)\<lparr>rec_state := Validated\<rparr>) \<noteq> Committed"
    "record_storable ((run_record r)\<lparr>rec_state := Validated\<rparr>)" using rec by (simp_all add: record_storable_def)
  then obtain w where w: "mark_committed None (pr_wal p) (rn_id r) = (Inr (), w)"
    "committed_records w = add_mset ((stored_form ((run_record r)\<lparr>rec_state := Validated\<rparr>))\<lparr>rec_state := Committed\<rparr>)
       (committed_records (pr_wal p))"
    "\<And>j. j \<noteq> rn_id r \<Longrightarrow> entries_of w j = entries_of (pr_wal p) j" using mark_entries [OF inv n] by metis
  have "(stored_form ((run_record r)\<lparr>rec_state := Validated\<rparr>))\<lparr>rec_state := Committed\<rparr> = stored_form (run_record r)"
    by (simp add: stored_form_def run_record_def committed_record_def)
  with w Marking step good show ?thesis
    by (auto simp: work_step_def wal_commit_io_def continue_with_def books_defs good_run_def good_env_def)
next
  case Recording
  have "run_record r = (project_transaction (pe_record_time (rn_env r)) (rn_id r) (rn_txn r))\<lparr>rec_state := Validated, rec_state := Committed\<rparr>"
    by (simp add: run_record_def committed_record_def)
  then show ?thesis using Recording step
    by (auto simp: work_step_def append_record_io_def continue_with_def books_defs mem_transactions_def
        mem_transactions_append_def)
next
  case Completing
  then show ?thesis using step
    by (intro books_ok_quiet) (auto simp: work_step_def make_entry_def Let_def books_defs)
next
  case (Refusing msg)
  then show ?thesis using step by (intro books_ok_quiet) (auto simp: work_step_def make_entry_def books_defs)
next
  case (Noting e res)
  then show ?thesis using step mem.append_entry_total [of e p]
    by (intro books_ok_quiet) (auto simp: work_step_def continue_with_def books_defs)
next
  case (Unwinding x)
  then show ?thesis using step
    by (intro books_ok_quiet; cases x) (auto simp: work_step_def make_entry_def books_defs)
next
  case (Handling e msg)
  then show ?thesis using step mem.append_entry_total [of e p]
    by (intro books_ok_quiet) (auto simp: work_step_def books_defs)
next
  case (Done x)
  then show ?thesis using works by simp
qed

section \<open>The ids of the runs\<close>

text \<open>Ids of calls and reserved ids are below the counter and distinct, and reserved ids are not in the journal.\<close>

definition known_ids :: "('a, 't, 'u) system \<Rightarrow> transaction_id set" where
  "known_ids s = rn_id ` set (sy_runs s) \<union> set (pr_reserved (sy_proc s)) \<union> wal_ids (pr_wal (sy_proc s))"

definition run_ids_ok :: "('a, 't, 'u) system \<Rightarrow> bool" where
  "run_ids_ok s \<longleftrightarrow>
     distinct (map rn_id (sy_runs s) @ pr_reserved (sy_proc s)) \<and>
     (\<forall>i \<in> known_ids s. id_value i < pr_next_id (sy_proc s)) \<and>
     wal_ids (pr_wal (sy_proc s)) \<inter> set (pr_reserved (sy_proc s)) = {}"

lemma next_unused: "run_ids_ok s \<Longrightarrow> Id (pr_next_id (sy_proc s)) \<notin> known_ids s"
  using bspec [of "known_ids s" "\<lambda>i. id_value i < pr_next_id (sy_proc s)" "Id (pr_next_id (sy_proc s))"]
  by (auto simp: run_ids_ok_def)

text \<open>A step gives away known ids and perhaps the next one.\<close>

lemma run_ids_ok_step:
  assumes "run_ids_ok s" "pr_next_id (sy_proc s) < pr_next_id (sy_proc s) + 1"
    "known_ids s' \<subseteq> known_ids s \<and> pr_next_id (sy_proc s') = pr_next_id (sy_proc s) \<or>
     known_ids s' \<subseteq> insert (Id (pr_next_id (sy_proc s))) (known_ids s) \<and> pr_next_id (sy_proc s') = pr_next_id (sy_proc s) + 1"
    "distinct (map rn_id (sy_runs s') @ pr_reserved (sy_proc s'))"
    "wal_ids (pr_wal (sy_proc s')) \<inter> set (pr_reserved (sy_proc s')) = {}"
  shows "run_ids_ok s'"
proof -
  have "id_value i < pr_next_id (sy_proc s')" if "i \<in> known_ids s'" for i
    using that assms(1-3) less_trans [OF _ assms(2)] unfolding run_ids_ok_def by fastforce
  then show ?thesis using assms(4,5) by (simp add: run_ids_ok_def)
qed

lemma work_step_ids:
  assumes "work_step repos r p = (ph, q)"
  shows "pr_next_id q = pr_next_id p" "pr_reserved q = pr_reserved p"
    "wal_ids (pr_wal q) \<subseteq> insert (rn_id r) (wal_ids (pr_wal p))"
proof -
  have id: "rec_id (project_transaction now i t) = i" for now i t by (simp add: project_transaction_def)
  have app: "wal_append io w rec = (x, w') \<Longrightarrow> wal_ids w' \<subseteq> insert (rec_id rec) (wal_ids w)" for io w rec x w'
    using wal_ids_append [of io w rec] by simp
  have mark: "mark_committed m w i = (x, w') \<Longrightarrow> wal_ids w' = wal_ids w" for m w i x w'
    using wal_ids_commit [of m w i] by simp
  show "pr_next_id q = pr_next_id p" "pr_reserved q = pr_reserved p"
    "wal_ids (pr_wal q) \<subseteq> insert (rn_id r) (wal_ids (pr_wal p))"
    using assms
    by (auto simp: work_step_def Let_def load_accounts_io_def wal_append_io_def save_accounts_io_def wal_commit_io_def
        append_record_io_def make_entry_def append_entry_def mark id dest!: app
        split: run_phase.splits sum.splits prod.splits if_splits)
qed

lemma run_ids_update:
  assumes ids: "run_ids_ok s" and k: "k < length (sy_runs s)" and r: "rn_id r = rn_id (sy_runs s ! k)"
    and q: "pr_next_id q = pr_next_id (sy_proc s)" "pr_reserved q = pr_reserved (sy_proc s)"
      "wal_ids (pr_wal q) \<subseteq> insert (rn_id (sy_runs s ! k)) (wal_ids (pr_wal (sy_proc s)))"
  shows "run_ids_ok (s\<lparr>sy_proc := q, sy_runs := (sy_runs s)[k := r]\<rparr>)"
proof -
  have runs: "map rn_id ((sy_runs s)[k := r]) = map rn_id (sy_runs s)" using k r by (simp add: map_update list_update_same_conv)
  have own: "rn_id (sy_runs s ! k) \<in> rn_id ` set (sy_runs s)" using k by simp
  have "rn_id ` set ((sy_runs s)[k := r]) = rn_id ` set (sy_runs s)" using arg_cong [OF runs, of set] by simp
  then have "known_ids (s\<lparr>sy_proc := q, sy_runs := (sy_runs s)[k := r]\<rparr>) \<subseteq> known_ids s"
    using q(2,3) own by (auto simp: known_ids_def)
  moreover have "rn_id (sy_runs s ! k) \<notin> set (pr_reserved (sy_proc s))" using ids own by (auto simp: run_ids_ok_def)
  ultimately show ?thesis using ids q runs unfolding run_ids_ok_def by auto
qed

lemma submit_outcome_ids:
  assumes "submit p t = (res, q)" "Id (pr_next_id p) \<notin> set (pr_reserved p)"
  shows "pr_wal q = pr_wal p \<and>
    (pr_next_id q = pr_next_id p \<and> pr_reserved q = pr_reserved p \<or>
     pr_next_id q = pr_next_id p + 1 \<and> pr_reserved q \<in> {pr_reserved p, pr_reserved p @ [Id (pr_next_id p)]})"
  using assms by (cases "pr_reserved p") (auto simp: submit_def fresh_id_def Let_def split: if_splits prod.splits bool.splits)

lemma run_ids_step:
  assumes step: "run_step repos s s'" and ids: "run_ids_ok s" and range: "pr_next_id (sy_proc s) < pr_next_id (sy_proc s) + 1"
  shows "run_ids_ok s'"
  using step
proof (cases rule: run_step.cases)
  case (run_starts i p t env)
  show ?thesis
    by (rule run_ids_ok_step [OF ids range])
      (use ids next_unused [OF ids] run_starts in \<open>auto simp: run_ids_ok_def known_ids_def fresh_id_def new_run_def\<close>)
next
  case (run_intake p)
  from run_intake(2) show ?thesis
  proof cases
    case (intake_submits t res)
    have "Id (pr_next_id (sy_proc s)) \<notin> set (pr_reserved (sy_proc s))" using next_unused [OF ids] by (simp add: known_ids_def)
    from submit_outcome_ids [OF intake_submits this] show ?thesis
      by (intro run_ids_ok_step [OF ids range])
        (use ids next_unused [OF ids] in \<open>auto simp: run_intake(1) run_ids_ok_def known_ids_def; metis disjoint_iff image_eqI\<close>)+
  qed (use ids in \<open>simp_all add: run_intake(1) run_ids_ok_def known_ids_def start_processor_def stop_accepting_def
        consumers_joined_def\<close>)
next
  case (run_pops stopped t q)
  then show ?thesis using ids by (simp add: run_ids_ok_def known_ids_def)
next
  case (run_takes t i p env)
  show ?thesis
    by (rule run_ids_ok_step [OF ids range])
      (use ids next_unused [OF ids] run_takes in \<open>auto simp: run_ids_ok_def known_ids_def take_reserved_id_def fresh_id_def
          new_run_def split: list.splits\<close>)
next
  case (run_locks k i todo lm)
  show ?thesis unfolding run_locks(1) by (rule run_ids_update [OF ids run_locks(2)]) auto
next
  case (run_unlocks k x i)
  show ?thesis unfolding run_unlocks(1) by (rule run_ids_update [OF ids run_unlocks(2)]) auto
next
  case (run_works k ph p)
  show ?thesis unfolding run_works(1)
    by (rule run_ids_update [OF ids run_works(2)]) (use work_step_ids [OF run_works(4)] in simp_all)
qed

lemma new_id_unused:
  assumes "run_step repos s s'" "run_ids_ok s" "sy_runs s' = sy_runs s @ [new_run t i env]"
  shows "i \<notin> wal_ids (pr_wal (sy_proc s))"
proof -
  have len: "length (sy_runs s') = Suc (length (sy_runs s))" using assms(3) by simp
  from assms(1) show ?thesis
  proof (cases rule: run_step.cases)
    case (run_starts j p u env')
    then have "j = i" using assms(3) by (simp add: new_run_def)
    then show ?thesis using run_starts(2) next_unused [OF assms(2)] by (simp add: fresh_id_def known_ids_def)
  next
    case (run_takes u j p env')
    then have "j = i" using assms(3) by (simp add: new_run_def)
    then show ?thesis using run_takes(3) assms(2) next_unused [OF assms(2)]
      by (auto simp: take_reserved_id_def fresh_id_def run_ids_ok_def known_ids_def split: list.splits)
  qed (use len in simp_all)
qed

section \<open>All runs\<close>

definition books_inv ::
  "('a, memory_transactions, 'u) processor \<Rightarrow> ('a, memory_transactions, 'u) system \<Rightarrow> bool" where
  "books_inv p s \<longleftrightarrow>
     (\<forall>r \<in> set (sy_runs s). journal_ok (pr_wal (sy_proc s)) r) \<and>
     committed_records (pr_wal (sy_proc s)) =
       committed_records (pr_wal p) + mset (map (\<lambda>r. stored_form (run_record r)) (filter marked (sy_runs s))) \<and>
     mset (pr_transactions (sy_proc s)) = mset (pr_transactions p) + mset (map run_record (filter recorded (sy_runs s)))"

lemma books_inv_update:
  assumes inv: "books_inv p s" and ids: "run_ids_ok s" and k: "k < length (sy_runs s)"
    and books: "books_ok (sy_runs s ! k) (sy_proc s) r q"
  shows "books_inv p (s\<lparr>sy_proc := q, sy_runs := (sy_runs s)[k := r]\<rparr>)"
proof -
  have "journal_ok (pr_wal q) (sy_runs s ! j)" if j: "j < length (sy_runs s)" "j \<noteq> k" for j
  proof -
    have "rn_id (sy_runs s ! j) \<noteq> rn_id (sy_runs s ! k)"
      using ids j k by (auto simp: run_ids_ok_def distinct_map dest: inj_onD nth_eq_iff_index_eq)
    then have "entries_of (pr_wal q) (rn_id (sy_runs s ! j)) = entries_of (pr_wal (sy_proc s)) (rn_id (sy_runs s ! j))"
      using books by (simp add: books_ok_def)
    moreover have "journal_ok (pr_wal (sy_proc s)) (sy_runs s ! j)" using inv j by (simp add: books_inv_def)
    ultimately show ?thesis using journal_ok_cong by blast
  qed
  then have "\<forall>x \<in> set ((sy_runs s)[k := r]). journal_ok (pr_wal q) x"
    by (rule all_runs_update) (use books in \<open>simp_all add: books_ok_def\<close>)
  moreover have "committed_records (pr_wal q) = committed_records (pr_wal p) +
      mset (map (\<lambda>r. stored_form (run_record r)) (filter marked ((sy_runs s)[k := r])))"
    by (rule adds_update [OF _ k]) (use books inv in \<open>simp_all add: books_ok_def books_inv_def\<close>)
  moreover have "mset (pr_transactions q) = mset (pr_transactions p) + mset (map run_record (filter recorded ((sy_runs s)[k := r])))"
    by (rule adds_update [OF _ k]) (use books inv in \<open>simp_all add: books_ok_def books_inv_def\<close>)
  ultimately show ?thesis by (simp add: books_inv_def)
qed

lemma books_inv_step:
  assumes step: "run_step mem_repositories s s'" and inv: "books_inv p s" and ids: "run_ids_ok s"
    and wal: "wal_inv (pr_wal (sy_proc s))" and good: "\<forall>r \<in> set (sy_runs s). good_run r \<and> record_storable (run_record r)"
  shows "books_inv p s'"
proof -
  have journal: "journal_ok (pr_wal (sy_proc s)) (sy_runs s ! k)" if "k < length (sy_runs s)" for k
    using inv that by (simp add: books_inv_def)
  from step show ?thesis
  proof (cases rule: run_step_shape)
    case run_quiet
    then show ?thesis using inv by (simp add: books_inv_def same_stores_def)
  next
    case (run_begins t i env)
    have "journal_ok (pr_wal (sy_proc s)) (new_run t i env)"
      using new_id_unused [OF step ids run_begins(1)] by (simp add: journal_ok_def new_run_def entries_of_None)
    then show ?thesis using inv run_begins
      by (auto simp: books_inv_def same_stores_def new_run_def marked_def recorded_def succeeded_def decided_def)
  next
    case (run_locks k i todo lm)
    show ?thesis unfolding run_locks(1)
      by (intro books_inv_update [OF inv ids run_locks(2)] books_ok_quiet)
        (use journal [OF run_locks(2)] run_locks in \<open>simp_all add: books_defs run_record_def\<close>)
  next
    case (run_unlocks k x i)
    show ?thesis unfolding run_unlocks(1)
      by (intro books_inv_update [OF inv ids run_unlocks(2)] books_ok_quiet)
        (use journal [OF run_unlocks(2)] run_unlocks in \<open>simp_all add: books_defs run_record_def\<close>)
  next
    case (run_works k ph q)
    show ?thesis unfolding run_works(1)
      by (intro books_inv_update [OF inv ids run_works(2)] work_step_books [OF run_works(3,4) wal _ _ journal [OF run_works(2)]])
        (use good run_works in simp_all)
  qed
qed

text \<open>Calls whose record can be read back from the journal: the account ids fit the signed range.\<close>

definition storable_run :: "run \<Rightarrow> bool" where
  "storable_run r \<longleftrightarrow> good_run r \<and> (\<forall>i \<in> set (involved_accounts (rn_txn r)). small_id i)"

lemma same_call_storable: "same_call r r' \<Longrightarrow> storable_run r' \<Longrightarrow> storable_run r"
  using same_call_good by (simp add: storable_run_def same_call_def)

lemma storable_run_record:
  assumes "storable_run r" "id_value (rn_id r) < 2 ^ 63"
  shows "record_storable (run_record r)"
proof -
  have "id_value (rn_id r) \<noteq> i64_min" using assms(2) by auto
  then show ?thesis using assms
    by (auto simp: record_storable_def storable_run_def good_run_def run_record_def committed_record_def
        project_transaction_def set_involved)
qed

lemma books_inv_run:
  assumes "(run_in_range mem_repositories)\<^sup>*\<^sup>* (idle_system p) s" "\<forall>r \<in> set (sy_runs s). storable_run r"
    "ids_ok p" "pr_next_id p \<le> 2 ^ 63" "mem_ok (pr_accounts p)" "wal_inv (pr_wal p)" "\<forall>i. holder (pr_locks p) i = None"
  shows "books_inv p s \<and> run_ids_ok s \<and> pr_next_id (sy_proc s) \<le> 2 ^ 63"
  using assms(1,2)
proof (induction rule: rtranclp_induct)
  case base
  then show ?case using assms(3,4) by (auto simp: books_inv_def run_ids_ok_def known_ids_def idle_system_def ids_ok_def)
next
  case (step s1 s2)
  have one: "run_step mem_repositories s1 s2" "pr_next_id (sy_proc s2) \<le> 2 ^ 63" using step(2) by (simp_all add: run_in_range_def)
  have runs: "\<forall>r \<in> set (sy_runs s1). storable_run r"
    by (rule run_step_earlier [OF one(1) step(4)]) (rule same_call_storable)
  have inv: "books_inv p s1" "run_ids_ok s1" "pr_next_id (sy_proc s1) \<le> 2 ^ 63" using step.IH [OF runs] by simp_all
  then have "pr_next_id (sy_proc s1) < pr_next_id (sy_proc s1) + 1" by (simp add: word_le_nat_alt word_less_nat_alt unat_word_ariths)
  then have "run_ids_ok s2" by (rule run_ids_step [OF one(1) inv(2)])
  have "\<forall>r \<in> set (sy_runs s1). good_run r" using runs by (simp add: storable_run_def)
  then have "wal_inv (pr_wal (sy_proc s1))"
    using mem.system_inv_run [OF in_range_steps [OF step(1)] mem.system_inv_start [OF mem_system_start [OF assms(5)] assms(6,7)]]
    by (auto simp: system_inv_def)
  moreover have "good_run r \<and> record_storable (run_record r)" if r: "r \<in> set (sy_runs s1)" for r
  proof -
    have "id_value (rn_id r) < 2 ^ 63" using less_le_trans [OF _ inv(3)] inv(2) r by (simp add: run_ids_ok_def known_ids_def)
    then show ?thesis using storable_run_record runs r by (simp add: storable_run_def)
  qed
  ultimately show ?case using books_inv_step [OF one(1) inv(1,2)] \<open>run_ids_ok s2\<close> one(2) by simp
qed

section \<open>The balances\<close>

context reliable_stores begin

lemma serial_funds:
  fixes p :: "('a, 't, 'u) processor"
  assumes "serial (aview (pr_accounts p)) rs v'" "\<forall>r \<in> set rs. good_run r"
    "aok (pr_accounts p)" "view_ok (aview (pr_accounts p))" "wal_inv (pr_wal p)" "aview (pr_accounts p) i = Some a"
  shows "\<exists>a'. v' i = Some a' \<and> funds a' = funds a + (\<Sum>r\<leftarrow>filter succeeded rs. txn_delta (rn_txn r) i)"
  using assms
proof (induction rs arbitrary: p a)
  case Nil
  then show ?case by simp
next
  case (Cons r rs)
  have good: "good_env (rn_env r)" "money_ok (amount_of (rn_txn r))" using Cons.prems(2) by (simp_all add: good_run_def)
  let ?v = "aview (pr_accounts p)"
  obtain p1 where run: "process_impl repos (rn_env r) (rn_txn r) (rn_id r) p =
      (Inr (verdict_result (rn_env r) (rn_id r) (rn_txn r) ?v), p1)"
    and p1: "aok (pr_accounts p1)" "aview (pr_accounts p1) = post_view (rn_txn r) ?v" "wal_inv (pr_wal p1)"
    by (rule process_impl_posts [OF Cons.prems(3,4) good(2) Cons.prems(5) good(1)])
  have vok: "view_ok (aview (pr_accounts p1))" unfolding p1(2) by (rule post_view_ok [OF Cons.prems(3,4) good(2)])
  have "acc_id a = i" using Cons.prems(4,6) by (simp add: view_ok_def)
  have "\<exists>a1. aview (pr_accounts p1) i = Some a1 \<and>
      funds a1 = funds a + (if succeeded r then txn_delta (rn_txn r) i else 0)"
  proof (cases "process_verdict (rn_txn r) ?v")
    case None
    then have "succeeded r" using Cons.prems(1) by (simp add: succeeded_def verdict_result_def)
    moreover obtain a1 where "aview (pr_accounts p1) i = Some a1" "posted (rn_txn r) a a1"
      using posted_view_at [OF post_view_posted [OF Cons.prems(3,4) good(2) None] Cons.prems(6)] p1(2) by auto
    ultimately show ?thesis using posted_funds \<open>acc_id a = i\<close> by auto
  next
    case (Some msg)
    then show ?thesis using Cons.prems(1,6) p1(2) by (simp add: succeeded_def verdict_result_def post_view_def)
  qed
  then obtain a1 where a1: "aview (pr_accounts p1) i = Some a1"
    "funds a1 = funds a + (if succeeded r then txn_delta (rn_txn r) i else 0)" by blast
  obtain a' where "v' i = Some a'" "funds a' = funds a1 + (\<Sum>r\<leftarrow>filter succeeded rs. txn_delta (rn_txn r) i)"
    using Cons.IH [OF _ _ p1(1) vok p1(3) a1(1)] Cons.prems(1,2) p1(2) by auto
  then show ?case using a1(2) by simp
qed

end

lemma account_funds:
  assumes "(run_step mem_repositories)\<^sup>*\<^sup>* (idle_system p) s" "\<forall>r \<in> set (sy_runs s). good_run r"
    "mem_ok (pr_accounts p)" "wal_inv (pr_wal p)" "\<forall>i. holder (pr_locks p) i = None"
    "mem_accounts_view (pr_accounts p) i = Some a"
  shows "\<exists>a'. mem_accounts_view (pr_accounts (sy_proc s)) i = Some a' \<and>
    funds a' = funds a + (\<Sum>r\<leftarrow>filter succeeded (sy_runs s). txn_delta (rn_txn r) i)"
proof -
  obtain order where inv: "system_inv mem_accounts_ok mem_accounts_view (mem_accounts_view (pr_accounts p)) order s"
    using mem.system_inv_run [OF assms(1) mem.system_inv_start [OF mem_system_start [OF assms(3)] assms(4,5)] assms(2)] by auto
  let ?rs = "map (\<lambda>k. sy_runs s ! k) order"
  have order: "distinct order" "set order = {k. k < length (sy_runs s) \<and> decided (sy_runs s ! k) \<noteq> None}"
    "serial (mem_accounts_view (pr_accounts p)) ?rs (mem_accounts_view (pr_accounts (sy_proc s)))"
    using inv by (simp_all add: system_inv_def decided_order_def)
  have "\<forall>r \<in> set ?rs. good_run r" using assms(2) order(2) by auto
  from mem.serial_funds [OF order(3) this mem_system_start [OF assms(3)] assms(4,6)]
  have "\<exists>a'. mem_accounts_view (pr_accounts (sy_proc s)) i = Some a' \<and>
    funds a' = funds a + (\<Sum>r\<leftarrow>filter succeeded ?rs. txn_delta (rn_txn r) i)" .
  also have "(\<Sum>r\<leftarrow>filter succeeded ?rs. txn_delta (rn_txn r) i) =
      (\<Sum>r\<leftarrow>filter succeeded (sy_runs s). txn_delta (rn_txn r) i)"
    by (rule sum_filter_order [OF order(1)]) (use order(2) in \<open>auto simp: succeeded_def\<close>)
  finally show ?thesis .
qed

section \<open>The balances from the journal\<close>

text \<open>What a record moves an account by.\<close>

definition record_delta :: "account_id \<Rightarrow> transaction_record \<Rightarrow> int" where
  "record_delta i r =
     (if rec_to r = Some i then amount (rec_amount r) else 0) - (if rec_from r = Some i then amount (rec_amount r) else 0)"

lemma run_record_delta: "record_delta i (stored_form (run_record r)) = txn_delta (rn_txn r) i"
  by (simp add: record_delta_def stored_form_def run_record_def committed_record_def project_transaction_def txn_delta_def)

lemma journal_delta:
  "(\<Sum>x\<in>#mset (map (\<lambda>r. stored_form (run_record r)) rs). record_delta i x) = (\<Sum>r\<leftarrow>rs. txn_delta (rn_txn r) i)"
  by (induction rs) (simp_all add: run_record_delta)

lemma reopened_journal:
  assumes "(run_in_range mem_repositories)\<^sup>*\<^sup>* (idle_system p) s" "\<forall>r \<in> set (sy_runs s). storable_run r"
    "mem_ok (pr_accounts p)" "wal_inv (pr_wal p)" "\<forall>i. holder (pr_locks p) i = None"
    "ids_ok p" "pr_next_id p \<le> 2 ^ 63"
  shows "committed_records (wal_open path (Some (wal_file (pr_wal (sy_proc s))))) = committed_records (pr_wal p) +
      mset (map (\<lambda>r. stored_form (run_record r)) (filter marked (sy_runs s)))"
proof -
  have good: "\<forall>r \<in> set (sy_runs s). good_run r" using assms(2) by (simp add: storable_run_def)
  have books: "books_inv p s" using books_inv_run [OF assms(1,2,6,7,3-5)] by blast
  have "wal_inv (pr_wal (sy_proc s))"
    using mem.system_inv_run [OF in_range_steps [OF assms(1)] mem.system_inv_start [OF mem_system_start [OF assms(3)] assms(4,5)] good]
    by (auto simp: system_inv_def)
  from load_all_reopen [OF this] show ?thesis using books by (simp add: books_inv_def committed_records_def)
qed

lemma returned_marked: "returned r \<Longrightarrow> (marked r \<longleftrightarrow> succeeded r) \<and> (recorded r \<longleftrightarrow> succeeded r)"
  by (auto simp: returned_iff marked_def recorded_def)

lemma sample_runs_storable:
  assumes "map rn_txn rs = [sample_transfer, sample_transfer]" "r \<in> set rs" "good_run r"
  shows "storable_run r"
proof -
  have "rn_txn r = sample_transfer" using imageI [OF assms(2), of rn_txn] arg_cong [OF assms(1), of set] by simp
  then show ?thesis using assms(3) by (auto simp: storable_run_def sample_transfer_def set_involved small_id_def)
qed

section \<open>Properties\<close>

text \<open>
  C12: journal, transactions and balances tell the same story, at every moment. Take the in-memory
  repositories with accounts in range, a journal in order, ids in order (\<open>ids_ok\<close>) and all mutexes free, and
  calls whose amounts are in range, whose journal writes all succeed and whose records can be stored
  (\<open>storable_run\<close>), as long as the counter of ids has not passed 2^63 (\<open>run_in_range\<close>). However the calls of
  clients and consumers are interleaved and whenever they are looked at: each balance is the initial one
  moved by every call decided as a success; a restart reads from the journal, as committed, the earlier committed
  records and those of the decided calls that have written their marker, each once; and the transactions are
  the earlier ones and the records of those that have also appended theirs. A call that has returned success
  is among all three, and no two calls have the same id.
\<close>

theorem journal_and_stores_agree:
  assumes "(run_in_range mem_repositories)\<^sup>*\<^sup>* (idle_system p) s" "\<forall>r \<in> set (sy_runs s). storable_run r"
    "mem_ok (pr_accounts p)" "wal_inv (pr_wal p)" "\<forall>i. holder (pr_locks p) i = None"
    "ids_ok p" "pr_next_id p \<le> 2 ^ 63"
  shows "(\<forall>i a. mem_accounts_view (pr_accounts p) i = Some a \<longrightarrow>
      (\<exists>a'. mem_accounts_view (pr_accounts (sy_proc s)) i = Some a' \<and>
        funds a' = funds a + (\<Sum>r\<leftarrow>filter succeeded (sy_runs s). txn_delta (rn_txn r) i))) \<and>
    committed_records (wal_open path (Some (wal_file (pr_wal (sy_proc s))))) = committed_records (pr_wal p) +
      mset (map (\<lambda>r. stored_form (run_record r)) (filter marked (sy_runs s))) \<and>
    mset (pr_transactions (sy_proc s)) = mset (pr_transactions p) + mset (map run_record (filter recorded (sy_runs s))) \<and>
    (\<forall>r \<in> set (sy_runs s). returned r \<longrightarrow> (marked r \<longleftrightarrow> succeeded r) \<and> (recorded r \<longleftrightarrow> succeeded r)) \<and>
    distinct (map rn_id (sy_runs s))"
proof -
  have good: "\<forall>r \<in> set (sy_runs s). good_run r" using assms(2) by (simp add: storable_run_def)
  have "books_inv p s" "run_ids_ok s" using books_inv_run [OF assms(1,2,6,7,3-5)] by blast+
  then show ?thesis
    using reopened_journal [OF assms, of path] account_funds [OF in_range_steps [OF assms(1)] good assms(3-5)] returned_marked
    by (simp add: books_inv_def run_ids_ok_def)
qed

theorem journal_and_stores_agree_witness:
  "\<exists>s. (run_in_range mem_repositories)\<^sup>*\<^sup>* (idle_system sample_processor) s \<and>
     map rn_txn (sy_runs s) = [sample_transfer, sample_transfer] \<and> (\<forall>r \<in> set (sy_runs s). returned r) \<and>
     committed_records (wal_open ''wal.log'' (Some (wal_file (pr_wal (sy_proc s))))) = committed_records (pr_wal sample_processor) +
       image_mset stored_form (mset (pr_transactions (sy_proc s)))"
proof -
  obtain s1 s where runs: "(run_in_range mem_repositories)\<^sup>*\<^sup>* (idle_system sample_processor) s1"
    "(run_in_range mem_repositories)\<^sup>*\<^sup>* s1 s" "map rn_txn (sy_runs s) = [sample_transfer, sample_transfer]"
    "\<forall>r \<in> set (sy_runs s). good_run r \<and> returned r" by (rule two_transfers_returned)
  note steps = rtranclp_trans [OF runs(1,2)]
  have "\<forall>r \<in> set (sy_runs s). storable_run r" using sample_runs_storable [OF runs(3)] runs(4) by blast
  moreover have "pr_next_id sample_processor \<le> 2 ^ 63" "pr_transactions sample_processor = []"
    by (simp_all add: sample_processor_def)
  moreover note journal_and_stores_agree [OF steps _ sample_mem_ok sample_wal_inv sample_locks sample_ids_ok, of "''wal.log''"]
  moreover have "filter marked (sy_runs s) = filter succeeded (sy_runs s)" "filter recorded (sy_runs s) = filter succeeded (sy_runs s)"
    using calculation runs(4) by (auto intro!: filter_cong)
  ultimately show ?thesis using steps runs(3,4) by (intro exI [of _ s]) (simp add: image_mset.compositionality comp_def)
qed

text \<open>
  C13: the balances can be rebuilt from the journal, under the same conditions: the in-memory repositories with
  accounts in range, a journal in order, ids in order and all mutexes free; calls whose amounts are in range,
  whose journal writes all succeed and whose records can be stored; and ids below 2^63. When all calls have
  returned, the balance of every account is the one it had before, moved by exactly the committed records that a
  restart reads from the journal beyond those it held before.
\<close>

theorem balances_rebuilt_from_journal:
  assumes "(run_in_range mem_repositories)\<^sup>*\<^sup>* (idle_system p) s" "\<forall>r \<in> set (sy_runs s). storable_run r \<and> returned r"
    "mem_ok (pr_accounts p)" "wal_inv (pr_wal p)" "\<forall>i. holder (pr_locks p) i = None"
    "ids_ok p" "pr_next_id p \<le> 2 ^ 63" "mem_accounts_view (pr_accounts p) i = Some a"
  shows "\<exists>a' new. mem_accounts_view (pr_accounts (sy_proc s)) i = Some a' \<and>
    committed_records (wal_open path (Some (wal_file (pr_wal (sy_proc s))))) = committed_records (pr_wal p) + new \<and>
    funds a' = funds a + (\<Sum>r\<in>#new. record_delta i r)"
proof -
  have runs: "\<forall>r \<in> set (sy_runs s). storable_run r" and good: "\<forall>r \<in> set (sy_runs s). good_run r"
    using assms(2) by (simp_all add: storable_run_def)
  have "filter marked (sy_runs s) = filter succeeded (sy_runs s)"
    using assms(2) returned_marked by (auto intro: filter_cong)
  note journal = reopened_journal [OF assms(1) runs assms(3-7), of path, unfolded this]
  obtain a' where "mem_accounts_view (pr_accounts (sy_proc s)) i = Some a'"
    "funds a' = funds a + (\<Sum>r\<leftarrow>filter succeeded (sy_runs s). txn_delta (rn_txn r) i)"
    using account_funds [OF in_range_steps [OF assms(1)] good assms(3-5,8)] by blast
  with journal show ?thesis by (intro exI conjI) (assumption, assumption, simp only: journal_delta)
qed

theorem balances_rebuilt_from_journal_witness:
  "\<exists>s new. (run_in_range mem_repositories)\<^sup>*\<^sup>* (idle_system sample_processor) s \<and>
     map rn_txn (sy_runs s) = [sample_transfer, sample_transfer] \<and>
     committed_records (wal_open ''wal.log'' (Some (wal_file (pr_wal (sy_proc s))))) =
       committed_records (pr_wal sample_processor) + new \<and>
     (\<exists>a'. mem_accounts_view (pr_accounts (sy_proc s)) (Id 2) = Some a' \<and>
       funds a' = 1000 + (\<Sum>r\<in>#new. record_delta (Id 2) r))"
proof -
  obtain s1 s where runs: "(run_in_range mem_repositories)\<^sup>*\<^sup>* (idle_system sample_processor) s1"
    "(run_in_range mem_repositories)\<^sup>*\<^sup>* s1 s" "map rn_txn (sy_runs s) = [sample_transfer, sample_transfer]"
    "\<forall>r \<in> set (sy_runs s). good_run r \<and> returned r" by (rule two_transfers_returned)
  note steps = rtranclp_trans [OF runs(1,2)]
  have ok: "\<forall>r \<in> set (sy_runs s). storable_run r \<and> returned r" using sample_runs_storable [OF runs(3)] runs(4) by blast
  have range: "pr_next_id sample_processor \<le> 2 ^ 63" by (simp add: sample_processor_def)
  have a: "mem_accounts_view (pr_accounts sample_processor) (Id 2) = Some (sample_account 2 1000)"
    by (simp add: sample_processor_def sample_accounts_def mem_accounts_view_def)
  have "funds (sample_account 2 1000) = 1000" by (simp add: sample_account_def amount_def)
  with balances_rebuilt_from_journal [OF steps ok sample_mem_ok sample_wal_inv sample_locks sample_ids_ok range a, of "''wal.log''"]
  show ?thesis using steps runs(3) by auto
qed

end
