(* ===== verification/Bank_Ledger.thy ===== *)
theory Bank_Ledger
  imports Bank_Interleaving_Props
begin

text \<open>
  What the bank promises, without its code: a ledger of integer balances on which a transaction takes effect
  at once or is refused. The processor refines it, alone and under any interleaving.
\<close>

section \<open>The ledger\<close>

text \<open>The status and the balance of every account there is.\<close>

type_synonym ledger = "account_id \<rightharpoonup> account_status \<times> int"

definition ledger_take :: "account_id \<Rightarrow> int \<Rightarrow> ledger \<Rightarrow> ledger option" where
  "ledger_take i m L =
     (case L i of
        Some (Active, f) \<Rightarrow> if m \<le> f then Some (L(i \<mapsto> (Active, f - m))) else None
      | _ \<Rightarrow> None)"

definition ledger_give :: "account_id \<Rightarrow> int \<Rightarrow> ledger \<Rightarrow> ledger option" where
  "ledger_give i m L =
     (case L i of
        Some (Active, f) \<Rightarrow> if f + m \<le> max_amount then Some (L(i \<mapsto> (Active, f + m))) else None
      | _ \<Rightarrow> None)"

fun ledger_post :: "transaction \<Rightarrow> ledger \<Rightarrow> ledger option" where
  "ledger_post (Deposit i m) L = (if 0 < amount m then ledger_give i (amount m) L else None)"
| "ledger_post (Withdraw i m) L = (if 0 < amount m then ledger_take i (amount m) L else None)"
| "ledger_post (Transfer i j m) L =
     (if i \<noteq> j \<and> 0 < amount m then Option.bind (ledger_take i (amount m) L) (ledger_give j (amount m)) else None)"

text \<open>Transactions one after the other: which are accepted, and the ledger after them.\<close>

fun ledger_run :: "transaction list \<Rightarrow> ledger \<Rightarrow> bool list \<times> ledger" where
  "ledger_run [] L = ([], L)"
| "ledger_run (t # ts) L =
     (case ledger_post t L of
        None \<Rightarrow> (case ledger_run ts L of (bs, L') \<Rightarrow> (False # bs, L'))
      | Some L1 \<Rightarrow> (case ledger_run ts L1 of (bs, L') \<Rightarrow> (True # bs, L')))"

lemma ledger_take_Some:
  "ledger_take i m L = Some L' \<longleftrightarrow> (\<exists>f. L i = Some (Active, f) \<and> m \<le> f \<and> L' = L(i \<mapsto> (Active, f - m)))"
  by (auto simp: ledger_take_def split: option.splits account_status.splits)

lemma ledger_give_Some:
  "ledger_give i m L = Some L' \<longleftrightarrow> (\<exists>f. L i = Some (Active, f) \<and> f + m \<le> max_amount \<and> L' = L(i \<mapsto> (Active, f + m)))"
  by (auto simp: ledger_give_def split: option.splits account_status.splits)

lemmas ledger_Some = ledger_take_Some ledger_give_Some bind_eq_Some_conv

text \<open>A transaction that is accepted moves every account by its share.\<close>

lemma ledger_post_delta:
  "ledger_post t L = Some L' \<Longrightarrow> L' i = map_option (\<lambda>(st, f). (st, f + txn_delta t i)) (L i)"
  by (cases t) (auto simp: ledger_Some txn_delta_def option.map_id id_def [symmetric] case_prod_beta split: if_splits)

text \<open>When it is accepted: the rules of the bank.\<close>

definition ledger_accepts :: "transaction \<Rightarrow> ledger \<Rightarrow> bool" where
  "ledger_accepts t L \<longleftrightarrow>
     0 < amount (amount_of t) \<and> debit_account t \<noteq> credit_account t \<and>
     (\<forall>i \<in> set_option (debit_account t). \<exists>f. L i = Some (Active, f) \<and> amount (amount_of t) \<le> f) \<and>
     (\<forall>i \<in> set_option (credit_account t). \<exists>f. L i = Some (Active, f) \<and> f + amount (amount_of t) \<le> max_amount)"

lemma ledger_post_accepts: "ledger_post t L = None \<longleftrightarrow> \<not> ledger_accepts t L"
proof -
  have "(\<exists>L'. ledger_post t L = Some L') \<longleftrightarrow> ledger_accepts t L"
    by (cases t) (auto simp: ledger_Some ledger_accepts_def)
  then show ?thesis by (metis not_None_eq)
qed

section \<open>The accounts as a ledger\<close>

definition ledger_of :: "(account_id \<Rightarrow> account option) \<Rightarrow> ledger" where
  "ledger_of v i = map_option (\<lambda>a. (acc_status a, funds a)) (v i)"

lemma found_in_plan:
  assumes "view_ok v" "\<forall>i \<in> set (lock_plan t). v i \<noteq> None" "i \<in> set (lock_plan t)"
  shows "find_account (loaded_from t v) i = v i"
proof -
  obtain a where a: "v i = Some a" using assms(2,3) by blast
  then have "acc_id a = i" "a \<in> set (loaded_from t v)"
    using assms(1,3) by (force simp: view_ok_def loaded_from_def)+
  moreover have "distinct (map acc_id (loaded_from t v))"
    using loaded_from_ids [OF assms(1,2)] by (simp add: lock_plan_def distinct_involved)
  ultimately show ?thesis using find_account_distinct a by metis
qed

lemma verdict_loaded_from:
  "process_verdict t v = None \<longleftrightarrow>
     (\<forall>i \<in> set (lock_plan t). v i \<noteq> None) \<and> validate t (loaded_from t v) \<and> \<not> credit_overflows t (loaded_from t v)"
proof (cases "List.find (\<lambda>i. v i = None) (lock_plan t)")
  case None
  then have "\<forall>i \<in> set (lock_plan t). v i \<noteq> None" using None by (auto simp: find_None_iff)
  then show ?thesis by (simp add: process_verdict_def loaded_from_def None Let_def)
next
  case (Some i)
  then have "v i = None" "i \<in> set (lock_plan t)" unfolding find_Some_iff by (auto simp del: set_lock_plan)
  then show ?thesis using Some by (auto simp: process_verdict_def)
qed

text \<open>The code's verdict is the ledger's.\<close>

lemma verdict_ledger:
  assumes "view_ok v"
  shows "process_verdict t v = None \<longleftrightarrow> ledger_post t (ledger_of v) \<noteq> None"
proof (cases "\<forall>i \<in> set (lock_plan t). v i \<noteq> None")
  case True
  note found = found_in_plan [OF assms True]
  have "validate t (loaded_from t v) \<and> \<not> credit_overflows t (loaded_from t v) \<longleftrightarrow> ledger_accepts t (ledger_of v)"
  proof (cases t)
    case (Deposit i m)
    then show ?thesis using found [of i] True
      by (auto simp: ledger_accepts_def set_involved credit_overflows_def ledger_of_def is_positive_iff)
  next
    case (Withdraw i m)
    then show ?thesis using found [of i] True
      by (auto simp: ledger_accepts_def set_involved credit_overflows_def ledger_of_def is_positive_iff can_withdraw_def can_subtract_iff)
  next
    case (Transfer i j m)
    then show ?thesis using found [of i] found [of j] True
      by (auto simp: ledger_accepts_def set_involved credit_overflows_def ledger_of_def is_positive_iff can_subtract_iff)
  qed
  then show ?thesis using True by (simp add: verdict_loaded_from ledger_post_accepts)
next
  case False
  then obtain i where "i \<in> set (involved_accounts t)" "v i = None" by auto
  then have "\<not> ledger_accepts t (ledger_of v)" by (auto simp: set_involved ledger_of_def ledger_accepts_def)
  then show ?thesis using False by (simp add: verdict_loaded_from ledger_post_accepts)
qed

lemma posted_ledger:
  assumes "view_ok v" "posted_view t v v'" "ledger_post t (ledger_of v) = Some L"
  shows "L = ledger_of v'"
proof
  fix i
  show "L i = ledger_of v' i"
  proof (cases "v i")
    case None
    then have "v' i = None" using spec [OF assms(2) [unfolded posted_view_def], of i] by simp
    then show ?thesis using None ledger_post_delta [OF assms(3), of i] by (simp add: ledger_of_def)
  next
    case (Some a)
    then obtain a' where a': "v' i = Some a'" "posted t a a'" using posted_view_at [OF assms(2)] by blast
    have "acc_id a = i" using assms(1) Some by (simp add: view_ok_def)
    moreover have "acc_status a' = acc_status a" using a'(2) by (auto simp: posted_def split: if_splits)
    ultimately show ?thesis
      using Some a' ledger_post_delta [OF assms(3), of i] posted_funds [OF a'(2)] by (simp add: ledger_of_def)
  qed
qed

context reliable_stores begin

lemma post_view_ledger:
  assumes "aok a" "view_ok (aview a)" "money_ok (amount_of t)"
  shows "ledger_of (post_view t (aview a)) =
    (case ledger_post t (ledger_of (aview a)) of None \<Rightarrow> ledger_of (aview a) | Some L \<Rightarrow> L)"
proof (cases "process_verdict t (aview a)")
  case None
  then obtain L where L: "ledger_post t (ledger_of (aview a)) = Some L" using verdict_ledger [OF assms(2)] by blast
  with posted_ledger [OF assms(2) post_view_posted [OF assms None] L] show ?thesis by simp
next
  case (Some msg)
  then have "ledger_post t (ledger_of (aview a)) = None" using verdict_ledger [OF assms(2), of t] by simp
  with Some show ?thesis by (simp add: post_view_def)
qed

text \<open>A serial order of runs is a run of the ledger.\<close>

lemma serial_ledger:
  fixes p :: "('a, 't, 'u) processor"
  assumes "serial (aview (pr_accounts p)) rs v'" "\<forall>r \<in> set rs. good_run r"
    "aok (pr_accounts p)" "view_ok (aview (pr_accounts p))" "wal_inv (pr_wal p)"
  shows "ledger_run (map rn_txn rs) (ledger_of (aview (pr_accounts p))) = (map succeeded rs, ledger_of v')"
  using assms
proof (induction rs arbitrary: p)
  case Nil
  then show ?case by simp
next
  case (Cons r rs)
  have good: "good_env (rn_env r)" "money_ok (amount_of (rn_txn r))" using Cons.prems(2) by (simp_all add: good_run_def)
  let ?v = "aview (pr_accounts p)"
  obtain p1 where run: "process_impl repos (rn_env r) (rn_txn r) (rn_id r) p =
      (Inr (verdict_result (rn_env r) (rn_id r) (rn_txn r) ?v), p1)"
    and p1: "aok (pr_accounts p1)" "aview (pr_accounts p1) = post_view (rn_txn r) ?v" "wal_inv (pr_wal p1)"
    by (rule process_impl_posts [OF Cons.prems(3,4) good(2) Cons.prems(5) good(1)])
  have vok: "view_ok (aview (pr_accounts p1))" unfolding p1(2) by (rule post_view_ok [OF Cons.prems(3,4) good(2)])
  have rest: "ledger_run (map rn_txn rs) (ledger_of (aview (pr_accounts p1))) = (map succeeded rs, ledger_of v')"
    using Cons.IH [OF _ _ p1(1) vok p1(3)] Cons.prems(1,2) p1(2) by simp
  have "succeeded r \<longleftrightarrow> ledger_post (rn_txn r) (ledger_of ?v) \<noteq> None"
    using Cons.prems(1) verdict_ledger [OF Cons.prems(4), of "rn_txn r"]
    by (simp add: succeeded_def verdict_result_def split: option.splits)
  then show ?case using rest post_view_ledger [OF Cons.prems(3,4) good(2)] p1(2) by (simp split: option.splits)
qed

end

lemma mem_ok_view:
  assumes "mem_accounts_ok m" "view_ok (mem_accounts_view m)"
  shows "mem_ok m"
proof -
  have "account_ok (snd e)" if e: "e \<in> set m" for e
  proof (cases e)
    case (Pair k a)
    then have "mem_accounts_view m (Id k) = Some a" using e mem_view_entries [OF assms(1), of k a] by simp
    then show ?thesis using assms(2) Pair by (simp add: view_ok_def)
  qed
  then show ?thesis using assms(1) by (simp add: mem_ok_def accounts_ok_def list_all_iff)
qed

definition bank_ledger :: "(memory_accounts, 't, 'u) processor \<Rightarrow> ledger" where
  "bank_ledger p = ledger_of (mem_accounts_view (pr_accounts p))"

lemma sample_ledger:
  "bank_ledger sample_processor (Id 1) = Some (Active, 50000)" "bank_ledger sample_processor (Id 2) = Some (Active, 1000)"
  by (simp_all add: bank_ledger_def ledger_of_def sample_processor_def sample_accounts_def sample_account_def
      mem_accounts_view_def amount_def)

section \<open>Properties\<close>

text \<open>
  C9: the processor implements the ledger, on the in-memory repositories. On accounts and an amount in range, with
  a journal in order and with every write of the journal succeeding (\<open>good_env\<close>), a call of \<open>process_impl\<close>
  returns; it succeeds exactly if the ledger of integer balances accepts the transaction, and leaves the accounts
  of the ledger after it, or the same ledger if it is refused; the accounts stay in range and the journal
  in order, so that the next call refines the ledger again.
\<close>

theorem process_refines_ledger:
  assumes "mem_ok (pr_accounts s)" "money_ok (amount_of t)" "wal_inv (pr_wal s)" "good_env env"
  shows "\<exists>res s'. process_impl mem_repositories env t i s = (Inr res, s') \<and>
    (result_ok res \<longleftrightarrow> ledger_post t (bank_ledger s) \<noteq> None) \<and>
    bank_ledger s' = (case ledger_post t (bank_ledger s) of None \<Rightarrow> bank_ledger s | Some L \<Rightarrow> L) \<and>
    mem_ok (pr_accounts s') \<and> wal_inv (pr_wal s')"
proof -
  let ?v = "mem_accounts_view (pr_accounts s)"
  note ok = mem_system_start [OF assms(1)]
  obtain s' where s': "process_impl mem_repositories env t i s = (Inr (verdict_result env i t ?v), s')"
    "mem_accounts_ok (pr_accounts s')" "mem_accounts_view (pr_accounts s') = post_view t ?v" "wal_inv (pr_wal s')"
    by (rule mem.process_impl_posts [OF ok assms(2,3,4)])
  have "view_ok (mem_accounts_view (pr_accounts s'))" unfolding s'(3) by (rule mem.post_view_ok [OF ok assms(2)])
  then have "mem_ok (pr_accounts s')" using mem_ok_view s'(2) by blast
  moreover have "result_ok (verdict_result env i t ?v) \<longleftrightarrow> ledger_post t (bank_ledger s) \<noteq> None"
    using verdict_ledger [OF ok(2), of t] by (cases "process_verdict t ?v") (simp_all add: verdict_result_def bank_ledger_def)
  ultimately show ?thesis
    using s' mem.post_view_ledger [OF ok assms(2)] unfolding bank_ledger_def by simp
qed

theorem process_refines_ledger_witness:
  "\<exists>res s'. process_impl mem_repositories sample_env sample_transfer (Id 1) sample_processor = (Inr res, s') \<and>
     result_ok res \<and> bank_ledger s' (Id 2) = Some (Active, 1300)"
proof -
  have post: "ledger_post sample_transfer (bank_ledger sample_processor) =
      Some ((bank_ledger sample_processor)(Id 1 \<mapsto> (Active, 49700), Id 2 \<mapsto> (Active, 1300)))"
    using sample_ledger by (simp add: sample_transfer_def ledger_take_def ledger_give_def amount_def)
  have "good_env sample_env" by (simp add: good_env_def)
  from process_refines_ledger [OF sample_mem_ok sample_transfer_ok sample_wal_inv this, of "Id 1"] post
  show ?thesis by auto
qed

text \<open>
  C10: so do all calls together, on the in-memory repositories. Start with accounts in range, a journal in order
  and all mutexes free, and let all calls have amounts in range and all their journal writes succeed
  (\<open>good_run\<close>). When interleaved calls have all returned, there is an order of them, in which a call that had
  returned when another one started comes first, such that the ledger, given the transactions in this order,
  accepts exactly those that were answered with success and ends as the accounts of the bank.
\<close>

theorem concurrent_runs_refine_ledger:
  assumes "(run_step mem_repositories)\<^sup>*\<^sup>* (idle_system p) s1" "(run_step mem_repositories)\<^sup>*\<^sup>* s1 s"
    "\<forall>r \<in> set (sy_runs s). good_run r \<and> returned r"
    "mem_ok (pr_accounts p)" "wal_inv (pr_wal p)" "\<forall>i. holder (pr_locks p) i = None"
  shows "\<exists>before after. distinct (before @ after) \<and> set (before @ after) = {..<length (sy_runs s)} \<and>
    {k. k < length (sy_runs s1) \<and> returned (sy_runs s1 ! k)} \<subseteq> set before \<and>
    {length (sy_runs s1)..<length (sy_runs s)} \<subseteq> set after \<and>
    ledger_run (map (\<lambda>k. rn_txn (sy_runs s ! k)) (before @ after)) (bank_ledger p) =
      (map (\<lambda>k. succeeded (sy_runs s ! k)) (before @ after), bank_ledger (sy_proc s))"
proof -
  obtain before after q where order: "distinct (before @ after)" "set (before @ after) = {..<length (sy_runs s)}"
    "{k. k < length (sy_runs s1) \<and> returned (sy_runs s1 ! k)} \<subseteq> set before"
    "{length (sy_runs s1)..<length (sy_runs s)} \<subseteq> set after"
    "serial (mem_accounts_view (pr_accounts p)) (map (\<lambda>k. sy_runs s ! k) (before @ after))
       (mem_accounts_view (pr_accounts (sy_proc s)))"
    by (rule returned_order [OF assms])
  have "\<forall>r \<in> set (map (\<lambda>k. sy_runs s ! k) (before @ after)). good_run r"
    using assms(3) order(2) unfolding set_map by auto
  from mem.serial_ledger [OF order(5) this mem_system_start [OF assms(4)] assms(5)]
  show ?thesis using order(1-4) by (intro exI [of _ before] exI [of _ after]) (simp add: bank_ledger_def comp_def)
qed

theorem concurrent_runs_refine_ledger_witness:
  "\<exists>s. (run_step mem_repositories)\<^sup>*\<^sup>* (idle_system sample_processor) s \<and>
     map rn_txn (sy_runs s) = [sample_transfer, sample_transfer] \<and> bank_ledger (sy_proc s) (Id 2) = Some (Active, 1600)"
proof -
  obtain s1 s where runs: "(run_step mem_repositories)\<^sup>*\<^sup>* (idle_system sample_processor) s1"
    "(run_step mem_repositories)\<^sup>*\<^sup>* s1 s" "map rn_txn (sy_runs s) = [sample_transfer, sample_transfer]"
    "\<forall>r \<in> set (sy_runs s). good_run r \<and> returned r" using two_transfers_returned in_range_steps by metis
  have len: "length (sy_runs s) = 2" using arg_cong [OF runs(3), of length] by simp
  obtain before after where order: "distinct (before @ after)" "set (before @ after) = {..<length (sy_runs s)}"
    "ledger_run (map (\<lambda>k. rn_txn (sy_runs s ! k)) (before @ after)) (bank_ledger sample_processor) =
      (map (\<lambda>k. succeeded (sy_runs s ! k)) (before @ after), bank_ledger (sy_proc s))"
    using concurrent_runs_refine_ledger [OF runs(1,2,4) sample_mem_ok sample_wal_inv sample_locks]
    by (elim exE conjE) (rule that)
  have "rn_txn (sy_runs s ! k) = sample_transfer" if "k < length (sy_runs s)" for k
    using arg_cong [OF runs(3), of "\<lambda>ts. ts ! k"] that len by (cases k) (auto simp: less_2_cases_iff nth_Cons')
  then have "map (\<lambda>k. rn_txn (sy_runs s ! k)) (before @ after) = map (\<lambda>k. sample_transfer) (before @ after)"
    using order(2) by (intro map_cong refl) auto
  moreover have "length (before @ after) = 2" using distinct_card [OF order(1)] order(2) len by simp
  ultimately have "map (\<lambda>k. rn_txn (sy_runs s ! k)) (before @ after) = [sample_transfer, sample_transfer]"
    by (simp add: map_replicate_const numeral_2_eq_2 del: map_append length_append)
  with order(3) have "snd (ledger_run [sample_transfer, sample_transfer] (bank_ledger sample_processor)) =
      bank_ledger (sy_proc s)" by simp
  moreover have "snd (ledger_run [sample_transfer, sample_transfer] (bank_ledger sample_processor)) (Id 2) = Some (Active, 1600)"
    using sample_ledger by (simp add: sample_transfer_def ledger_take_def ledger_give_def amount_def)
  ultimately show ?thesis using rtranclp_trans [OF runs(1,2)] runs(3) by (intro exI [of _ s]) simp
qed

end
