(* ===== verification/Bank_Freeze_Race.thy ===== *)
theory Bank_Freeze_Race
  imports Bank_Interleaving_Props Bank_Services_Correct
begin

text \<open>
  src/services/BankingService.cpp: \<open>freeze\<close> beside the transactions of the processor's consumers. It reads
  and writes an account without the mutex of the account, so either side can overwrite the other.
\<close>

section \<open>The balance sheet of one account\<close>

lemma mem_total_entries:
  assumes "mem_accounts_ok m"
  shows "mem_total m = (\<Sum>e\<in>set m. funds (snd e))"
proof -
  have "distinct m"
    using assms by (auto simp: mem_accounts_ok_def omap_ok_def strict_sorted_iff distinct_map)
  then show ?thesis by (simp add: mem_total_def total_funds_def comp_def sum_list_distinct_conv_sum_set)
qed

lemma mem_total_update:
  assumes ok: "mem_accounts_ok m" "mem_accounts_ok m'" and a: "mem_accounts_view m i = Some a"
    and upd: "mem_accounts_view m' = (mem_accounts_view m)(i \<mapsto> a')"
  shows "mem_total m' = mem_total m - funds a + funds a'"
proof -
  let ?rest = "set m - {(id_value i, a)}"
  have entry: "(k, x) \<in> set m \<longleftrightarrow> mem_accounts_view m (Id k) = Some x"
    "(k, x) \<in> set m' \<longleftrightarrow> mem_accounts_view m' (Id k) = Some x" for k x
    using mem_view_entries ok by blast+
  have i: "Id (id_value i) = i" by (cases i) simp
  have set': "set m' = insert (id_value i, a') ?rest"
  proof (rule set_eqI)
    fix e :: "u64 \<times> account"
    obtain k x where e: "e = (k, x)" by fastforce
    show "e \<in> set m' \<longleftrightarrow> e \<in> insert (id_value i, a') ?rest"
    proof (cases "Id k = i")
      case True
      then have "k = id_value i" by auto
      then show ?thesis using entry a upd i by (auto simp: e)
    next
      case False
      then have "k \<noteq> id_value i" using i by auto
      then show ?thesis using entry upd False by (auto simp: e)
    qed
  qed
  have "(id_value i, a) \<in> set m" using entry(1) a i by simp
  then have "(\<Sum>e\<in>set m. funds (snd e)) = funds a + (\<Sum>e\<in>?rest. funds (snd e))"
    using sum.remove [of "set m" "(id_value i, a)" "\<lambda>e. funds (snd e)"] by simp
  moreover have "(id_value i, a') \<notin> ?rest" using entry(1) a i by auto
  then have "(\<Sum>e\<in>set m'. funds (snd e)) = funds a' + (\<Sum>e\<in>?rest. funds (snd e))"
    unfolding set' by (subst sum.insert) auto
  ultimately show ?thesis using mem_total_entries ok by simp
qed

lemma funds_set_status [simp]: "funds (set_status a st) = funds a"
  by (simp add: set_status_def)

section \<open>The freeze overwrites a transaction\<close>

context reliable_stores begin

lemma freeze_writes_run:
  assumes ok: "aok (pr_accounts (bk_proc b))" and id: "acc_id a = i"
  obtains b' where "freeze_writes repos now i a b = (Inr void_success, b')" "aok (pr_accounts (bk_proc b'))"
    "aview (pr_accounts (bk_proc b')) = (aview (pr_accounts (bk_proc b)))(i \<mapsto> set_status a Frozen)"
    "pr_transactions (bk_proc b') = pr_transactions (bk_proc b)" "pr_wal (bk_proc b') = pr_wal (bk_proc b)"
proof -
  obtain r where save: "ar_save (rp_accounts repos) (pr_accounts (bk_proc b)) (set_status a Frozen) = (Inr (), r)"
    using acc.save_total [OF ok] by blast
  have r: "aok r" "aview r = (aview (pr_accounts (bk_proc b)))(i \<mapsto> set_status a Frozen)"
    using acc.save_ok [OF ok save] id by simp_all
  obtain v b' where app: "audit_append repos now system_actor ''account.frozen'' (''account '' @ to_string_u64 (id_value i))
      (b\<lparr>bk_proc := (bk_proc b)\<lparr>pr_accounts := r\<rparr>\<rparr>) = (v, b')" by fastforce
  have "same_but_audit (b\<lparr>bk_proc := (bk_proc b)\<lparr>pr_accounts := r\<rparr>\<rparr>) b'"
    using audit_append_same app by (metis snd_conv)
  from same_but_audit_simps [OF this] show ?thesis
    using that [of b'] r save app by (simp add: freeze_writes_def)
qed

lemma freeze_reads_active:
  assumes "aok (pr_accounts (bk_proc b))"
  shows "freeze_reads repos i b = Inr (Inr a) \<longleftrightarrow>
    aview (pr_accounts (bk_proc b)) i = Some a \<and> acc_status a \<noteq> Closed \<and> acc_status a \<noteq> Frozen"
  using find_account_view [OF assms, of i] by (auto simp: freeze_reads_def split: option.splits if_splits)

end

section \<open>Properties\<close>

text \<open>
  C30: a freeze undoes a transaction that is saved while it works. When a transaction of a consumer that names
  the account succeeds between the read and the write of \<open>freeze\<close>, the write still succeeds and puts back
  the balance from before the transaction: the account has lost its share of it, while the other account
  keeps its own, the record is in the transactions, and the sum of all balances is wrong by that share.
\<close>

theorem freeze_undoes_transaction:
  assumes "freeze_reads mem_repositories i b = Inr (Inr a)"
    "on_processor (process_one mem_repositories env t) b = (Inr (result_success rec), b1)"
    "mem_ok (pr_accounts (bk_proc b))" "money_ok (amount_of t)"
  shows "\<exists>b2. freeze_writes mem_repositories now i a b1 = (Inr void_success, b2) \<and>
    mem_accounts_view (pr_accounts (bk_proc b2)) i = Some (set_status a Frozen) \<and>
    pr_transactions (bk_proc b2) = pr_transactions (bk_proc b) @ [rec] \<and>
    mem_total (pr_accounts (bk_proc b2)) = mem_total (pr_accounts (bk_proc b)) + net_flow t - txn_delta t i"
proof -
  obtain n p where run: "process_impl mem_repositories env t n ((bk_proc b)\<lparr>pr_next_id := pr_next_id (bk_proc b) + 1\<rparr>) =
      (Inr (result_success rec), p)" and p: "bk_proc b1 = p"
    using assms(2) by (auto simp: on_processor_def process_one_def fresh_id_def split: prod.splits)
  have ok: "mem_accounts_ok (pr_accounts (bk_proc b))" using assms(3) by (simp add: mem_ok_def)
  note effects = mem.success_effects [OF run _ _ assms(4), simplified, OF ok mem_view_ok [OF assms(3)]]
  have a: "mem_accounts_view (pr_accounts (bk_proc b)) i = Some a"
    using assms(1) mem.freeze_reads_active [OF ok] by blast
  have id: "acc_id a = i" using mem_view_ok [OF assms(3)] a by (simp add: view_ok_def)
  obtain a1 where a1: "mem_accounts_view (pr_accounts p) i = Some a1" "posted t a a1"
    using posted_view_at [of t "mem_accounts_view (pr_accounts (bk_proc b))" "mem_accounts_view (pr_accounts p)" i a]
      effects a by blast
  have total: "mem_ok (pr_accounts p)" "mem_total (pr_accounts p) = mem_total (pr_accounts (bk_proc b)) + net_flow t"
    using mem_success_total [OF run _ assms(4)] assms(3) by simp_all
  have okp: "mem_accounts_ok (pr_accounts p)" using total(1) by (simp add: mem_ok_def)
  obtain b2 where b2: "freeze_writes mem_repositories now i a b1 = (Inr void_success, b2)"
    "mem_accounts_ok (pr_accounts (bk_proc b2))"
    "mem_accounts_view (pr_accounts (bk_proc b2)) = (mem_accounts_view (pr_accounts p))(i \<mapsto> set_status a Frozen)"
    "pr_transactions (bk_proc b2) = pr_transactions p"
    using mem.freeze_writes_run [of b1 a i now] okp id p by blast
  have "mem_total (pr_accounts (bk_proc b2)) = mem_total (pr_accounts p) - funds a1 + funds a"
    using mem_total_update [OF okp b2(2) a1(1) b2(3)] by simp
  then show ?thesis using b2 total(2) posted_funds [OF a1(2)] id effects by auto
qed

theorem freeze_undoes_transaction_witness:
  "\<exists>b1 b2 rec. on_processor (process_one mem_repositories sample_env (Deposit (Id 2) (Mk_Money 700))) sample_bank =
       (Inr (result_success rec), b1) \<and>
     freeze_writes mem_repositories 0 (Id 2) (sample_account 2 1000) b1 = (Inr void_success, b2) \<and>
     length (pr_transactions (bk_proc b2)) = 1 \<and> mem_total (pr_accounts (bk_proc b2)) = 51000"
proof -
  let ?t = "Deposit (Id 2) (Mk_Money 700)"
  have m: "money_ok (amount_of ?t)" by (simp add: money_ok_def amount_def)
  have "process_verdict ?t (mem_accounts_view (pr_accounts sample_processor)) = None" by code_simp
  then obtain rec b1 where run: "on_processor (process_one mem_repositories sample_env ?t) sample_bank =
      (Inr (result_success rec), b1)" using m by (rule sample_success)
  have read: "freeze_reads mem_repositories (Id 2) sample_bank = Inr (Inr (sample_account 2 1000))" by code_simp
  have ok: "mem_ok (pr_accounts (bk_proc sample_bank))" using sample_mem_ok by (simp add: sample_bank_def)
  have "pr_transactions (bk_proc sample_bank) = []" "mem_total (pr_accounts (bk_proc sample_bank)) = 51000"
    by (simp_all add: sample_bank_def sample_processor_def mem_total_def total_funds_def sample_accounts_def
        sample_account_def amount_def)
  with freeze_undoes_transaction [OF read run ok m, of 0] run show ?thesis by (auto simp: txn_delta_def amount_def)
qed

text \<open>
  A transaction undoes a freeze that comes while it works. When \<open>freeze\<close> answers success between the load
  of a run that names the account and its save, the save still succeeds and writes back the account as it
  was loaded, active, with the transaction posted: the account is not frozen any more.
\<close>

theorem transaction_undoes_freeze:
  assumes "rn_phase r = Saving (loaded_from (rn_txn r) (mem_accounts_view (pr_accounts (bk_proc b))))"
    "mem_ok (pr_accounts (bk_proc b))" "money_ok (amount_of (rn_txn r))" "i \<in> set (involved_accounts (rn_txn r))"
    "process_verdict (rn_txn r) (mem_accounts_view (pr_accounts (bk_proc b))) = None"
    "bank_freeze mem_repositories now i b = (Inr void_success, b1)"
  shows "\<exists>p a a'. work_step mem_repositories r (bk_proc b1) = (Marking, p) \<and>
    mem_accounts_view (pr_accounts (bk_proc b)) i = Some a \<and> mem_accounts_view (pr_accounts p) i = Some a' \<and>
    posted (rn_txn r) a a' \<and> acc_status a' = Active"
proof -
  let ?t = "rn_txn r" and ?v = "mem_accounts_view (pr_accounts (bk_proc b))"
  let ?loaded = "loaded_from ?t ?v"
  have ok: "mem_accounts_ok (pr_accounts (bk_proc b))" using assms(2) by (simp add: mem_ok_def)
  note vok = mem_view_ok [OF assms(2)]
  obtain as' where as': "txn_apply ?t ?loaded = (Inr (), as')" "post_view ?t ?v = put_accounts as' ?v"
    using mem.accepted_loaded [OF ok vok assms(3,5)] by (auto simp: post_none [OF assms(5)])
  have ids: "map acc_id as' = lock_plan ?t"
    using txn_apply_ids [of ?t ?loaded] as'(1) loaded_from_ids [OF vok verdict_found [OF assms(5)]] by simp
  then have dist: "distinct (map acc_id as')" by (simp add: lock_plan_def distinct_involved)
  have ok1: "mem_accounts_ok (pr_accounts (bk_proc b1))"
    using mem.freeze_outcome [OF ok, of now i] assms(6) by (auto simp: status_changed_def)
  obtain m where save: "save_all (ar_save (rp_accounts mem_repositories)) as' (pr_accounts (bk_proc b1)) = (Inr (), m)"
    using mem.save_all_total [OF ok1] by blast
  have view: "mem_accounts_view m = put_accounts as' (mem_accounts_view (pr_accounts (bk_proc b1)))"
    using mem.save_all_view [OF ok1 save dist] by blast
  have "i \<in> acc_id ` set as'" using assms(4) ids by (metis set_lock_plan set_map)
  then obtain a' where a': "find_account as' i = Some a'" by (cases "find_account as' i") (auto simp: find_account_None)
  then have after: "mem_accounts_view m i = Some a'" "post_view ?t ?v i = Some a'"
    unfolding view as'(2) by (simp_all add: put_accounts_def)
  obtain a where a: "?v i = Some a" using verdict_involved [OF assms(5)] assms(4) by blast
  have "posted ?t a a'"
    using posted_view_at [OF mem.post_view_posted [OF ok vok assms(3,5)] a] after(2) by simp
  moreover have "acc_id a = i" using vok a by (simp add: view_ok_def)
  moreover have "acc_status a = Active" using verdict_active [OF assms(5,4) vok] a by simp
  ultimately have "posted ?t a a' \<and> acc_status a' = Active" using assms(4) by (simp add: posted_def)
  moreover have "work_step mem_repositories r (bk_proc b1) = (Marking, (bk_proc b1)\<lparr>pr_accounts := m\<rparr>)"
    using assms(1) as'(1) save by (simp add: work_step_def save_accounts_io_def continue_with_def)
  ultimately show ?thesis using a after(1) by auto
qed

theorem transaction_undoes_freeze_witness:
  "\<exists>b1 r p a'. bank_freeze mem_repositories 0 (Id 2) sample_bank = (Inr void_success, b1) \<and>
     work_step mem_repositories r (bk_proc b1) = (Marking, p) \<and>
     mem_accounts_view (pr_accounts p) (Id 2) = Some a' \<and> acc_status a' = Active \<and> funds a' = 1300"
proof -
  let ?b = "sample_bank" and ?v = "mem_accounts_view (pr_accounts (bk_proc sample_bank))"
  let ?r = "(new_run sample_transfer (Id 1) sample_env)\<lparr>rn_phase := Saving (loaded_from sample_transfer ?v)\<rparr>"
  have ok: "mem_ok (pr_accounts (bk_proc ?b))" using sample_mem_ok by (simp add: sample_bank_def)
  then have "mem_accounts_ok (pr_accounts (bk_proc ?b))" by (simp add: mem_ok_def)
  moreover have v: "?v (Id 2) = Some (sample_account 2 1000)"
    by (simp add: sample_bank_def sample_processor_def sample_accounts_def mem_accounts_view_def)
  ultimately obtain b1 where b1: "bank_freeze mem_repositories 0 (Id 2) ?b = (Inr void_success, b1)"
    using mem.freeze_outcome [of ?b 0 "Id 2"] by (auto simp: sample_account_def)
  have phase: "rn_phase ?r = Saving (loaded_from (rn_txn ?r) ?v)" and txn: "rn_txn ?r = sample_transfer"
    by (simp_all add: new_run_def)
  have verdict: "process_verdict (rn_txn ?r) ?v = None" using sample_verdict by (simp add: new_run_def sample_bank_def)
  have m: "money_ok (amount_of (rn_txn ?r))" and i: "Id 2 \<in> set (involved_accounts (rn_txn ?r))"
    using sample_transfer_ok unfolding txn by (simp_all add: sample_transfer_def)
  obtain p a a' where p: "work_step mem_repositories ?r (bk_proc b1) = (Marking, p)" "?v (Id 2) = Some a"
    "mem_accounts_view (pr_accounts p) (Id 2) = Some a'" "posted (rn_txn ?r) a a'" "acc_status a' = Active"
    using transaction_undoes_freeze [OF phase ok m i verdict b1] by blast
  have "a = sample_account 2 1000" using p(2) v by simp
  then have "funds a' = 1300" using posted_funds [OF p(4)] unfolding txn
    by (simp add: sample_transfer_def txn_delta_def sample_account_def amount_def)
  then show ?thesis using b1 p(1,3,5) by blast
qed

end
