(* ===== verification/Bank_Services_Audit.thy ===== *)
theory Bank_Services_Audit
  imports Bank_Sample Bank_Sqlite_Processor
begin

text \<open>
  The audit writes of src/services are best effort: no answer of AuthService depends on them. On an SQLite
  audit table of an earlier process they are refused at first, since the ids start again.
\<close>

text \<open>What a client of AuthService can tell apart: its answers come from these fields alone.\<close>

definition same_clients :: "('a, 't, 'u, 'c) bank \<Rightarrow> ('a2, 't2, 'u2, 'c) bank \<Rightarrow> bool" where
  "same_clients b b' \<longleftrightarrow>
     bk_customers b' = bk_customers b \<and> bk_sessions b' = bk_sessions b \<and> bk_dummy b' = bk_dummy b"

lemma audit_append_clients: "audit_append repos now actor action details b = (x, b') \<Longrightarrow> same_clients b b'"
  by (auto simp: audit_append_def same_clients_def Let_def split: prod.splits)

lemma same_clients_trans:
  "same_clients b c \<Longrightarrow> same_clients c d \<Longrightarrow> same_clients b d" "same_clients b c \<Longrightarrow> same_clients c b"
  by (simp_all add: same_clients_def)

lemma dummy_hash_clients:
  assumes "same_clients b c" "dummy_hash kdf env b = (x, b')"
  obtains c' where "dummy_hash kdf env c = (x, c')" "same_clients b' c'"
  using assms by (auto simp: dummy_hash_def same_clients_def Let_def split: option.splits sum.splits prod.splits)

definition same_answer ::
  "((exn + session result) \<times> ('a, 't, 'u, 'c) bank) option \<Rightarrow>
   ((exn + session result) \<times> ('a2, 't2, 'u2, 'c) bank) option \<Rightarrow> bool" where
  "same_answer = rel_option (\<lambda>(x, b) (y, c). x = y \<and> same_clients b c)"

lemma audited_answer:
  assumes "same_clients b c"
  shows "same_answer
    (case audit_append repos now actor action details b of (_, b) \<Rightarrow> Some (x, b))
    (case audit_append repos' now' actor' action' details' c of (_, c) \<Rightarrow> Some (x, c))"
proof -
  obtain y b' z c' where audit: "audit_append repos now actor action details b = (y, b')"
    "audit_append repos' now' actor' action' details' c = (z, c')" by fastforce
  have "same_clients b' c'"
    using audit_append_clients [OF audit(1)] audit_append_clients [OF audit(2)] assms same_clients_trans by metis
  then show ?thesis by (simp add: same_answer_def audit)
qed

lemma login_same_answer:
  assumes "same_clients b c"
  shows "same_answer (login kdf repos crepo env i pin b) (login kdf repos' crepo env i pin c)"
proof -
  have eq: "bk_customers c = bk_customers b" "bk_sessions c = bk_sessions b" using assms by (simp_all add: same_clients_def)
  show ?thesis
  proof (cases "cr_find_by_id crepo (bk_customers b) i")
    case (Inl e)
    then show ?thesis using assms by (simp add: login_def eq same_answer_def)
  next
    case (Inr found)
    show ?thesis
    proof (cases found)
      case None
      obtain x b1 where b1: "dummy_hash kdf env b = (x, b1)" by fastforce
      obtain c1 where c1: "dummy_hash kdf env c = (x, c1)" "same_clients b1 c1" by (rule dummy_hash_clients [OF assms b1])
      then show ?thesis
        using audited_answer [OF c1(2)] by (cases x) (simp_all add: login_def eq Inr None b1 same_answer_def)
    next
      case (Some cust)
      have sessions: "same_clients (b\<lparr>bk_sessions := m\<rparr>) (c\<lparr>bk_sessions := m\<rparr>)" for m
        using assms by (simp add: same_clients_def)
      show ?thesis
      proof (cases "password_verify kdf pin (cust_pin_hash cust)")
        case False
        then show ?thesis using audited_answer [OF assms] by (simp add: login_def eq Inr Some)
      next
        case True
        show ?thesis
        proof (cases "session_create (le_draws env) (le_session_time env) (bk_sessions b) (cust_id cust) (cust_role cust)")
          case None
          then show ?thesis using True by (simp add: login_def eq Inr Some same_answer_def)
        next
          case created: (Some sm)
          then show ?thesis using True audited_answer [OF sessions]
            by (cases sm) (simp add: login_def eq Inr Some)
        qed
      qed
    qed
  qed
qed

lemma logout_same_answer:
  assumes "same_clients b c"
  shows "fst (logout repos now token b) = fst (logout repos' now token c) \<and>
    same_clients (snd (logout repos now token b)) (snd (logout repos' now token c))"
proof -
  obtain x m where revoked: "session_revoke (bk_sessions b) token = (x, m)" by fastforce
  have eq: "bk_sessions c = bk_sessions b" and m: "same_clients (b\<lparr>bk_sessions := m\<rparr>) (c\<lparr>bk_sessions := m\<rparr>)"
    using assms by (simp_all add: same_clients_def)
  show ?thesis
  proof (cases x)
    case None
    then show ?thesis using m by (simp add: logout_def revoked eq)
  next
    case (Some ses)
    obtain y b' z c' where audit:
      "audit_append repos now (ses_customer_id ses) ''auth.logout'' ''success'' (b\<lparr>bk_sessions := m\<rparr>) = (y, b')"
      "audit_append repos' now (ses_customer_id ses) ''auth.logout'' ''success'' (c\<lparr>bk_sessions := m\<rparr>) = (z, c')" by fastforce
    have "same_clients b' c'"
      using audit_append_clients [OF audit(1)] audit_append_clients [OF audit(2)] m same_clients_trans by metis
    then show ?thesis by (simp add: logout_def revoked eq Some audit)
  qed
qed

text \<open>Every answer of a login comes after one audit write.\<close>

lemma login_audits:
  assumes "login kdf repos crepo env i pin b = Some (Inr res, b')"
  obtains x c now actor action details where "audit_append repos now actor action details c = (x, b')"
    "bk_audit_id c = bk_audit_id b" "bk_proc c = bk_proc b"
proof (cases "cr_find_by_id crepo (bk_customers b) i")
  case (Inl e)
  then show thesis using assms by (simp add: login_def)
next
  case (Inr found)
  show thesis
  proof (cases found)
    case None
    obtain y c where c: "dummy_hash kdf env b = (y, c)" by fastforce
    have same: "bk_audit_id c = bk_audit_id b" "bk_proc c = bk_proc b" using dummy_hash_same [OF c] by auto
    show thesis using assms that [OF _ same]
      by (cases y) (auto simp: login_def Inr None c split: prod.splits)
  next
    case (Some cust)
    show thesis
    proof (cases "password_verify kdf pin (cust_pin_hash cust)")
      case False
      then show thesis using assms that [where c = b] by (auto simp: login_def Inr Some split: prod.splits)
    next
      case True
      then obtain sm where sm: "session_create (le_draws env) (le_session_time env) (bk_sessions b) (cust_id cust) (cust_role cust) = Some sm"
        using assms by (auto simp: login_def Inr Some split: option.splits)
      then show thesis using assms True that [where c = "b\<lparr>bk_sessions := snd sm\<rparr>"]
        by (cases sm) (auto simp: login_def Inr Some split: prod.splits)
    qed
  qed
qed

text \<open>A bank on an audit table whose first service id is taken by an earlier process.\<close>

definition taken_entries :: "audit_entry list" where
  "taken_entries = [\<lparr>ae_id = first_service_audit_id, ae_timestamp = 50, ae_actor_id = Id 3, ae_action = ''auth.login'',
     ae_details = ''success''\<rparr>]"

definition restarted_bank :: "(memory_accounts, memory_transactions, sql_table, memory_customers) bank" where
  "restarted_bank =
     \<lparr>bk_proc = \<lparr>pr_accounts = sample_accounts, pr_transactions = [], pr_audit = audit_table taken_entries,
        pr_wal = wal_open ''wal'' (Some []), pr_locks = [], pr_queue = new_queue, pr_reserved = [], pr_next_id = 1,
        pr_next_audit_id = 1, pr_accepting = True, pr_started = False, pr_worker_count = 1\<rparr>,
      bk_customers = [(3, sample_customer)], bk_sessions = new_session_manager 50, bk_dummy = None,
      bk_audit_id = first_service_audit_id\<rparr>"

lemma sample_customer_found:
  "bk_customers b = [(3, sample_customer)] \<Longrightarrow>
     cr_find_by_id mem_customers (bk_customers b) (Id 3) = Inr (Some sample_customer)"
  by (simp add: mem_customers_def mem_customers_find_by_id_def)

lemma restarted_refusal:
  "bk_customers b = [(3, sample_customer)] \<Longrightarrow>
     \<exists>b'. login sample_kdf repos mem_customers sample_login_env (Id 3) ''12345'' b =
       Some (Inr (result_failure ''invalid credentials''), b')"
  using login_wrong_pin [OF sample_customer_found, of b sample_kdf "''12345''" repos sample_login_env]
  by (simp add: sample_pin refused_login_def)

section \<open>Properties\<close>

text \<open>
  C28: no audit failure is seen in an answer. On two banks with the same customers and sessions, but with any
  repositories, any state of the accounts and of the audit trail, and whatever their audit writes do, \<open>login\<close>
  gives the same answer, or does not return on either, and so does \<open>logout\<close>, and the sessions stay the same.
\<close>

theorem answers_ignore_audit:
  assumes "bk_customers c = bk_customers b" "bk_sessions c = bk_sessions b" "bk_dummy c = bk_dummy b"
  shows "map_option fst (login kdf repos crepo env i pin b) = map_option fst (login kdf repos' crepo env i pin c) \<and>
    map_option (bk_sessions \<circ> snd) (login kdf repos crepo env i pin b) =
      map_option (bk_sessions \<circ> snd) (login kdf repos' crepo env i pin c) \<and>
    fst (logout repos now token b) = fst (logout repos' now token c) \<and>
    bk_sessions (snd (logout repos now token b)) = bk_sessions (snd (logout repos' now token c))"
proof -
  have same: "same_clients b c" using assms by (simp add: same_clients_def)
  from login_same_answer [OF same, of kdf repos crepo env i pin repos']
  have "map_option fst (login kdf repos crepo env i pin b) = map_option fst (login kdf repos' crepo env i pin c) \<and>
      map_option (bk_sessions \<circ> snd) (login kdf repos crepo env i pin b) =
        map_option (bk_sessions \<circ> snd) (login kdf repos' crepo env i pin c)"
    unfolding same_answer_def
    by (cases rule: option.rel_cases) (auto simp: same_clients_def)
  then show ?thesis using logout_same_answer [OF same, of repos now token repos'] by (simp add: same_clients_def)
qed

theorem answers_ignore_audit_witness:
  "map_option fst (login sample_kdf sample_restart mem_customers sample_login_env (Id 3) ''12345'' restarted_bank) =
     map_option fst (login sample_kdf mem_repositories mem_customers sample_login_env (Id 3) ''12345''
       (sample_bank\<lparr>bk_customers := [(3, sample_customer)]\<rparr>)) \<and>
   fst (logout sample_restart 7 ''00'' restarted_bank) = void_failure ''invalid session''"
proof -
  let ?b = "sample_bank\<lparr>bk_customers := [(3, sample_customer)]\<rparr>"
  have same: "bk_customers ?b = bk_customers restarted_bank" "bk_sessions ?b = bk_sessions restarted_bank"
    "bk_dummy ?b = bk_dummy restarted_bank" by (simp_all add: sample_bank_def restarted_bank_def)
  have "fst (logout mem_repositories 7 ''00'' ?b) = void_failure ''invalid session''"
    by (simp add: logout_def session_revoke_def sample_bank_def new_session_manager_def)
  then show ?thesis
    using answers_ignore_audit [OF same, of sample_kdf sample_restart mem_customers sample_login_env "Id 3" "''12345''"
      mem_repositories 7 "''00''"] by simp
qed

text \<open>
  After a restart, logins leave no trace at first. The ids of the service entries start again, and they
  are primary keys of the SQLite table; while the next one is taken by an entry of the earlier process,
  a login may give any answer, but the audit table stays as it was.
\<close>

theorem restarted_logins_unaudited:
  assumes "rp_audit repos = sqlite_audit uapi" "audit_documented uapi urows"
    "bk_audit_id b = first_service_audit_id" "omap_find 1000000000000000 (urows (pr_audit (bk_proc b))) \<noteq> None"
    "login kdf repos crepo env i pin b = Some (Inr res, b')"
  shows "urows (pr_audit (bk_proc b')) = urows (pr_audit (bk_proc b))"
proof -
  obtain x c now actor action details where c: "audit_append repos now actor action details c = (x, b')"
    and same: "bk_audit_id c = bk_audit_id b" "bk_proc c = bk_proc b" by (rule login_audits [OF assms(5)])
  let ?e = "\<lparr>ae_id = bk_audit_id b, ae_timestamp = now, ae_actor_id = actor, ae_action = action, ae_details = details\<rparr>"
  obtain y u where app: "sqlite_audit_append uapi ?e (pr_audit (bk_proc b)) = (y, u)" by fastforce
  then have "pr_audit (bk_proc b') = u" using c same by (auto simp: audit_append_def assms(1) sqlite_audit_def)
  moreover have "omap_find (sint (ae_id ?e)) (urows (pr_audit (bk_proc b))) \<noteq> None"
    using assms(3,4) by (simp add: first_service_audit_id_def)
  ultimately show ?thesis using sqlite_audit_append_outcome [OF assms(2) app] by (auto simp: insert_new_Some)
qed

theorem restarted_logins_unaudited_witness:
  "\<exists>b'. login sample_kdf sample_restart mem_customers sample_login_env (Id 3) ''12345'' restarted_bank =
      Some (Inr (result_failure ''invalid credentials''), b') \<and>
    sane (pr_audit (bk_proc b')) = audit_table taken_entries"
proof -
  have "table_ok (audit_table taken_entries)"
    by (simp add: audit_table_def taken_entries_def table_ok_def omap_ok_def first_service_audit_id_def)
  then have rows: "sane (pr_audit (bk_proc restarted_bank)) = audit_table taken_entries"
    by (simp add: restarted_bank_def)
  have audit: "rp_audit sample_restart = sqlite_audit audit_engine" by (simp add: sample_restart_def)
  have "bk_audit_id restarted_bank = first_service_audit_id" "bk_customers restarted_bank = [(3, sample_customer)]"
    by (simp_all add: restarted_bank_def)
  moreover have "omap_find 1000000000000000 (sane (pr_audit (bk_proc restarted_bank))) \<noteq> None"
    unfolding rows by (simp add: audit_table_def taken_entries_def first_service_audit_id_def)
  ultimately show ?thesis
    using restarted_logins_unaudited [OF audit audit_engine_documented] restarted_refusal rows by metis
qed

end
