(* ===== verification/Bank_Json_Nesting.thy ===== *)
theory Bank_Json_Nesting
  imports Bank_Json_Roundtrip "HOL-Library.Sublist"
begin

text \<open>
  Quotes and braces of a text without backslashes: whether the reader is inside a string, and how many
  braces are open. A text that parses leaves no string and no brace open, so a torn text that is continued
  with another one does not parse.
\<close>

fun nest :: "bool \<times> int \<Rightarrow> char \<Rightarrow> bool \<times> int" where
  "nest (q, d) c =
     (if c = CHR 0x22 then (\<not> q, d)
      else if q then (q, d)
      else if c = CHR ''{'' then (q, d + 1)
      else if c = CHR ''}'' then (q, d - 1)
      else (q, d))"

text \<open>A text that opens nothing and closes nothing.\<close>

definition neutral :: "string \<Rightarrow> bool" where
  "neutral s \<longleftrightarrow> (\<forall>d. foldl nest (False, d) s = (False, d))"

lemma neutral_Nil [simp]: "neutral []"
  by (simp add: neutral_def)

lemma neutral_append: "neutral s \<Longrightarrow> neutral t \<Longrightarrow> neutral (s @ t)"
  by (simp add: neutral_def)

lemma neutral_plain: "CHR 0x22 \<notin> set s \<Longrightarrow> CHR ''{'' \<notin> set s \<Longrightarrow> CHR ''}'' \<notin> set s \<Longrightarrow> neutral s"
  by (induction s) (auto simp: neutral_def)

lemma nest_inside: "CHR 0x22 \<notin> set s \<Longrightarrow> foldl nest (True, d) s = (True, d)"
  by (induction s) auto

lemma nest_no_braces: "CHR ''{'' \<notin> set s \<Longrightarrow> CHR ''}'' \<notin> set s \<Longrightarrow> snd (foldl nest st s) = snd st"
  by (induction s arbitrary: st) (auto simp: case_prod_beta)

text \<open>Whether a string is open depends on the number of quotes alone.\<close>

lemma nest_parity: "fst (foldl nest (q, d) s) \<longleftrightarrow> (q \<longleftrightarrow> \<not> odd (count_list s (CHR 0x22)))"
  by (induction s arbitrary: q d) auto

lemma neutral_inside: "neutral s \<Longrightarrow> fst (foldl nest (True, d) s)"
  using nest_parity [of False 0 s] nest_parity [of True d s] by (simp add: neutral_def)

section \<open>The parser\<close>

text \<open>Reading \<open>s\<close> down to \<open>r\<close> changes the depth by \<open>k\<close> and leaves no string open.\<close>

definition closes :: "int \<Rightarrow> string \<Rightarrow> string \<Rightarrow> bool" where
  "closes k s r \<longleftrightarrow> suffix r s \<and>
     (CHR 0x5C \<notin> set s \<longrightarrow> (\<forall>d. foldl nest (False, d) s = foldl nest (False, d + k) r))"

lemma closes_refl [simp]: "closes 0 s s"
  by (simp add: closes_def)

lemma closes_trans: "closes k s t \<Longrightarrow> closes l t r \<Longrightarrow> closes (k + l) s r"
  by (auto simp: closes_def add.assoc dest: set_mono_suffix suffix_order.trans)

lemma closes_Cons [simp]:
  "c \<noteq> CHR 0x22 \<Longrightarrow> c \<noteq> CHR ''{'' \<Longrightarrow> c \<noteq> CHR ''}'' \<Longrightarrow> closes k s r \<Longrightarrow> closes k (c # s) r"
  "closes k s r \<Longrightarrow> closes (k + 1) (CHR ''{'' # s) r"
  "closes k s r \<Longrightarrow> closes (k - 1) (CHR ''}'' # s) r"
  by (auto simp: closes_def suffix_Cons algebra_simps)

lemma closes_skip: "closes 0 s (skip_whitespace s)"
  by (induction s) (auto simp: is_space_def)

lemma closes_peek: "peek c s \<Longrightarrow> c \<noteq> CHR 0x22 \<Longrightarrow> c \<noteq> CHR ''{'' \<Longrightarrow> c \<noteq> CHR ''}'' \<Longrightarrow> closes 0 s (tl s)"
  "peek (CHR ''}'') s \<Longrightarrow> closes (- 1) s (tl s)"
  using closes_Cons(3) [of 0 "tl s" "tl s"] by (cases s; simp add: peek_def)+

lemma closes_digit: "is_dec c \<Longrightarrow> closes k s r \<Longrightarrow> closes k (c # s) r"
  by (rule closes_Cons(1)) (auto simp: is_dec_def)

lemma closes_digits: "parse_digits v s = Some (w, r) \<Longrightarrow> closes 0 s r"
  by (induction v s rule: parse_digits.induct) (auto simp: Let_def closes_digit split: if_splits)

lemma closes_integer: "parse_integer s = Some (v, r) \<Longrightarrow> closes 0 s r"
  by (cases s) (auto simp: parse_integer_def Let_def closes_digit split: if_splits option.splits dest!: closes_digits)

lemma closes_keyword: "parse_keyword ''null'' v s = Some (w, r) \<Longrightarrow> closes 0 s r"
proof -
  assume "parse_keyword ''null'' v s = Some (w, r)"
  then have "s = ''null'' @ r" using append_take_drop_id [of "length ''null''" s]
    by (auto simp: parse_keyword_def simp del: append_take_drop_id split: if_splits)
  then show ?thesis by simp
qed

lemma string_body_suffix: "string_body out s = Some (t, r) \<Longrightarrow> suffix r s"
proof (induction out s rule: string_body.induct)
  case (2 out c s)
  then show ?case
    by (auto simp: suffix_Cons split: if_splits list.splits option.splits)
qed simp

lemma string_body_quote:
  "string_body out s = Some (t, r) \<Longrightarrow> CHR 0x5C \<notin> set s \<Longrightarrow> foldl nest (True, d) s = foldl nest (False, d) r"
  by (induction out s rule: string_body.induct) (auto split: if_splits)

lemma closes_string: "parse_string s = Some (v, r) \<Longrightarrow> peek (CHR 0x22) s \<Longrightarrow> closes 0 s r"
proof -
  assume "parse_string s = Some (v, r)" and q: "peek (CHR 0x22) s"
  then obtain t where "string_body [] (tl s) = Some (t, r)"
    by (auto simp: parse_string_def split: option.splits prod.splits)
  from string_body_suffix [OF this] string_body_quote [OF this] q show ?thesis
    by (cases s) (auto simp: closes_def suffix_Cons)
qed

lemma parser_closes:
  "\<forall>v r. parse_value s = Some (v, r) \<longrightarrow> closes 0 s r"
  "\<forall>v r. parse_array s' = Some (v, r) \<longrightarrow> closes 0 s' r"
  "\<forall>v r. array_loop items s'' = Some (v, r) \<longrightarrow> closes 0 s'' r"
  "\<forall>v r. parse_object t = Some (v, r) \<longrightarrow> closes (- 1) t r"
  "\<forall>v r. object_loop ms t' = Some (v, r) \<longrightarrow> closes (- 1) t' r"
proof (induction s and s' and items s'' and t and ms t'
    rule: parse_value_parse_array_array_loop_parse_object_object_loop.induct)
  case 1
  then show ?case by simp
next
  case (2 c s)
  note members = 2
  show ?case
  proof (intro allI impI)
    fix v r assume *: "parse_value (c # s) = Some (v, r)"
    consider "c = CHR ''{''" "parse_object s = Some (v, r)" | "c = CHR ''[''" "parse_array s = Some (v, r)"
      | "c = CHR 0x22" "parse_string (c # s) = Some (v, r)" | "parse_keyword ''null'' JNull (c # s) = Some (v, r)"
      | "parse_integer (c # s) = Some (v, r)" using * by (auto split: if_splits)
    then show "closes 0 (c # s) r"
    proof cases
      case 1
      then have "closes (- 1) s r" using members by simp
      from closes_Cons(2) [OF this] 1(1) show ?thesis by simp
    next
      case 2
      then show ?thesis using members by simp
    qed (simp_all add: closes_string closes_keyword closes_integer)
  qed
next
  case (3 s)
  then show ?case
    using closes_trans [OF closes_skip [of s]] closes_peek(1) [of "CHR '']''" "skip_whitespace s"]
    by (fastforce simp: parse_array.simps Let_def split: if_splits)
next
  case (4 items s)
  show ?case
  proof (intro allI impI)
    fix v r assume *: "array_loop items s = Some (v, r)"
    then obtain item u where u: "parse_value (skip_whitespace s) = Some (item, u)"
      by (auto simp: array_loop.simps [of items s] split: option.splits)
    have "closes 0 (skip_whitespace s) u" using 4(1) u by blast
    from closes_trans [OF closes_trans [OF closes_skip this] closes_skip]
    have start: "closes 0 s (skip_whitespace u)" by simp
    show "closes 0 s r"
    proof (cases "peek (CHR '','') (skip_whitespace u)")
      case True
      with * u have "array_loop (items @ [item]) (tl (skip_whitespace u)) = Some (v, r)"
        by (simp add: array_loop.simps [of items s] Let_def)
      with 4(2) [OF u refl refl refl True] have "closes 0 (tl (skip_whitespace u)) r" by simp
      from closes_trans [OF closes_trans [OF start closes_peek(1) [OF True]] this] show ?thesis by simp
    next
      case False
      with * u have "r = tl (skip_whitespace u)" "peek (CHR '']'') (skip_whitespace u)"
        by (auto simp: array_loop.simps [of items s] Let_def split: if_splits)
      with closes_trans [OF start closes_peek(1)] show ?thesis by simp
    qed
  qed
next
  case (5 s)
  then show ?case
    using closes_trans [OF closes_skip [of s]] closes_peek(2) [of "skip_whitespace s"]
    by (fastforce simp: parse_object.simps Let_def split: if_splits)
next
  case (6 ms s)
  show ?case
  proof (intro allI impI)
    fix v r assume *: "object_loop ms s = Some (v, r)"
    then obtain key t kt where k: "peek (CHR 0x22) (skip_whitespace s)"
        "parse_string (skip_whitespace s) = Some (key, t)" "as_string key = Some kt"
        "peek (CHR '':'') (skip_whitespace t)"
      by (auto simp: object_loop.simps [of ms s] Let_def split: option.splits if_splits)
    with * obtain w u where u: "parse_value (skip_whitespace (tl (skip_whitespace t))) = Some (w, u)"
      by (auto simp: object_loop.simps [of ms s] Let_def split: option.splits if_splits)
    then have member: "closes 0 (skip_whitespace (tl (skip_whitespace t))) u"
      using 6(1) [OF refl _ k(2) refl k(3) refl] k(1,4) by blast
    have "closes 0 s (tl (skip_whitespace t))"
      using closes_trans [OF closes_trans [OF closes_trans [OF closes_skip closes_string [OF k(2,1)]] closes_skip]
        closes_peek(1) [OF k(4)]] by simp
    from closes_trans [OF closes_trans [OF closes_trans [OF this closes_skip] member] closes_skip]
    have start: "closes 0 s (skip_whitespace u)" by simp
    show "closes (- 1) s r"
    proof (cases "peek (CHR '','') (skip_whitespace u)")
      case True
      with * k u have "object_loop (set_member ms kt w) (tl (skip_whitespace u)) = Some (v, r)"
        by (simp add: object_loop.simps [of ms s] Let_def)
      with 6(2) [OF refl _ k(2) refl k(3) refl _ u refl refl refl True] k(1,4)
      have "closes (- 1) (tl (skip_whitespace u)) r" by blast
      from closes_trans [OF closes_trans [OF start closes_peek(1) [OF True]] this] show ?thesis by simp
    next
      case False
      with * k u have "r = tl (skip_whitespace u)" "peek (CHR ''}'') (skip_whitespace u)"
        by (auto simp: object_loop.simps [of ms s] Let_def split: if_splits)
      with closes_trans [OF start closes_peek(2)] show ?thesis by simp
    qed
  qed
qed

text \<open>A text that parses leaves nothing open.\<close>

lemma json_parse_neutral:
  assumes "json_parse s = Some v" "CHR 0x5C \<notin> set s"
  shows "neutral s"
proof -
  obtain r where r: "parse_value (skip_whitespace s) = Some (v, r)" "skip_whitespace r = []"
    using assms(1) by (auto simp: json_parse_def split: option.splits if_splits)
  have "closes 0 (skip_whitespace s) r" using parser_closes(1) r(1) by blast
  from closes_trans [OF closes_trans [OF closes_skip this] closes_skip] r(2) have "closes 0 s []" by simp
  then show ?thesis using assms(2) by (simp add: closes_def neutral_def)
qed

text \<open>An object that is followed by anything else than white space does not parse.\<close>

lemma parse_value_object:
  assumes "json_wf (JObject ms)" "ms \<noteq> []"
  shows "parse_value (dump_into (JObject ms) @ r) = Some (JObject ms, r)"
proof -
  obtain t where t: "dump_members True ms = CHR 0x22 # t" using assms(2) by (cases ms) (auto simp: append_escaped_def)
  have "object_loop [] (dump_members True ms @ CHR ''}'' # r) = Some (JObject ms, r)"
    using object_loop_dump [of ms "[]" r, OF parse_value_dump] assms by (force simp: list_all_iff)
  with t show ?thesis by (simp add: parse_object.simps is_space_def Let_def)
qed

lemma json_parse_trailing:
  assumes "json_wf (JObject ms)" "ms \<noteq> []" "skip_whitespace r \<noteq> []"
  shows "json_parse (json_dump (JObject ms) @ r) = None"
  using parse_value_object [OF assms(1,2), of r] skip_starts_value [OF starts_value_dump [of "JObject ms" r]] assms(3)
  by (simp add: json_parse_def json_dump_def)

end
