(* ===== verification/Bank_Wal_Torn.thy ===== *)
theory Bank_Wal_Torn
  imports Bank_Wal_Recovery Bank_Json_Nesting
begin

text \<open>
  What an append that failed half way does to the next one: the two lines become one line of the file, and
  that line cannot be read, wherever the first one was cut off.
\<close>

section \<open>The text of a record\<close>

text \<open>Texts without braces and backslashes, with every string closed.\<close>

definition flat :: "string \<Rightarrow> bool" where
  "flat s \<longleftrightarrow> even (count_list s (CHR 0x22)) \<and> list_all (\<lambda>c. c \<noteq> CHR ''{'' \<and> c \<noteq> CHR ''}'' \<and> c \<noteq> CHR 0x5C) s"

lemma flat_append [simp]: "flat s \<Longrightarrow> flat t \<Longrightarrow> flat (s @ t)"
  by (simp add: flat_def)

lemma flat_Cons [simp]: "flat s \<Longrightarrow> flat (CHR '','' # s)" "flat s \<Longrightarrow> flat (CHR '':'' # s)"
  by (simp_all add: flat_def)

lemma flat_set: "flat s \<Longrightarrow> CHR ''{'' \<notin> set s \<and> CHR ''}'' \<notin> set s \<and> CHR 0x5C \<notin> set s"
  by (auto simp: flat_def list_all_iff)

lemma flat_neutral: "flat s \<Longrightarrow> neutral s"
  using nest_parity [of False _ s] nest_no_braces [of s "(False, _)"] flat_set [of s]
  by (auto simp: flat_def neutral_def prod_eq_iff)

lemma count_list_plain: "list_all (\<lambda>c. c \<noteq> x) s \<Longrightarrow> count_list s x = 0"
  by (induction s) auto

lemma flat_plain: "list_all (\<lambda>c. is_dec c \<or> c = CHR ''-'') s \<Longrightarrow> flat s"
  unfolding flat_def by (subst count_list_plain) (auto elim!: list.pred_mono_strong simp: is_dec_def)

lemma flat_integer [simp]: "flat (to_string_i64 i)"
  using dec_of_nat_digits by (intro flat_plain) (auto simp: to_string_i64_def dec_of_int_def list_all_iff)

lemma flat_leg [simp]: "flat (dump_into (opt_id_to_json i))"
  by (cases i) (simp add: flat_def, simp)

lemma flat_enums [simp]: "flat (append_escaped (type_to_string ty))" "flat (append_escaped (state_to_string st))"
  by (cases ty; hypsubst; code_simp) (cases st; hypsubst; code_simp)

lemma flat_keys [simp]:
  "flat (append_escaped ''id'')" "flat (append_escaped ''ts'')" "flat (append_escaped ''type'')"
  "flat (append_escaped ''state'')" "flat (append_escaped ''from'')" "flat (append_escaped ''to'')"
  "flat (append_escaped ''amount'')"
  by code_simp+

lemma serialize_flat:
  obtains m where "serialize_transaction r = ''{'' @ m @ ''}''" "flat m"
  by (rule that [of "tl (butlast (serialize_transaction r))"])
    (simp_all add: serialize_transaction_def json_dump_def transaction_to_json_def object_of_def butlast_append)

section \<open>Two lines in one\<close>

text \<open>The characters of a header: hexadecimal digits and a state digit.\<close>

definition is_hex :: "char \<Rightarrow> bool" where
  "is_hex c \<longleftrightarrow> is_dec c \<or> 97 \<le> code c \<and> code c \<le> 102"

definition header :: "transaction_record \<Rightarrow> string" where
  "header r = id_to_field (rec_id r) @ [state_byte (rec_state r)]"

lemma wal_line_parts: "wal_line r = header r @ serialize_transaction r @ [newline]"
  by (simp add: wal_line_def header_def)

lemma is_hex_digit: "n < 16 \<Longrightarrow> is_hex (hex_digit n)"
  using less_16_cases [of n] by (auto simp: hex_digit_def is_hex_def is_dec_def)

lemma hex_pad_hex: "list_all is_hex (hex_pad k n)"
  by (induction k arbitrary: n) (simp_all add: is_hex_digit)

lemma header_hex: "list_all is_hex (header r)" "length (header r) = 17"
  using hex_pad_hex [of 16 "unat (id_value (rec_id r))"]
  by (cases "rec_state r"; simp add: header_def id_to_field_def is_hex_def is_dec_def state_byte_def del: hex_pad.simps)+

lemma hex_flat: "list_all is_hex s \<Longrightarrow> flat s"
  unfolding flat_def by (subst count_list_plain) (auto elim!: list.pred_mono_strong simp: is_hex_def is_dec_def)

lemma hex_not_record:
  assumes "is_hex c"
  shows "deserialize_transaction (c # s) = None"
proof -
  have "c \<noteq> CHR ''{''" "c \<noteq> CHR ''[''" "c \<noteq> CHR 0x22" "c \<noteq> CHR ''n''" "\<not> is_space c"
    using assms by (auto simp: is_hex_def is_dec_def is_space_def)
  then show ?thesis
    by (auto simp: deserialize_transaction_def json_parse_def transaction_from_json_def parse_integer_def Let_def
        split: option.splits if_splits)
qed

text \<open>A record that is cut off inside and continued with another line.\<close>

lemma cut_record_unreadable:
  assumes "0 < k" "k < length (serialize_transaction a)"
  shows "json_parse (take k (serialize_transaction a) @ header b @ serialize_transaction b) = None"
proof (rule ccontr)
  let ?p = "take k (serialize_transaction a)" and ?rest = "header b @ serialize_transaction b"
  obtain m m' where m: "serialize_transaction a = ''{'' @ m @ ''}''" "flat m"
    and m': "serialize_transaction b = ''{'' @ m' @ ''}''" "flat m'" by (metis serialize_flat)
  have p: "?p = CHR ''{'' # take (k - 1) m" using assms by (cases k) (simp_all add: m(1))
  have rest: "neutral ?rest" "CHR 0x5C \<notin> set ?rest"
    using flat_neutral [OF hex_flat [OF header_hex(1), of b]] flat_set [OF hex_flat [OF header_hex(1), of b]]
      flat_neutral [OF m'(2)] flat_set [OF m'(2)]
    by (simp_all add: neutral_def m'(1))
  assume "json_parse (?p @ ?rest) \<noteq> None"
  moreover have "CHR 0x5C \<notin> set (?p @ ?rest)" using rest(2) flat_set [OF m(2)] p by (auto dest: in_set_takeD)
  ultimately have "neutral (?p @ ?rest)" using json_parse_neutral by blast
  moreover obtain q where "foldl nest (False, 0) ?p = (q, 1)"
    using nest_no_braces [of "take (k - 1) m" "(False, 1)"] flat_set [OF m(2)] unfolding p
    by (cases "foldl nest (False, 1) (take (k - 1) m)") (auto dest: in_set_takeD)
  ultimately have "foldl nest (q, 1) ?rest = (False, 0)" unfolding neutral_def by (metis foldl_append)
  then show False using rest(1) neutral_inside [OF rest(1), of 1] by (cases q) (simp_all add: neutral_def)
qed

lemma whole_record_unreadable:
  assumes "record_storable a"
  shows "json_parse (serialize_transaction a @ header b @ s) = None"
proof -
  obtain c t where h: "header b = c # t" "is_hex c" using header_hex [of b] by (cases "header b") auto
  obtain ms where "transaction_to_json a = JObject ms" "ms \<noteq> []" by (simp add: transaction_to_json_def object_of_def)
  moreover have "\<not> is_space c" using h(2) by (auto simp: is_space_def is_hex_def is_dec_def)
  ultimately show ?thesis
    using json_parse_trailing [of ms "header b @ s"] transaction_to_json_wf [OF assms] h(1)
    by (simp add: serialize_transaction_def)
qed

lemma torn_line_unreadable:
  assumes "0 < n" "n < length (wal_line a)" "record_storable a"
  shows "deserialize_transaction (drop 17 (take n (wal_line a) @ header b @ serialize_transaction b)) = None"
proof (cases "n \<le> 17")
  case True
  then have "n - 17 = 0" "17 - n < length (header b)" using assms(1) header_hex(2) by simp_all
  then obtain c t where "drop (17 - n) (header b) = c # t" "c \<in> set (header b)"
    by (metis Cons_nth_drop_Suc nth_mem)
  then show ?thesis using True assms(2) hex_not_record header_hex(1) [of b] header_hex(2) [of b]
    by (simp add: list_all_iff)
next
  case False
  let ?k = "n - 17"
  have k: "0 < ?k" "?k \<le> length (serialize_transaction a)" using False assms(2) header_hex(2) [of a] by (auto simp: wal_line_parts)
  then have "take n (wal_line a) = header a @ take ?k (serialize_transaction a)"
    using False header_hex(2) [of a] by (simp add: wal_line_parts)
  then have "drop 17 (take n (wal_line a) @ header b @ serialize_transaction b) =
      take ?k (serialize_transaction a) @ header b @ serialize_transaction b" using header_hex(2) [of a] by simp
  moreover have "json_parse (take ?k (serialize_transaction a) @ header b @ serialize_transaction b) = None"
    using cut_record_unreadable [OF k(1), of a b] whole_record_unreadable [OF assms(3)] k(2)
    by (cases "?k = length (serialize_transaction a)") simp_all
  ultimately show ?thesis by (simp add: deserialize_transaction_def)
qed

section \<open>Property\<close>

text \<open>
  C7: an append that fails half way spoils the journal. Take a journal in order, a record that can be
  stored and whose append fails after any number of bytes of its line but none or all, and any storable
  record under a new id, not yet committed. The failed append is reported, but its fragment stays in the file
  and the position of the next line is not adjusted. The append of the second record and its commit marker
  are reported as written, and the open journal shows it as committed; but its line has become one with the
  fragment, the marker is on a wrong byte, and after a restart the journal reads as before both appends.
\<close>

theorem failed_append_loses_next_commit:
  assumes "wal_inv w" "record_storable a" "record_storable b" "rec_id b \<notin> we_id ` set (wal_entries w)"
    "rec_state b \<noteq> Committed"
    "resize_error io = None" "write_io io = Write_fails_after n" "0 < n" "n < length (wal_line a)"
    "write_io io' = Written"
    "wal_append io w a = (x1, w1)" "wal_append io' w1 b = (x2, w2)" "mark_committed None w2 (rec_id b) = (x3, w3)"
  shows "x1 = Inl (Runtime_error (''WalLogger: append failed for '' @ wal_path w)) \<and> x2 = Inr () \<and> x3 = Inr () \<and>
    load_all w3 = load_all w @ [(stored_form b)\<lparr>rec_state := Committed\<rparr>] \<and>
    load_all (wal_open path (Some (wal_file w3))) = load_all w"
proof -
  let ?torn = "take n (wal_line a)" and ?body = "header b @ serialize_transaction b" and ?p = "wal_next_offset w"
  obtain w0 where w0: "(if wal_drop_tail w then truncate_interrupted_tail (resize_error io) w else (Inr (), w)) = (Inr (), w0)"
    "wal_file w0 = wal_prefix w" "wal_entries w0 = wal_entries w" "wal_next_offset w0 = ?p" "\<not> wal_drop_tail w0"
    "wal_path w0 = wal_path w" using wal_append_start [OF assms(1,6)] by blast
  have w1: "x1 = Inl (Runtime_error (''WalLogger: append failed for '' @ wal_path w))"
    "w1 = w0\<lparr>wal_file := wal_prefix w @ ?torn\<rparr>"
    using assms(11) w0 by (auto simp: wal_append_def assms(7) Let_def)
  have w2: "x2 = Inr ()" "wal_file w2 = wal_prefix w @ (?torn @ ?body) @ [newline]"
    "wal_entries w2 = wal_entries w @ [new_entry ?p b]"
    using assms(12) w0 by (auto simp: wal_append_def assms(10) Let_def w1(2) wal_line_parts new_entry_def)
  have found: "find_entry (wal_entries w2) (rec_id b) = Some (length (wal_entries w))"
    using assms(4) by (simp add: w2(3) find_entry_append find_entry_None [THEN iffD2] new_entry_def)
  have long: "17 \<le> length (?torn @ ?body)" using header_hex(2) [of b] by simp
  have w3: "x3 = Inr ()" "wal_file w3 = wal_prefix w @ (?torn @ ?body)[16 := state_byte Committed] @ [newline]"
    "wal_entries w3 = wal_entries w @ [(new_entry ?p b)\<lparr>we_state := Committed\<rparr>]"
  proof -
    have entry: "wal_entries w2 ! length (wal_entries w) = new_entry ?p b" by (simp add: w2(3))
    have mark: "x3 = Inr ()" "w3 = w2\<lparr>wal_file := put_at (?p + 16) (state_byte Committed) (wal_file w2),
        wal_entries := (wal_entries w2)[length (wal_entries w) := (new_entry ?p b)\<lparr>we_state := Committed\<rparr>]\<rparr>"
      using assms(13) assms(5) by (auto simp: mark_committed_def found entry Let_def) (simp_all add: new_entry_def)
    show "x3 = Inr ()" by (rule mark(1))
    show "wal_file w3 = wal_prefix w @ (?torn @ ?body)[16 := state_byte Committed] @ [newline]"
      using long length_wal_prefix [OF assms(1)]
      by (simp add: mark(2) w2(2) put_at_def list_update_append del: append_assoc length_append)
        (simp add: list_update_append1 [symmetric])
    show "wal_entries w3 = wal_entries w @ [(new_entry ?p b)\<lparr>we_state := Committed\<rparr>]" by (simp add: mark(2) w2(3))
  qed
  let ?line = "(?torn @ ?body)[16 := state_byte Committed]"
  have "newline \<notin> set (?torn @ ?body)"
    using take_snoc_notin [OF wal_line_no_newline, of n a] wal_line_no_newline [of b] assms(9)
    by (simp add: wal_line_split header_def)
  then have "newline \<notin> set ?line" using set_update_subset_insert [of "?torn @ ?body" 16 "state_byte Committed"]
    state_byte_not_newline [of Committed] by (metis insertE subset_iff)
  from scan_Cons_line [OF this, of _ "[]"]
  have "fst (scan 0 (wal_file w3)) = wal_entries w @ (case parse_line ?p ?line of None \<Rightarrow> [] | Some e \<Rightarrow> [e])"
    using scan_prefix [OF assms(1)] length_wal_prefix [OF assms(1)]
    by (simp add: w3(2) scan_append scan_no_newline split: prod.splits)
  moreover have "entry_record e = None" if "parse_line ?p ?line = Some e" for e
    using parse_line_Some(3) [OF that] torn_line_unreadable [OF assms(8,9,2), of b]
    by (simp add: entry_record_def)
  ultimately have "load_all (wal_open path (Some (wal_file w3))) = load_all w"
    by (auto simp: load_all_def map_filter_single split: option.splits)
  moreover have "load_all w3 = load_all w @ [(stored_form b)\<lparr>rec_state := Committed\<rparr>]"
    using entry_record_committed [OF assms(3)] by (simp add: load_all_def w3(3) map_filter_single)
  ultimately show ?thesis using w1(1) w2(1) w3(1) by simp
qed

theorem failed_append_loses_next_commit_witness:
  "\<exists>w1 w2 w3. let a = project_transaction 0 (Id 1) (Deposit (Id 3) (Mk_Money 250));
       b = project_transaction 0 (Id 2) (Deposit (Id 3) (Mk_Money 900)); w = wal_open ''wal'' (Some [])
     in wal_append \<lparr>resize_error = None, write_io = Write_fails_after 5\<rparr> w a =
          (Inl (Runtime_error ''WalLogger: append failed for wal''), w1) \<and>
        wal_append good_io w1 b = (Inr (), w2) \<and> mark_committed None w2 (Id 2) = (Inr (), w3) \<and>
        load_all (wal_open ''wal'' (Some (wal_file w3))) = []"
proof -
  let ?a = "project_transaction 0 (Id 1) (Deposit (Id 3) (Mk_Money 250))"
    and ?b = "project_transaction 0 (Id 2) (Deposit (Id 3) (Mk_Money 900))" and ?w = "wal_open ''wal'' (Some [])"
    and ?io = "\<lparr>resize_error = None, write_io = Write_fails_after 5\<rparr>"
  obtain x1 w1 x2 w2 x3 w3 where run: "wal_append ?io ?w ?a = (x1, w1)" "wal_append good_io w1 ?b = (x2, w2)"
    "mark_committed None w2 (rec_id ?b) = (x3, w3)" by (meson surj_pair)
  have "record_storable ?a" "record_storable ?b" "rec_state ?b \<noteq> Committed" "rec_id ?b = Id 2"
    by (simp_all add: project_transaction_def record_storable_def small_id_def money_ok_def amount_def)
  moreover have "rec_id ?b \<notin> we_id ` set (wal_entries ?w)" "load_all ?w = []"
    by (simp_all add: scan_no_newline load_all_def List.map_filter_def)
  moreover have "5 < length (wal_line ?a)" "write_io good_io = Written"
    by (simp_all add: wal_line_parts header_hex(2) good_io_def)
  ultimately show ?thesis
    using failed_append_loses_next_commit [OF wal_open_inv, of ?a ?b "''wal''" "[]" ?io 5 good_io x1 w1 x2 w2 x3 w3 "''wal''"] run
    by (intro exI [of _ w1] exI [of _ w2] exI [of _ w3]) (simp add: Let_def)
qed

end
