(* ===== verification/Spec2Isabelle.thy ===== *)
theory Spec2Isabelle
  imports Bank_Snapshot Bank_Shutdown Bank_Sqlite_Processor Bank_Interleaving_Alone Bank_Interleaving_Journal
    Bank_Ledger Bank_Freeze_Race Bank_Services_Audit Bank_Wal_Torn
begin

text \<open>
  A verification library for the bank of src/src: a C++ library of accounts, transactions, their journal,
  the repositories, the transaction processor with its threads, and the services on top. Paths below are
  relative to src/src.

  \<^bold>\<open>The program.\<close> A client calls a service (services/BankingService, AuthService, AuditService, InterestService,
  SessionManager). A deposit, withdrawal or transfer goes to the processor (concurrency/TransactionProcessor),
  either directly (\<open>process_one\<close>) or through its queue and consumer threads (\<open>submit\<close>, \<open>start\<close>, \<open>stop\<close>). The
  processor locks the accounts in ascending order (concurrency/AccountLockManager, ScopedAccountLock,
  ScopedAccountLocks), loads them from a repository, validates (domain/TransactionOps), writes the intent to the
  journal (persistence/WalLogger), applies the transaction to the loaded accounts, saves them, marks the journal
  entry committed, appends the record and an audit entry. Repositories are interfaces with an in-memory and an
  SQLite implementation. Journal and snapshots are JSON texts (persistence/Json, Serializer, SnapshotStore).

  \<^bold>\<open>The theories\<close>, each with the operations of its part under the source's names, then the lemmas:
  \<^item> \<open>Bank_Prelude\<close>: 64-bit words read as signed, exceptions as values (\<open>exn\<close>, \<open>bind_exn\<close>), stateful code that may
    throw (\<open>io\<close>, \<open>io_bind\<close>, \<open>io_catch\<close>; the state reached is kept), decimal and hexadecimal text.
    \<open>Std_Map\<close>: std::map as an ordered association list, with its contract \<open>ordered_map\<close>.
  \<^item> \<open>Bank_Core\<close> (core/Result.h, TimeUtil.h), \<open>Bank_Types\<close> (domain/Types.h; contract \<open>text_codec\<close>), \<open>Bank_Money\<close>,
    \<open>Bank_Account\<close>, \<open>Bank_Transaction\<close> (domain/Transaction.cpp, TransactionOps.cpp): exact money, no overdraft, what
    \<open>apply\<close> does on every branch.
  \<^item> \<open>Bank_Json\<close>, \<open>Bank_Json_Roundtrip\<close>: the printer and the recursive descent parser; they are inverse on exactly the
    values that some text denotes. \<open>Bank_Serializer\<close>: the two codecs, with the exact set of records that survive.
  \<^item> \<open>Bank_Snapshot\<close> (SnapshotStore): the file and its temporary; a store is atomic whatever fails.
  \<^item> \<open>Bank_Wal\<close>, \<open>Bank_Wal_Recovery\<close> (WalLogger): the file as its text, the entries and offsets kept in memory.
    \<open>wal_inv\<close> ties them together; appends and commit markers survive reopening, a torn append does not.
    \<open>Bank_Json_Nesting\<close>, \<open>Bank_Wal_Torn\<close>: a text that parses leaves no string and no brace open, so a line that a
    failed append cut off and the next append continued cannot be read, wherever it was cut.
  \<^item> \<open>Bank_Repositories\<close>: the repository interfaces as records of operations, their contracts as locales
    (\<open>account_store\<close>, \<open>transaction_store\<close>, \<open>audit_store\<close>, \<open>customer_store\<close>, and reliable variants), and the
    in-memory repositories, which are interpretations of them.
  \<^item> \<open>Bank_Sqlite\<close>, \<open>Bank_Sqlite_Tables\<close>, \<open>Bank_Sqlite_Correct\<close>, \<open>Bank_Sqlite_Sample\<close>, \<open>Bank_Sqlite_Props\<close>: the SQLite
    repositories over the library as a parameter (\<open>sqlite\<close>); the documented behaviour of the statements they run
    (\<open>accounts_documented\<close> and its siblings); that they meet the repository contracts then; engines that behave as
    documented, for concrete instances; the properties. \<open>Bank_Sqlite_Processor\<close>: the processor on them.
  \<^item> \<open>Bank_Locks\<close>: account mutexes, the guards, and the interleavings of any number of threads as \<open>lock_step\<close>:
    mutual exclusion, no deadlock, termination.
  \<^item> \<open>Bank_Queue\<close> (TransactionQueue; contract \<open>fifo\<close>), \<open>Bank_Pool\<close> (ThreadPool, interpreting \<open>fifo\<close> too, and the
    interleavings \<open>pool_step\<close> of workers, submitters and \<open>stop()\<close>).
  \<^item> \<open>Bank_Processor\<close>: the state and operations of TransactionProcessor on any repositories. \<open>Bank_Processor_Correct\<close>:
    what a run does, proved in the locales \<open>processor_stores\<close> (any store that keeps its contract) and
    \<open>reliable_stores\<close> (no call throws). \<open>Bank_Processor_Memory\<close>: their interpretation on the in-memory
    repositories, and the balance sheet. \<open>Bank_Consumers\<close>: ids, and consumers as \<open>consumer_step\<close>.
    \<open>Bank_Shutdown\<close>: after \<open>stop()\<close> the consumers drain the queue and exit.
  \<^item> \<open>Bank_Interleaving\<close>: \<open>process_impl\<close> taken apart into the steps between two accesses to shared state, and the
    interleavings \<open>run_step\<close> of any number of calls, of consumers that pop the queue and clients that submit. \<open>Bank_Interleaving_Correct\<close>: what a run loaded stays true while
    it holds its mutexes (\<open>system_inv\<close>), so decided runs have a serial order. \<open>Bank_Interleaving_Props\<close>: calls are
    serializable, conserve money and return. \<open>Bank_Interleaving_Alone\<close>: run alone, the steps are \<open>process_impl\<close>, on
    any repositories and with any failures. \<open>Bank_Interleaving_Journal\<close>: balances, journal and transactions agree on
    the calls that succeeded, at every moment, so a restart can rebuild the balances from the journal.
  \<^item> \<open>Bank_Ledger\<close>: the abstract specification, a finite map from accounts to integer balances with a status, and
    a posting that is accepted or refused. \<open>process_impl\<close> refines it call by call (\<open>process_refines_ledger\<close>), and
    interleaved calls refine it in a serial order (\<open>concurrent_runs_refine_ledger\<close>).
  \<^item> \<open>Bank_Password\<close> (PasswordHasher), \<open>Bank_Sessions\<close> (SessionManager), \<open>Bank_Services\<close> (AuditService, AuthService,
    BankingService, InterestService), \<open>Bank_Services_Correct\<close>. \<open>Bank_Freeze_Race\<close>: a freeze beside the consumers; it
    takes no account mutex, and each side can undo the other. \<open>Bank_Services_Audit\<close>: no answer of AuthService
    depends on an audit write, and which writes are lost after a restart. \<open>Bank_Sample\<close>: a small concrete bank.
  \<^item> this theory: the properties that span the processor, the journal, the threads and the services.

  \<^bold>\<open>State and environment.\<close> A class is a record of its fields, a method a function from the state to its result and
  the new state. What comes from outside is an argument: the clock, the random device (a stream of draws), the
  outcomes of file operations (\<open>append_io\<close>, \<open>store_io\<close>, the commit marker), OpenSSL's key derivation, SQLite. A mutex
  is its holder and a blocked call is a step that is not enabled. \<open>Bank_Processor\<close> has \<open>process_impl\<close> as one
  function; that interleaved calls are equivalent to calls of it one after the other is \<open>concurrent_runs_serialize\<close>.

  \<^bold>\<open>Loops and bounds.\<close> No fuel is used. The parser, the journal scan, the drain loop and all loops over containers
  end and are total functions. The token loop of SessionManager need not end: it is a partial function whose
  value is \<open>None\<close> then, and \<open>session_create_returns\<close> says when it returns. Interleavings have explicit measures
  (\<open>lock_work\<close>, \<open>pool_work\<close>, \<open>system_work\<close>, \<open>drain_work\<close>). 64-bit integers are \<open>64 word\<close>; where C++ has undefined behaviour (multiplying a
  time out of range) lemmas exclude it.

  \<^bold>\<open>Not modelled.\<close> \<open>timeutil::now\<close> and the random device themselves; memory exhaustion and stack overflow;
  the power-loss gap of a flush without fsync, which the source names; timing of the login; the order in which
  a condition variable wakes its waiters; tests, build files and documents. In the composition with the
  processor each SQLite repository has a connection of its own; a connection shared by several of them is not
  modelled, nor is the reading of real and blob values that the program never writes.
\<close>

section \<open>The processor\<close>

text \<open>
  C1: the outcome of a transaction is decided by the accounts alone, on the in-memory repositories (on SQLite a
  call may throw, see \<open>restarted_processor_throws\<close>). On accounts and an amount in range, with a journal in order
  and with every write of the journal succeeding, processing a transaction never throws; it fails with the
  message that names the first missing account, with the description of a transaction that violates the rules, or
  with the overflow of the credited balance, and in every other case it succeeds with the committed record.
\<close>

theorem process_outcome:
  assumes "mem_ok (pr_accounts s)" "money_ok (amount_of t)" "wal_inv (pr_wal s)"
    "pe_marker env = None" "resize_error (pe_append env) = None" "write_io (pe_append env) = Written"
  shows "fst (process_impl mem_repositories env t i s) =
    Inr (case process_verdict t (mem_accounts_view (pr_accounts s)) of
           None \<Rightarrow> result_success ((project_transaction (pe_record_time env) i t)\<lparr>rec_state := Committed\<rparr>)
         | Some msg \<Rightarrow> result_failure msg)"
  using mem.verdict_outcome [of s t env i] mem_view_ok [OF assms(1)] assms
  by (simp add: mem_ok_def committed_record_def split: option.splits)

theorem process_outcome_witness:
  "fst (process_impl mem_repositories sample_env (Withdraw (Id 9) (Mk_Money 5)) (Id 1) sample_processor) =
     Inr (result_failure ''account not found: 9'')"
proof -
  have "process_verdict (Withdraw (Id 9) (Mk_Money 5)) (mem_accounts_view (pr_accounts sample_processor)) =
      Some ''account not found: 9''" by code_simp
  then show ?thesis
    using process_outcome [OF sample_mem_ok _ sample_wal_inv, of "Withdraw (Id 9) (Mk_Money 5)" sample_env "Id 1"]
    by (simp add: money_ok_def amount_def)
qed

text \<open>
  C2: a success means that exactly the effects of the transaction are in the stores, on the in-memory
  repositories with accounts and amount in range. Each account it names has moved by its share, with one version
  step; no other account has changed, none was created or lost and all are in range; the record returned is
  committed and is the one appended to the transactions; and one audit entry for its completion was
  appended. This holds whatever happened to the journal.
\<close>

theorem process_success_effects:
  assumes "process_impl mem_repositories env t i s = (Inr (result_success rec), s')"
    "mem_ok (pr_accounts s)" "money_ok (amount_of t)"
  shows "rec = (project_transaction (pe_record_time env) i t)\<lparr>rec_state := Committed\<rparr> \<and>
    mem_ok (pr_accounts s') \<and> list_all2 (posted t) (map snd (pr_accounts s)) (map snd (pr_accounts s')) \<and>
    pr_transactions s' = pr_transactions s @ [rec] \<and>
    pr_audit s' = pr_audit s @ [audit_entry_of (pr_next_audit_id s) (pe_audit_time env) ''txn.completed'' (describe t)]"
proof -
  have ok: "mem_accounts_ok (pr_accounts s)" using assms(2) by (simp add: mem_ok_def)
  note effects = mem.success_effects [OF assms(1) ok mem_view_ok [OF assms(2)] assms(3)]
  then have "list_all2 (posted t) (map snd (pr_accounts s)) (map snd (pr_accounts s'))"
    using posted_view_list [OF ok] by blast
  then show ?thesis using effects mem_success_total [OF assms] by (simp add: committed_record_def)
qed

theorem process_success_effects_witness:
  "map funds (map snd (pr_accounts sample_after)) = [49700, 1300] \<and> length (pr_transactions sample_after) = 1"
  using process_success_effects [OF sample_run sample_mem_ok sample_transfer_ok]
  by (auto simp: sample_processor_def sample_accounts_def sample_account_def sample_transfer_def list_all2_Cons1
      posted_def txn_delta_def amount_def)

text \<open>
  C3: a failure leaves no trace but its audit entry, on the in-memory repositories, whose operations do not
  throw. If the accounts are a map by id and the commit marker can be written, then whatever else went wrong (an
  account missing, a rule violated, an overflow, a journal that cannot be appended to), the accounts and
  the transactions are exactly as before, and one entry with the failure message was appended to the audit trail.
  Without the hypothesis on the marker it is false (\<open>failed_marker_keeps_effects\<close>), and a repository that
  throws while it saves or appends may leave a part of the effects.
\<close>

theorem process_failure_atomic:
  assumes "process_impl mem_repositories env t i s = (Inr res, s')" "\<not> result_ok res"
    "mem_accounts_ok (pr_accounts s)" "pe_marker env = None"
  shows "pr_accounts s' = pr_accounts s \<and> pr_transactions s' = pr_transactions s \<and>
    (\<exists>now. pr_audit s' = pr_audit s @ [audit_entry_of (pr_next_audit_id s) now ''txn.failed'' (res_error res)])"
  using mem.failure_effects [OF assms] by auto

theorem process_failure_atomic_witness:
  "\<exists>s'. process_impl mem_repositories sample_env (Withdraw (Id 1) (Mk_Money 60000)) (Id 1) sample_processor =
     (Inr (result_failure (''validation failed: '' @ describe (Withdraw (Id 1) (Mk_Money 60000)))), s') \<and>
     pr_accounts s' = pr_accounts sample_processor"
proof -
  let ?t = "Withdraw (Id 1) (Mk_Money 60000)"
  have "process_verdict ?t (mem_accounts_view (pr_accounts sample_processor)) =
      Some (''validation failed: '' @ describe ?t)" by code_simp
  then have "fst (process_impl mem_repositories sample_env ?t (Id 1) sample_processor) =
      Inr (result_failure (''validation failed: '' @ describe ?t))"
    using mem.verdict_outcome [of sample_processor ?t sample_env "Id 1"] sample_mem_ok mem_view_ok [OF sample_mem_ok]
      sample_wal_inv by (simp add: mem_ok_def money_ok_def amount_def)
  then obtain s' where run: "process_impl mem_repositories sample_env ?t (Id 1) sample_processor =
      (Inr (result_failure (''validation failed: '' @ describe ?t)), s')" by (metis prod.collapse)
  have "mem_accounts_ok (pr_accounts sample_processor)" using sample_mem_ok by (simp add: mem_ok_def)
  from process_failure_atomic [OF run _ this] show ?thesis using run by simp
qed

text \<open>
  C4: money is neither made nor lost, on the in-memory repositories. If accounts and amount are in range and
  the commit marker can be written, the sum of all balances changes by the net flow of the transaction when it
  succeeds (the amount in for a deposit, out for a withdrawal, nothing for a transfer) and not at all when it
  fails; and every balance stays in range. With a marker that fails, a failure can move money
  (\<open>failed_marker_keeps_effects\<close>).
\<close>

theorem process_conserves_money:
  assumes "process_impl mem_repositories env t i s = (Inr res, s')"
    "mem_ok (pr_accounts s)" "money_ok (amount_of t)" "pe_marker env = None"
  shows "mem_ok (pr_accounts s') \<and>
    mem_total (pr_accounts s') = mem_total (pr_accounts s) + (if result_ok res then net_flow t else 0)"
proof (cases "result_ok res")
  case False
  then show ?thesis using mem_failure_total [OF assms(1) False assms(2,4)] assms(2) by simp
next
  case True
  then obtain rec where "res = result_success rec"
    using process_impl_result [OF assms(1)] by (auto simp: result_for_def)
  then show ?thesis using mem_success_total [of env t i s rec s'] assms by simp
qed

theorem process_conserves_money_witness:
  "mem_total (pr_accounts sample_after) = 51000"
  using process_conserves_money [OF sample_run sample_mem_ok sample_transfer_ok]
  by (simp add: sample_transfer_def sample_processor_def mem_total_def total_funds_def sample_accounts_def
      sample_account_def amount_def)

text \<open>
  C5: a commit marker that cannot be written makes a failure that is none. Take the in-memory repositories,
  accounts and amount in range, a journal in order, an id that is not in it, an acceptable transaction whose
  record the journal can hold, and an append that succeeds. When the marker fails, processing answers with the
  failure message and an audit entry for it, and no record is appended to the transactions, but every
  account the transaction names has moved by its share and the sum of all balances by its net flow. The journal
  opened again holds one more record, validated, or even committed if the byte reached the file before the
  stream failed.
\<close>

theorem failed_marker_keeps_effects:
  assumes "mem_ok (pr_accounts s)" "money_ok (amount_of t)" "wal_inv (pr_wal s)" "i \<notin> wal_ids (pr_wal s)"
    "process_verdict t (mem_accounts_view (pr_accounts s)) = None" "record_storable (committed_record env i t)"
    "pe_marker env = Some reached" "resize_error (pe_append env) = None" "write_io (pe_append env) = Written"
  shows "\<exists>s'. process_impl mem_repositories env t i s =
      (Inr (result_failure ''WalLogger: commit marker write failed''), s') \<and>
    mem_ok (pr_accounts s') \<and> list_all2 (posted t) (map snd (pr_accounts s)) (map snd (pr_accounts s')) \<and>
    mem_total (pr_accounts s') = mem_total (pr_accounts s) + net_flow t \<and>
    pr_transactions s' = pr_transactions s \<and>
    pr_audit s' = pr_audit s @ [audit_entry_of (pr_next_audit_id s) (pe_handler_time env) ''txn.failed''
      ''WalLogger: commit marker write failed''] \<and>
    load_all (wal_open path (Some (wal_file (pr_wal s')))) = load_all (pr_wal s) @
      [(stored_form (committed_record env i t))\<lparr>rec_state := if reached then Committed else Validated\<rparr>]"
proof -
  have "mem_accounts_ok (pr_accounts s)" using assms(1) by (simp add: mem_ok_def)
  then obtain s' where s': "process_impl mem_repositories env t i s =
      (Inr (result_failure ''WalLogger: commit marker write failed''), s')"
    "mem_accounts_ok (pr_accounts s')"
    "posted_view t (mem_accounts_view (pr_accounts s)) (mem_accounts_view (pr_accounts s'))"
    "pr_transactions s' = pr_transactions s"
    "pr_audit s' = pr_audit s @ [audit_entry_of (pr_next_audit_id s) (pe_handler_time env) ''txn.failed''
      ''WalLogger: commit marker write failed'']"
    "load_all (wal_open path (Some (wal_file (pr_wal s')))) = load_all (pr_wal s) @
      [(stored_form (committed_record env i t))\<lparr>rec_state := if reached then Committed else Validated\<rparr>]"
    using mem.unmarked_effects [OF _ mem_view_ok [OF assms(1)] assms(2,3) _ assms(5-9), of path] assms(4)
    by (auto simp: wal_ids_def)
  then show ?thesis using mem_posted_total [OF assms(1) s'(2,3) assms(5)] by blast
qed

theorem failed_marker_keeps_effects_witness:
  "\<exists>s'. process_impl mem_repositories (sample_env\<lparr>pe_marker := Some True\<rparr>) (Deposit (Id 2) (Mk_Money 700)) (Id 1)
      sample_processor = (Inr (result_failure ''WalLogger: commit marker write failed''), s') \<and>
    mem_total (pr_accounts s') = 51700 \<and>
    map rec_state (load_all (wal_open ''wal'' (Some (wal_file (pr_wal s'))))) = [Committed]"
proof -
  let ?t = "Deposit (Id 2) (Mk_Money 700)" and ?env = "sample_env\<lparr>pe_marker := Some True\<rparr>"
  have "record_storable (committed_record ?env (Id 1) ?t)"
    by (simp add: committed_record_def project_transaction_def record_storable_def small_id_def money_ok_def amount_def)
  moreover have "process_verdict ?t (mem_accounts_view (pr_accounts sample_processor)) = None" by code_simp
  moreover have "load_all (pr_wal sample_processor) = []" "mem_total (pr_accounts sample_processor) = 51000"
    by (simp_all add: sample_processor_def load_all_def scan_no_newline List.map_filter_def mem_total_def
        total_funds_def sample_accounts_def sample_account_def amount_def)
  ultimately show ?thesis
    using failed_marker_keeps_effects [OF sample_mem_ok _ sample_wal_inv, of ?t "Id 1" ?env True "''wal''"]
    by (auto simp: sample_wal_ids money_ok_def amount_def)
qed

text \<open>
  C6: a committed transaction survives a restart, on a journal in order. Take the in-memory repositories, a
  journal that satisfies its invariant (its memory agrees with its file; after a failed append this need not
  be so, see \<open>failed_append_loses_next_commit\<close>), an id that is not in it, and a record that it can hold. If
  processing succeeds, the journal is in order after it, and a journal opened again on the same file reads
  back all the records from before and the committed record, with its time cut to the millisecond.
\<close>

theorem process_success_durable:
  assumes "process_impl mem_repositories env t i s = (Inr (result_success rec), s')"
    "wal_inv (pr_wal s)" "i \<notin> wal_ids (pr_wal s)" "record_storable rec"
  shows "wal_inv (pr_wal s') \<and>
    load_all (wal_open path (Some (wal_file (pr_wal s')))) = load_all (pr_wal s) @ [stored_form rec]"
  using success_journal [OF assms(1,2)] assms(3,4) load_all_reopen [of "pr_wal s'" path] by (simp add: wal_ids_def)

theorem process_success_durable_witness:
  "load_all (wal_open ''wal'' (Some (wal_file (pr_wal sample_after)))) =
     [stored_form (committed_record sample_env (Id 1) sample_transfer)]"
proof -
  have "record_storable (committed_record sample_env (Id 1) sample_transfer)"
    by (simp add: committed_record_def project_transaction_def sample_transfer_def record_storable_def small_id_def
        money_ok_def amount_def)
  from process_success_durable [OF sample_run sample_wal_inv _ this, of "''wal''"] show ?thesis
    by (simp add: sample_wal_ids) (simp add: sample_processor_def load_all_def scan_no_newline List.map_filter_def)
qed

section \<open>Ids, queue and consumers\<close>

text \<open>
  C16: transaction ids are not reused, on a journal that can be read. If every entry of the journal can be read
  back under its own id (\<open>wal_sound\<close>), the transaction store can be listed, and all their ids are below 2^64 - 1,
  a new processor starts above all the ids of the journal and of the store, with its ids in order (\<open>ids_ok\<close>:
  all ids in the journal and all reserved ids are below the counter, the reserved ones distinct and not in the
  journal). And from any state in which they are, with the queue open and the counter below 2^64 - 1, \<open>submit\<close>,
  \<open>process_one\<close> and \<open>process_next\<close> keep them so. Entries that cannot be read are left out of the count.
\<close>

theorem transaction_ids_fresh:
  assumes "processor_create n repos a t u w = Inr s0" "tr_all (rp_transactions repos) t = Inr records"
    "wal_sound w" "\<forall>i \<in> wal_ids w. id_value i < - 1" "\<forall>r \<in> set records. id_value (rec_id r) < - 1"
    and "ids_ok s" "pr_next_id s < - 1" "\<not> tq_closed (pr_queue s)"
  shows "ids_ok s0 \<and> (\<forall>r \<in> set records. id_value (rec_id r) < pr_next_id s0) \<and>
    ids_ok (snd (submit s txn)) \<and> ids_ok (snd (process_one repos env txn s)) \<and>
    ids_ok (snd (process_next repos env s))"
proof (intro conjI)
  note create = processor_create_ids [OF assms(1,3,4,2,5)]
  show "ids_ok s0" by (rule create(1))
  show "\<forall>r \<in> set records. id_value (rec_id r) < pr_next_id s0" by (rule create(2))
  show "ids_ok (snd (submit s txn))" using submit_ids [OF _ assms(6,7,8)] by (metis prod.collapse)
  show "ids_ok (snd (process_one repos env txn s))" using process_one_ids [OF _ assms(6,7)] by (metis prod.collapse)
  show "ids_ok (snd (process_next repos env s))" using process_next_ids [OF _ assms(6,7)] by (metis prod.collapse)
qed

theorem transaction_ids_fresh_witness:
  "ids_ok (snd (process_one mem_repositories sample_env sample_transfer sample_processor))"
proof -
  let ?w = "wal_open ''wal'' (Some [])"
  obtain s0 where create: "processor_create 1 mem_repositories sample_accounts [] [] ?w = Inr s0"
    by (simp add: processor_create_def mem_transactions_def mem_transactions_all_def Let_def)
  have all: "tr_all (rp_transactions mem_repositories) [] = Inr []"
    by (simp add: mem_transactions_def mem_transactions_all_def)
  have sound: "wal_sound ?w" "wal_ids ?w = {}" by (simp_all add: wal_sound_def wal_ids_def scan_no_newline)
  have next_id: "pr_next_id sample_processor < - 1" "\<not> tq_closed (pr_queue sample_processor)"
    by (simp_all add: sample_processor_def new_queue_def word_less_nat_alt unsigned_minus_1_eq_mask mask_eq_exp_minus_1)
  from transaction_ids_fresh [OF create all sound(1) _ _ sample_ids_ok next_id] sound(2) show ?thesis by simp
qed

text \<open>
  C17: draining the queue answers every transaction once and in order, on the in-memory repositories and with as
  many reserved ids as queued transactions, as \<open>submit\<close> leaves them. \<open>process_until_empty\<close> returns, without an
  exception; it leaves no transaction and no reserved id; and its results correspond one to one, in the order
  of submission, to the transactions that were queued, each either failed or committed under the id that was
  reserved for it. On SQLite it may end in an exception (\<open>restarted_processor_throws\<close>).
\<close>

theorem drain_answers_in_order:
  assumes "length (pr_reserved s) = length (tq_queue (pr_queue s))"
  shows "\<exists>results s'. process_until_empty mem_repositories env s = (Inr results, s') \<and>
    tq_queue (pr_queue s') = [] \<and> pr_reserved s' = [] \<and> length results = pending s \<and>
    list_all2 result_for (zip (tq_queue (pr_queue s)) (pr_reserved s)) results"
  using mem.process_until_empty_total [OF assms, of env] list_all2_lengthD assms
  by (fastforce simp: pending_def queue_size_def)

theorem drain_answers_in_order_witness:
  "\<exists>results s'. process_until_empty mem_repositories (\<lambda>_. sample_env) (snd (submit sample_processor sample_transfer)) =
     (Inr results, s') \<and> length results = 1"
proof -
  have "length (pr_reserved (snd (submit sample_processor sample_transfer))) =
      length (tq_queue (pr_queue (snd (submit sample_processor sample_transfer))))"
    "pending (snd (submit sample_processor sample_transfer)) = 1"
    by (simp_all add: submit_def sample_processor_def fresh_id_def enqueue_def new_queue_def pending_def queue_size_def)
  with drain_answers_in_order [OF this(1), of "\<lambda>_. sample_env"] show ?thesis by auto
qed

text \<open>
  C18: with one consumer, the id returned by \<open>submit\<close> is the id under which the transaction is run. In
  whatever order clients submit, the consumer works and \<open>stop()\<close> is requested, the pairs of transaction and
  id that have been processed are an initial part of the pairs that were submitted.
\<close>

theorem single_consumer_keeps_ids:
  assumes "(consumer_step repos)\<^sup>*\<^sup>* (start_consumers p) s" "pr_worker_count p = 1"
    "\<not> tq_closed (pr_queue p)" "length (pr_reserved p) = length (tq_queue (pr_queue p))"
  shows "\<exists>rest. cs_submitted s = cs_processed s @ rest"
  using single_inv_processed [OF single_inv_run [OF assms(1) single_inv_start [OF assms(2-4)]]] .

theorem single_consumer_keeps_ids_witness:
  "\<exists>s. (consumer_step mem_repositories)\<^sup>*\<^sup>* (start_consumers sample_processor) s \<and>
     cs_submitted s = [(sample_transfer, Id 1)] \<and> cs_processed s = [(sample_transfer, Id 1)]"
proof -
  let ?s0 = "start_consumers sample_processor" and ?step = "consumer_step mem_repositories"
  define s1 where "s1 = ?s0\<lparr>cs_proc := snd (submit (cs_proc ?s0) sample_transfer),
      cs_submitted := cs_submitted ?s0 @ [(sample_transfer, Id 1)]\<rparr>"
  have s0: "cs_proc ?s0 = sample_processor\<lparr>pr_started := True\<rparr>" "cs_consumers ?s0 = [At_pop]" "cs_processed ?s0 = []"
    "cs_submitted ?s0 = []"
    by (simp_all add: start_consumers_def start_processor_def sample_processor_def new_queue_def)
  have "fst (submit (cs_proc ?s0) sample_transfer) = result_success (Id 1)"
    unfolding s0(1) by (simp add: submit_def sample_processor_def fresh_id_def enqueue_def new_queue_def)
  then have submitted: "submit (cs_proc ?s0) sample_transfer = (result_success (Id 1), cs_proc s1)"
    by (simp add: s1_def prod_eq_iff)
  have step1: "?step ?s0 s1" using client_submits [OF submitted] by (simp add: s1_def)
  have s1: "tq_queue (pr_queue (cs_proc s1)) = [sample_transfer]" "pr_reserved (cs_proc s1) = [Id 1]"
    "cs_consumers s1 = [At_pop]" "cs_processed s1 = []" "cs_submitted s1 = [(sample_transfer, Id 1)]"
    using s0 submit_success [OF submitted] by (simp_all add: s1_def sample_processor_def new_queue_def)
  define s2 where "s2 = s1\<lparr>cs_proc := (cs_proc s1)\<lparr>pr_queue := (pr_queue (cs_proc s1))\<lparr>tq_queue := []\<rparr>\<rparr>,
      cs_consumers := [Has_txn sample_transfer]\<rparr>"
  have step2: "?step s1 s2"
    using consumer_pops [of 0 s1 sample_transfer "(pr_queue (cs_proc s1))\<lparr>tq_queue := []\<rparr>"] s1
    by (simp add: s2_def wait_pop_def)
  define s3 where "s3 = s2\<lparr>cs_proc := (cs_proc s2)\<lparr>pr_reserved := []\<rparr>, cs_consumers := [Has_both sample_transfer (Id 1)]\<rparr>"
  have step3: "?step s2 s3"
    using consumer_takes_id [of 0 s2 sample_transfer "Id 1" "(cs_proc s2)\<lparr>pr_reserved := []\<rparr>"] s1
    by (simp add: s3_def s2_def take_reserved_id_def)
  obtain r p where run: "process_impl mem_repositories sample_env sample_transfer (Id 1) (cs_proc s3) = (Inr r, p)"
    using mem.process_impl_total by blast
  define s4 where "s4 = s3\<lparr>cs_proc := p, cs_consumers := [At_pop], cs_processed := [(sample_transfer, Id 1)]\<rparr>"
  have step4: "?step s3 s4"
    using consumer_runs [OF _ _ run, of 0] s1 by (simp add: s4_def s3_def s2_def)
  have reach: "?step\<^sup>*\<^sup>* ?s0 s4"
    by (rule rtranclp_trans [of _ _ s2]) (use step1 step2 step3 step4 in auto)
  have "cs_submitted s4 = [(sample_transfer, Id 1)]" using s1 by (simp add: s4_def s3_def s2_def)
  moreover have "\<exists>rest. cs_submitted s4 = cs_processed s4 @ rest"
    by (rule single_consumer_keeps_ids [OF reach]) (simp_all add: sample_processor_def new_queue_def)
  moreover have "length (cs_processed s4) = 1" by (simp add: s4_def)
  ultimately show ?thesis using reach by (cases "cs_processed s4") (auto simp: s4_def)
qed

text \<open>
  C19: with two consumers it is not. Popping a transaction and taking the next reserved id are two separate
  steps, so of two queued transactions the second can be run, and recorded, under the id that \<open>submit\<close>
  returned for the first.
\<close>

theorem two_consumers_swap_ids:
  assumes "pr_reserved p = [i, j]" "tq_queue (pr_queue p) = [t, u]" "pr_worker_count p = 2"
  shows "\<exists>s. (consumer_step mem_repositories)\<^sup>*\<^sup>* (start_consumers p) s \<and>
    cs_submitted s = [(t, i), (u, j)] \<and> cs_processed s = [(u, i)]"
  using two_consumers_swap [OF assms] by blast

theorem two_consumers_swap_ids_witness:
  "\<exists>s. (consumer_step mem_repositories)\<^sup>*\<^sup>* (start_consumers
       (sample_processor\<lparr>pr_queue := \<lparr>tq_queue = [sample_transfer, Deposit (Id 1) (Mk_Money 5)], tq_closed = False\<rparr>,
          pr_reserved := [Id 1, Id 2], pr_worker_count := 2\<rparr>)) s \<and>
     cs_processed s = [(Deposit (Id 1) (Mk_Money 5), Id 1)]"
  using two_consumers_swap_ids [of "sample_processor\<lparr>pr_queue := \<lparr>tq_queue = [sample_transfer, Deposit (Id 1) (Mk_Money 5)],
      tq_closed = False\<rparr>, pr_reserved := [Id 1, Id 2], pr_worker_count := 2\<rparr>"] by auto

section \<open>The services\<close>

text \<open>
  C26: a refused login tells nothing, as long as hashing works. Take two banks with the same processor, sessions
  and audit ids; in one the customer is known but the pin is wrong, in the other the customer is unknown. If the
  dummy hash can be computed, the answer is the same message, the same audit entry is appended (that of the
  refused login), and the sessions, the accounts and the customers are as before, so the banks stay alike. If it
  cannot, since no salt can be drawn or the key derivation fails, the login of the unknown customer throws, and
  the wrong pin is refused as ever. No session is made in any case.
\<close>

theorem login_refusals_alike:
  assumes "cr_find_by_id crepo (bk_customers b) i = Inr (Some c)" "\<not> password_verify kdf pin (cust_pin_hash c)"
    "cr_find_by_id crepo (bk_customers b2) i = Inr None" "dummy_hash kdf env b2 = (h, b3)"
    "bk_proc b2 = bk_proc b" "bk_sessions b2 = bk_sessions b" "bk_audit_id b2 = bk_audit_id b"
  shows "\<exists>known. login kdf repos crepo env i pin b = Some (Inr (result_failure ''invalid credentials''), known) \<and>
    known = snd (audit_append repos (le_audit_time env) i ''auth.login_failed'' ''invalid credentials'' b) \<and>
    bk_sessions known = bk_sessions b \<and> pr_accounts (bk_proc known) = pr_accounts (bk_proc b) \<and>
    bk_customers known = bk_customers b \<and>
    (case h of
       Inl e \<Rightarrow> login kdf repos crepo env i pin b2 = Some (Inl e, b2)
     | Inr _ \<Rightarrow> \<exists>unknown.
         login kdf repos crepo env i pin b2 = Some (Inr (result_failure ''invalid credentials''), unknown) \<and>
         bk_proc unknown = bk_proc known \<and> bk_sessions unknown = bk_sessions known \<and>
         bk_audit_id unknown = bk_audit_id known)"
proof (cases h)
  case (Inl e)
  then have "b3 = b2" using assms(4) by (auto simp: dummy_hash_def split: option.splits sum.splits)
  then show ?thesis
    using login_wrong_pin [OF assms(1,2), of repos env] assms(3,4) Inl same_but_audit_simps [OF audit_append_same, of repos
      "le_audit_time env" i "''auth.login_failed''" "''invalid credentials''" b]
    by (simp add: refused_login_def login_def)
next
  case (Inr x)
  obtain d where b3: "b3 = b2\<lparr>bk_dummy := d\<rparr>" using dummy_hash_same [OF assms(4)] by blast
  let ?refuse = "audit_append repos (le_audit_time env) i ''auth.login_failed'' ''invalid credentials''"
  have "bk_proc (snd (?refuse b3)) = bk_proc (snd (?refuse b)) \<and>
      bk_sessions (snd (?refuse b3)) = bk_sessions (snd (?refuse b)) \<and>
      bk_audit_id (snd (?refuse b3)) = bk_audit_id (snd (?refuse b))"
    using assms(5-7) by (simp add: b3 audit_append_def Let_def split: prod.splits)
  moreover note same_but_audit_simps [OF audit_append_same, of repos "le_audit_time env" i
      "''auth.login_failed''" "''invalid credentials''" b]
  ultimately show ?thesis
    using login_wrong_pin [OF assms(1,2), of repos env] login_unknown [OF assms(3) assms(4) [unfolded Inr], of repos pin] Inr
    by (simp add: refused_login_def)
qed

theorem login_refusals_alike_witness:
  "\<exists>known unknown.
     login sample_kdf mem_repositories mem_customers sample_login_env (Id 3) ''12345''
       (sample_bank\<lparr>bk_customers := [(3, sample_customer)]\<rparr>) =
       Some (Inr (result_failure ''invalid credentials''), known) \<and>
     login sample_kdf mem_repositories mem_customers sample_login_env (Id 3) ''12345'' sample_bank =
       Some (Inr (result_failure ''invalid credentials''), unknown) \<and>
     pr_audit (bk_proc unknown) = pr_audit (bk_proc known)"
proof -
  let ?b = "sample_bank\<lparr>bk_customers := [(3, sample_customer)]\<rparr>"
  have known: "cr_find_by_id mem_customers (bk_customers ?b) (Id 3) = Inr (Some sample_customer)"
    and unknown: "cr_find_by_id mem_customers (bk_customers sample_bank) (Id 3) = Inr None"
    by (simp_all add: mem_customers_def mem_customers_find_by_id_def sample_bank_def)
  have wrong: "\<not> password_verify sample_kdf ''12345'' (cust_pin_hash sample_customer)" by (simp add: sample_pin)
  obtain h b3 where dummy: "dummy_hash sample_kdf sample_login_env sample_bank = (Inr h, b3)"
    by (simp add: dummy_hash_def sample_bank_def sample_login_env_def password_create_def derive_def sample_kdf_def)
  show ?thesis
    using login_refusals_alike [OF known wrong unknown dummy, of mem_repositories] by auto
qed

text \<open>
  C27: a session is given only for the right pin, and lasts until it expires or its owner logs out. If a login
  succeeds, the customer is in the repository and the pin is accepted by its stored hash; the session is that
  customer's, with its role, and is valid until its time of expiry; after a logout with its token, which
  succeeds even when the session has expired, the token is not valid at any time.
\<close>

theorem login_gives_own_session:
  assumes "login kdf repos crepo env i pin b = Some (Inr (result_success s), b')"
  shows "(\<exists>c. cr_find_by_id crepo (bk_customers b) i = Inr (Some c) \<and> password_verify kdf pin (cust_pin_hash c) \<and>
      ses_customer_id s = cust_id c \<and> ses_role s = cust_role c) \<and>
    fst (session_validate later (bk_sessions b') (ses_token s)) =
      (if le_session_time env + sm_ttl (bk_sessions b) <=s later then None else Some s) \<and>
    fst (logout repos now (ses_token s) b') = void_success \<and>
    fst (session_validate later (bk_sessions (snd (logout repos now (ses_token s) b'))) (ses_token s)) = None"
proof -
  obtain c m where cust: "cr_find_by_id crepo (bk_customers b) i = Inr (Some c)" "password_verify kdf pin (cust_pin_hash c)"
    and made: "session_create (le_draws env) (le_session_time env) (bk_sessions b) (cust_id c) (cust_role c) = Some (s, m)"
    and b': "bk_sessions b' = m" using login_success [OF assms] by metis
  have "map_of (sm_sessions (bk_sessions b')) (ses_token s) = Some s"
    using session_create_Some(6) [OF made] b' by simp
  from logout_known [OF this, of repos now] show ?thesis
    using cust session_create_Some [OF made] validate_created [OF made] b' validate_revoked by auto
qed

theorem login_gives_own_session_witness:
  "\<exists>s b'. login sample_kdf mem_repositories mem_customers sample_login_env (Id 3) ''1234''
       (sample_bank\<lparr>bk_customers := [(3, sample_customer)]\<rparr>) = Some (Inr (result_success s), b') \<and>
     ses_role s = Role_Teller \<and> fst (session_validate 149 (bk_sessions b') (ses_token s)) = Some s"
proof -
  let ?b = "sample_bank\<lparr>bk_customers := [(3, sample_customer)]\<rparr>"
  have known: "cr_find_by_id mem_customers (bk_customers ?b) (Id 3) = Inr (Some sample_customer)"
    by (simp add: mem_customers_def mem_customers_find_by_id_def)
  have pin: "password_verify sample_kdf ''1234'' (cust_pin_hash sample_customer)" by (simp add: sample_pin)
  have "fresh_token (sm_sessions (bk_sessions ?b)) (le_draws sample_login_env) 0 = Some (generate_token [0, 7])"
    by (subst fresh_token.simps) (simp add: sample_bank_def new_session_manager_def sample_login_env_def)
  then obtain s m where made: "session_create (le_draws sample_login_env) (le_session_time sample_login_env) (bk_sessions ?b)
      (cust_id sample_customer) (cust_role sample_customer) = Some (s, m)" by (simp add: session_create_def Let_def)
  obtain b' where run: "login sample_kdf mem_repositories mem_customers sample_login_env (Id 3) ''1234'' ?b =
      Some (Inr (result_success s), b')" using login_accepts [OF known pin made] by blast
  from login_gives_own_session [OF run, of 149] known show ?thesis using run
    by (auto simp: sample_customer_def sample_login_env_def sample_bank_def new_session_manager_def word_sle_eq)
qed

text \<open>
  C29: a frozen account takes part in no later transaction, on the in-memory repositories and with no other call in
  progress. After \<open>freeze\<close> has answered success on accounts in range, the next \<open>process_one\<close> of a deposit,
  withdrawal or transfer that names the account is refused if it returns, and the accounts and the transactions stay
  as they are, given an amount in range and a commit marker that can be written; the refusal is an audit
  entry. An \<open>unfreeze\<close> after it answers success, and then every account is as it was before the freeze,
  except that this one is active and its version has counted the changes. A transaction that is already being
  processed when \<open>freeze\<close> runs is another matter (\<open>transaction_undoes_freeze\<close>).
\<close>

theorem frozen_account_refuses:
  assumes "bank_freeze mem_repositories now i b = (Inr void_success, b1)"
    "mem_ok (pr_accounts (bk_proc b))" "money_ok (amount_of t)" "i \<in> set (involved_accounts t)" "pe_marker env = None"
    "on_processor (process_one mem_repositories env t) b1 = (Inr res, b2)"
  shows "\<not> result_ok res \<and> pr_accounts (bk_proc b2) = pr_accounts (bk_proc b1) \<and>
    pr_transactions (bk_proc b2) = pr_transactions (bk_proc b1) \<and>
    (\<exists>a b3. mem_accounts_view (pr_accounts (bk_proc b)) i = Some a \<and>
      bank_unfreeze mem_repositories now' i b2 = (Inr void_success, b3) \<and>
      mem_accounts_view (pr_accounts (bk_proc b3)) =
        (mem_accounts_view (pr_accounts (bk_proc b)))(i \<mapsto> set_status (set_status a Frozen) Active))"
proof -
  let ?v = "mem_accounts_view (pr_accounts (bk_proc b))" and ?v1 = "mem_accounts_view (pr_accounts (bk_proc b1))"
  have ok: "mem_accounts_ok (pr_accounts (bk_proc b))" using assms(2) by (simp add: mem_ok_def)
  obtain a where a: "?v i = Some a" "acc_status a \<noteq> Closed"
    and changed: "status_changed mem_accounts_ok mem_accounts_view Frozen i b b1"
    using mem.freeze_outcome [OF ok, of now i] assms(1)
    by (auto simp: void_success_def void_failure_def split: option.splits if_splits)
  have v1: "?v1 = ?v(i \<mapsto> set_status a Frozen)" and ok1: "mem_accounts_ok (pr_accounts (bk_proc b1))"
    using changed a by (simp_all add: status_changed_def)
  have vok: "view_ok ?v1" using mem_view_ok [OF assms(2)] a by (auto simp: v1 view_ok_def)
  have frozen: "?v1 i = Some (set_status a Frozen)" "acc_status (set_status a Frozen) \<noteq> Active" by (simp_all add: v1)
  obtain p where run: "process_one mem_repositories env t (bk_proc b1) = (Inr res, p)" and b2: "bk_proc b2 = p"
    using assms(6) by (auto simp: on_processor_def split: prod.splits)
  note refused = mem.inactive_refused [OF run ok1 vok assms(3,4) frozen assms(5)]
  have v2: "mem_accounts_view (pr_accounts (bk_proc b2)) i = Some (set_status a Frozen)"
    and ok2: "mem_accounts_ok (pr_accounts (bk_proc b2))"
    using refused b2 frozen(1) ok1 by simp_all
  obtain b3 where "bank_unfreeze mem_repositories now' i b2 = (Inr void_success, b3)"
    and "status_changed mem_accounts_ok mem_accounts_view Active i b2 b3"
    using mem.unfreeze_outcome [OF ok2, of now' i] v2 by auto
  then show ?thesis using refused b2 a(1) v1 v2 by (auto simp: status_changed_def)
qed

theorem frozen_account_refuses_witness:
  "\<exists>b1 res b2. bank_freeze mem_repositories 0 (Id 2) sample_bank = (Inr void_success, b1) \<and>
     bank_transfer mem_repositories sample_env (Id 1) (Id 2) (Mk_Money 300) b1 = (Inr res, b2) \<and>
     \<not> result_ok res \<and> pr_accounts (bk_proc b2) = pr_accounts (bk_proc b1) \<and>
     (\<exists>b3. bank_unfreeze mem_repositories 0 (Id 2) b2 = (Inr void_success, b3))"
proof -
  have ok: "mem_accounts_ok (pr_accounts (bk_proc sample_bank))" "mem_ok (pr_accounts (bk_proc sample_bank))"
    using sample_mem_ok by (simp_all add: sample_bank_def mem_ok_def)
  have "mem_accounts_view (pr_accounts (bk_proc sample_bank)) (Id 2) = Some (sample_account 2 1000)"
    by (simp add: sample_bank_def sample_processor_def sample_accounts_def mem_accounts_view_def)
  then obtain b1 where b1: "bank_freeze mem_repositories 0 (Id 2) sample_bank = (Inr void_success, b1)"
    using mem.freeze_outcome [OF ok(1), of 0 "Id 2"] by (auto simp: sample_account_def)
  obtain r p where "process_one mem_repositories sample_env (Transfer (Id 1) (Id 2) (Mk_Money 300)) (bk_proc b1) = (Inr r, p)"
    using mem.process_impl_total by (force simp: process_one_def fresh_id_def)
  then obtain b2 where run: "bank_transfer mem_repositories sample_env (Id 1) (Id 2) (Mk_Money 300) b1 = (Inr r, b2)"
    by (simp add: bank_transfer_def on_processor_def)
  from frozen_account_refuses [OF b1 ok(2) _ _ sample_env_simps(1) run [unfolded bank_transfer_def]]
  show ?thesis using b1 run by (simp add: money_ok_def amount_def) blast
qed

text \<open>
  C31: what a client sees of a successful deposit, withdrawal or transfer, on the in-memory repositories with
  accounts and amount in range. The balance of every account changes by its share of the transaction and is in
  range, the record is in the history of every account that the transaction names, and the history of every other
  account is as it was.
\<close>

theorem balance_and_history_follow:
  assumes "on_processor (process_one mem_repositories env t) b = (Inr (result_success rec), b')"
    "mem_ok (pr_accounts (bk_proc b))" "money_ok (amount_of t)"
    "bank_balance mem_repositories i b = Inr (result_success before)"
  shows "(\<exists>after. bank_balance mem_repositories i b' = Inr (result_success after) \<and> money_ok after \<and>
      amount after = amount before + txn_delta t i) \<and>
    (\<exists>old. bank_history mem_repositories i b = result_success old \<and>
      bank_history mem_repositories i b' =
        result_success (if i \<in> set (involved_accounts t) then old @ [rec] else old))"
proof -
  obtain n p where run: "process_impl mem_repositories env t n ((bk_proc b)\<lparr>pr_next_id := pr_next_id (bk_proc b) + 1\<rparr>) =
      (Inr (result_success rec), p)" and b': "bk_proc b' = p"
    using assms(1) by (auto simp: on_processor_def process_one_def fresh_id_def split: prod.splits)
  have ok: "mem_accounts_ok (pr_accounts (bk_proc b))" using assms(2) by (simp add: mem_ok_def)
  note effects = mem.success_effects [OF run _ _ assms(3), simplified, OF ok mem_view_ok [OF assms(2)]]
  obtain a where a: "mem_accounts_view (pr_accounts (bk_proc b)) i = Some a" "before = acc_balance a"
    using assms(4) mem.balance_view [OF ok, of i] by (auto split: option.splits)
  have aok: "account_ok a" "acc_id a = i" using mem_view_ok [OF assms(2)] a by (auto simp: view_ok_def)
  obtain a' where a': "mem_accounts_view (pr_accounts p) i = Some a'" "posted t a a'"
    using posted_view_at [of t "mem_accounts_view (pr_accounts (bk_proc b))" "mem_accounts_view (pr_accounts p)" i a]
      effects a(1) by blast
  have "account_ok a' \<and> funds a' = funds a + txn_delta t i"
    using posted_funds [OF a'(2)] posted_ok [OF a'(2)] aok by simp
  moreover have "bank_balance mem_repositories i b' = Inr (result_success (acc_balance a'))"
    using mem.balance_view [of b' i] effects a'(1) b' by simp
  moreover have "involves i rec \<longleftrightarrow> i \<in> set (involved_accounts t)"
    using effects by (auto simp: committed_record_def project_transaction_def involves_def set_involved elem_set)
  ultimately show ?thesis using effects a(2) b'
    by (auto simp: account_ok_def bank_history_def mem_transactions_def mem_transactions_for_account_def)
qed

theorem balance_and_history_follow_witness:
  "\<exists>rec b' after. bank_deposit mem_repositories sample_env (Id 2) (Mk_Money 500) sample_bank = (Inr (result_success rec), b') \<and>
     bank_balance mem_repositories (Id 2) b' = Inr (result_success after) \<and> amount after = 1500"
proof -
  let ?t = "Deposit (Id 2) (Mk_Money 500)"
  have ok: "mem_ok (pr_accounts (bk_proc sample_bank))" using sample_mem_ok by (simp add: sample_bank_def)
  have m: "money_ok (amount_of ?t)" by (simp add: money_ok_def amount_def)
  have "process_verdict ?t (mem_accounts_view (pr_accounts sample_processor)) = None" by code_simp
  then obtain rec b' where run: "on_processor (process_one mem_repositories sample_env ?t) sample_bank =
      (Inr (result_success rec), b')" using m by (rule sample_success)
  have "bank_balance mem_repositories (Id 2) sample_bank = Inr (result_success (Mk_Money 1000))" by code_simp
  from balance_and_history_follow [OF run ok m this] show ?thesis
    using run by (auto simp: bank_deposit_def txn_delta_def amount_def)
qed

end
